(* ===== verification/Prelude.thy ===== *)
theory Prelude
  imports Main
begin

text \<open>
  Shared vocabulary of the development: thread identifiers, the machine arithmetic of
  \<open>usize\<close> and \<open>u32\<close> counters with its wrap-around written out, and sums of a weight over a
  list, which count threads at given program points.
\<close>

type_synonym tid = nat

section \<open>Fixed-width counters\<close>

text \<open>
  \<open>AtomicUsize::fetch_add\<close>, \<open>fetch_sub\<close> and their \<open>u32\<close> counterparts wrap. The width is
  an argument: \<open>usize_mod\<close> for 64-bit targets, \<open>u32_mod\<close> for \<open>AtomicU32\<close>.
\<close>

definition usize_mod :: nat where
  "usize_mod = 2 ^ 64"

definition u32_mod :: nat where
  "u32_mod = 2 ^ 32"

definition usize_max :: nat where
  "usize_max = usize_mod - 1"

definition isize_max :: nat where
  "isize_max = 2 ^ 63 - 1"

definition wrap_add :: "nat \<Rightarrow> nat \<Rightarrow> nat \<Rightarrow> nat" where
  "wrap_add m a b = (a + b) mod m"

definition wrap_sub :: "nat \<Rightarrow> nat \<Rightarrow> nat \<Rightarrow> nat" where
  "wrap_sub m a b = (a + (m - b mod m)) mod m"

named_theorems width_simps \<open>counter arithmetic inside its range\<close>

lemma wrap_add_exact [width_simps]: "a + b < m \<Longrightarrow> wrap_add m a b = a + b"
  by (simp add: wrap_add_def)

lemma wrap_sub_exact [width_simps]:
  assumes "b \<le> a" and "a < m"
  shows "wrap_sub m a b = a - b"
proof -
  have "a + (m - b mod m) = (a - b) + m" using assms by simp
  then show ?thesis using assms by (simp only: wrap_sub_def mod_add_self2) simp
qed

lemma wrap_add_bound: "0 < m \<Longrightarrow> wrap_add m a b < m"
  by (simp add: wrap_add_def)

lemma wrap_sub_bound: "0 < m \<Longrightarrow> wrap_sub m a b < m"
  by (simp add: wrap_sub_def)

lemma usize_max_less: "n \<le> usize_max \<longleftrightarrow> n < usize_mod"
  by (simp add: usize_max_def usize_mod_def) arith

section \<open>Sums over lists\<close>

definition tally :: "('a \<Rightarrow> nat) \<Rightarrow> 'a list \<Rightarrow> nat" where
  "tally f xs = sum_list (map f xs)"

lemma tally_Nil [simp]: "tally f [] = 0"
  by (simp add: tally_def)

lemma tally_Cons [simp]: "tally f (x # xs) = f x + tally f xs"
  by (simp add: tally_def)

lemma tally_append [simp]: "tally f (xs @ ys) = tally f xs + tally f ys"
  by (simp add: tally_def)

lemma tally_replicate [simp]: "tally f (replicate n x) = n * f x"
  by (induction n) auto

lemma tally_update:
  "i < length xs \<Longrightarrow> tally f (xs[i := x]) + f (xs ! i) = tally f xs + f x"
proof (induction xs arbitrary: i)
  case Nil
  then show ?case by simp
next
  case (Cons y ys)
  then show ?case by (cases i) fastforce+
qed

lemma tally_member: "i < length xs \<Longrightarrow> f (xs ! i) \<le> tally f xs"
  using elem_le_sum_list [of i "map f xs"] by (simp add: tally_def)

lemma tally_pos_iff: "0 < tally f xs \<longleftrightarrow> (\<exists>x \<in> set xs. 0 < f x)"
  by (induction xs) auto

lemma tally_pos_nth: "0 < tally f xs \<longleftrightarrow> (\<exists>i < length xs. 0 < f (xs ! i))"
  by (simp add: tally_pos_iff) (metis in_set_conv_nth)

lemma tally_le_length: "(\<And>x. f x \<le> 1) \<Longrightarrow> tally f xs \<le> length xs"
proof (induction xs)
  case (Cons x xs)
  then have "f x \<le> 1" and "tally f xs \<le> length xs" by blast+
  then show ?case by simp
qed simp

lemma tally_cong_nth:
  "length ys = length xs \<Longrightarrow> (\<And>i. i < length xs \<Longrightarrow> f (ys ! i) = g (xs ! i)) \<Longrightarrow>
    tally f ys = tally g xs"
  by (simp add: tally_def) (metis (no_types, lifting) length_map nth_equalityI nth_map)

lemma tally_plus: "tally (\<lambda>x. f x + g x) xs = tally f xs + tally g xs"
  by (induction xs) auto

lemma concat_single:
  assumes "i < length xs" and "\<And>j. j < length xs \<Longrightarrow> j \<noteq> i \<Longrightarrow> f (xs ! j) = []"
  shows "concat (map f xs) = f (xs ! i)"
  using assms
proof (induction xs arbitrary: i)
  case (Cons x xs)
  show ?case
  proof (cases i)
    case 0
    with Cons.prems have "f (xs ! j) = []" if "j < length xs" for j using that by force
    then have "\<forall>y \<in> set xs. f y = []" by (auto simp: in_set_conv_nth)
    with 0 show ?thesis by simp
  next
    case (Suc k)
    with Cons.prems have "f x = []" by force
    moreover have "concat (map f xs) = f (xs ! k)"
      using Cons.prems Suc by (intro Cons.IH) force+
    ultimately show ?thesis using Suc by simp
  qed
qed simp

end
