(* ===== verification/Threads.thy ===== *)
theory Threads
  imports Prelude
begin

text \<open>
  A scheduler for shared-memory components. A component is a \<open>machine\<close>: the program
  counter a call starts at, which program counters are at rest (no call in progress), one
  atomic action of a thread (\<open>advance\<close>), and the condition variable (or futex word) a
  program counter sleeps on. \<open>exec\<close> performs one scheduler label on a system of finitely
  many threads, \<open>run\<close> a whole schedule. The condition variables are those of
  \<open>std::sync::Condvar\<close>: a notification wakes waiters chosen by the scheduler, a sleeping
  thread may also wake spuriously (which is how the timeout of a timed wait is covered).
  Memory is sequentially consistent: every label is one atomic action.

  The locales state the contracts that the components discharge: rely/guarantee
  invariants (\<open>guarded\<close>), one mutex (\<open>mutex\<close>), a wrapping waiter counter
  (\<open>counter\<close>) and linearization points (\<open>linearizable\<close>).
\<close>

section \<open>Machines and schedules\<close>

datatype 'cv notice = Quiet | Wake nat 'cv | WakeAll 'cv

record ('op, 'pc) thread =
  cur :: "'op option"
  called :: nat
  pc :: 'pc

record ('op, 'q, 'pc) sys =
  shared :: 'q
  now :: nat
  threads :: "('op, 'pc) thread list"

record ('op, 'q, 'pc, 'cv) machine =
  entry :: "'op \<Rightarrow> 'pc"
  resting :: "'pc \<Rightarrow> bool"
  advance :: "tid \<Rightarrow> nat \<Rightarrow> 'q \<Rightarrow> 'pc \<Rightarrow> ('q \<times> 'pc \<times> 'cv notice) option"
  dozing :: "'pc \<Rightarrow> 'cv option"
  rouse :: "'pc \<Rightarrow> 'pc"

datatype 'op label = Call tid 'op | Run tid "tid list" | Spurious tid | Tick nat

definition sleepers :: "('op, 'q, 'pc, 'cv) machine \<Rightarrow> 'cv \<Rightarrow> ('op, 'pc) thread list \<Rightarrow> tid list" where
  "sleepers M cv ts = filter (\<lambda>j. dozing M (pc (ts ! j)) = Some cv) [0..<length ts]"

definition rouse_all ::
    "('op, 'q, 'pc, 'cv) machine \<Rightarrow> tid list \<Rightarrow> ('op, 'pc) thread list \<Rightarrow> ('op, 'pc) thread list" where
  "rouse_all M ks ts =
     map (\<lambda>j. if j \<in> set ks then (ts ! j)\<lparr>pc := rouse M (pc (ts ! j))\<rparr> else ts ! j) [0..<length ts]"

text \<open>
  \<open>Wake n cv\<close> wakes exactly \<open>n\<close> sleepers, or all when there are fewer; the scheduler
  says which ones (\<open>notify_one\<close> is \<open>Wake 1\<close>).
\<close>

fun deliver :: "('op, 'q, 'pc, 'cv) machine \<Rightarrow> tid list \<Rightarrow> 'cv notice \<Rightarrow>
    ('op, 'pc) thread list \<Rightarrow> ('op, 'pc) thread list option" where
  "deliver M ks Quiet ts = Some ts"
| "deliver M ks (Wake n cv) ts =
     (if distinct ks \<and> set ks \<subseteq> set (sleepers M cv ts) \<and> length ks = min n (length (sleepers M cv ts))
      then Some (rouse_all M ks ts) else None)"
| "deliver M ks (WakeAll cv) ts = Some (rouse_all M (sleepers M cv ts) ts)"

fun exec :: "('op, 'q, 'pc, 'cv) machine \<Rightarrow> 'op label \<Rightarrow> ('op, 'q, 'pc) sys \<Rightarrow> ('op, 'q, 'pc) sys option" where
  "exec M (Call i op) s =
     (if i < length (threads s) \<and> resting M (pc (threads s ! i))
      then Some (s\<lparr>threads := (threads s)[i := \<lparr>cur = Some op, called = now s, pc = entry M op\<rparr>]\<rparr>)
      else None)"
| "exec M (Run i ks) s =
     (if i < length (threads s)
      then (case advance M i (now s) (shared s) (pc (threads s ! i)) of
              None \<Rightarrow> None
            | Some (q, p, nt) \<Rightarrow>
                (case deliver M ks nt ((threads s)[i := (threads s ! i)\<lparr>pc := p\<rparr>]) of
                   None \<Rightarrow> None
                 | Some ts \<Rightarrow> Some (s\<lparr>shared := q, threads := ts\<rparr>)))
      else None)"
| "exec M (Spurious i) s =
     (if i < length (threads s) \<and> dozing M (pc (threads s ! i)) \<noteq> None
      then Some (s\<lparr>threads := (threads s)[i := (threads s ! i)\<lparr>pc := rouse M (pc (threads s ! i))\<rparr>]\<rparr>)
      else None)"
| "exec M (Tick d) s = Some (s\<lparr>now := now s + d\<rparr>)"

fun run :: "('op, 'q, 'pc, 'cv) machine \<Rightarrow> 'op label list \<Rightarrow> ('op, 'q, 'pc) sys \<Rightarrow> ('op, 'q, 'pc) sys option" where
  "run M [] s = Some s"
| "run M (l # ls) s = (case exec M l s of None \<Rightarrow> None | Some t \<Rightarrow> run M ls t)"

definition boot :: "'q \<Rightarrow> 'pc \<Rightarrow> nat \<Rightarrow> ('op, 'q, 'pc) sys" where
  "boot q p n = \<lparr>shared = q, now = 0, threads = replicate n \<lparr>cur = None, called = 0, pc = p\<rparr>\<rparr>"

lemma boot_simps [simp]:
  "shared (boot q p n) = q" "now (boot q p n) = 0"
  "threads (boot q p n) = replicate n \<lparr>cur = None, called = 0, pc = p\<rparr>"
  by (simp_all add: boot_def)

lemma exec_cases [consumes 1, case_names Call Run Spurious Tick]:
  assumes "exec M l s = Some t"
  obtains i op where "l = Call i op" "i < length (threads s)" "resting M (pc (threads s ! i))"
      "t = s\<lparr>threads := (threads s)[i := \<lparr>cur = Some op, called = now s, pc = entry M op\<rparr>]\<rparr>"
  | i ks q p nt ts where "l = Run i ks" "i < length (threads s)"
      "advance M i (now s) (shared s) (pc (threads s ! i)) = Some (q, p, nt)"
      "deliver M ks nt ((threads s)[i := (threads s ! i)\<lparr>pc := p\<rparr>]) = Some ts"
      "t = s\<lparr>shared := q, threads := ts\<rparr>"
  | i where "l = Spurious i" "i < length (threads s)" "dozing M (pc (threads s ! i)) \<noteq> None"
      "t = s\<lparr>threads := (threads s)[i := (threads s ! i)\<lparr>pc := rouse M (pc (threads s ! i))\<rparr>]\<rparr>"
  | d where "l = Tick d" "t = s\<lparr>now := now s + d\<rparr>"
  using assms by (cases l) (auto split: if_splits option.splits)

text \<open>\<open>acts i n\<close>: thread \<open>i\<close> takes \<open>n\<close> actions that wake nobody.\<close>

definition acts :: "tid \<Rightarrow> nat \<Rightarrow> 'op label list" where
  "acts i n = replicate n (Run i [])"

lemma replicate_numeral: "replicate (numeral k) x = x # replicate (pred_numeral k) x"
  by (simp add: numeral_eq_Suc)

text \<open>\<open>solo\<close>: where \<open>k\<close> actions of one thread lead while nobody else acts, none of them a wake-up.\<close>

fun solo :: "('op, 'q, 'pc, 'cv) machine \<Rightarrow> tid \<Rightarrow> nat \<Rightarrow> nat \<Rightarrow> 'q \<Rightarrow> 'pc \<Rightarrow> ('q \<times> 'pc) option" where
  "solo M i t 0 q p = Some (q, p)"
| "solo M i t (Suc k) q p =
     (case advance M i t q p of Some (q', p', Quiet) \<Rightarrow> solo M i t k q' p' | _ \<Rightarrow> None)"

lemma solo_add:
  "solo M i t (k + k') q p = (case solo M i t k q p of None \<Rightarrow> None | Some (q', p') \<Rightarrow> solo M i t k' q' p')"
  by (induction k arbitrary: q p) (auto split: option.splits notice.splits)

lemma solo_numeral:
  "solo M i t (numeral k) q p =
     (case advance M i t q p of Some (q', p', Quiet) \<Rightarrow> solo M i t (pred_numeral k) q' p' | _ \<Rightarrow> None)"
  by (simp add: numeral_eq_Suc)

lemma solo_run:
  assumes "i < length (threads s)" and "solo M i (now s) k (shared s) (pc (threads s ! i)) = Some (q, p)"
  shows "run M (acts i k) s = Some (s\<lparr>shared := q, threads := (threads s)[i := (threads s ! i)\<lparr>pc := p\<rparr>]\<rparr>)"
  using assms
proof (induction k arbitrary: s)
  case 0
  then have "q = shared s" and "p = pc (threads s ! i)" by simp_all
  then show ?case by (simp add: acts_def)
next
  case (Suc k)
  from Suc.prems(2) obtain q' p' where
    step: "advance M i (now s) (shared s) (pc (threads s ! i)) = Some (q', p', Quiet)"
    and rest: "solo M i (now s) k q' p' = Some (q, p)"
    by (auto split: option.splits notice.splits)
  let ?t = "s\<lparr>shared := q', threads := (threads s)[i := (threads s ! i)\<lparr>pc := p'\<rparr>]\<rparr>"
  have "run M (acts i k) ?t = Some (?t\<lparr>shared := q, threads := (threads ?t)[i := (threads ?t ! i)\<lparr>pc := p\<rparr>]\<rparr>)"
    using Suc.prems(1) rest by (intro Suc.IH) simp_all
  moreover have "exec M (Run i []) s = Some ?t" using step Suc.prems(1) by simp
  ultimately show ?case using Suc.prems(1) by (simp add: acts_def)
qed

text \<open>Induction over a run from its start: an exec-closed predicate holds at its end.\<close>

lemma run_invariant:
  assumes step: "\<And>l s t. P s \<Longrightarrow> exec M l s = Some t \<Longrightarrow> P t"
  shows "run M ls s = Some t \<Longrightarrow> P s \<Longrightarrow> P t"
proof (induction ls arbitrary: s)
  case (Cons l ls)
  then show ?case by (auto split: option.splits dest: step)
qed simp

lemma run_append:
  "run M (ls @ ms) s = (case run M ls s of None \<Rightarrow> None | Some t \<Rightarrow> run M ms t)"
  by (induction ls arbitrary: s) (auto split: option.splits)

lemma pcs_nth: "map pc ts = ps \<Longrightarrow> i < length ps \<Longrightarrow> pc (ts ! i) = ps ! i"
  by auto

text \<open>What an observer of single actions sees of a run.\<close>

fun observe :: "('op, 'q, 'pc, 'cv) machine \<Rightarrow> ('op label \<Rightarrow> ('op, 'q, 'pc) sys \<Rightarrow> ('op, 'q, 'pc) sys \<Rightarrow> 'e list)
    \<Rightarrow> 'op label list \<Rightarrow> ('op, 'q, 'pc) sys \<Rightarrow> 'e list" where
  "observe M obs [] s = []"
| "observe M obs (l # ls) s =
     (case exec M l s of None \<Rightarrow> [] | Some t \<Rightarrow> obs l s t @ observe M obs ls t)"

lemma observe_append:
  "run M ls s = Some t \<Longrightarrow> observe M obs (ls @ ms) s = observe M obs ls s @ observe M obs ms t"
  by (induction ls arbitrary: s) (auto split: option.splits)

section \<open>Delivering a notification\<close>

lemma rouse_all_length [simp]: "length (rouse_all M ks ts) = length ts"
  by (simp add: rouse_all_def)

lemma rouse_all_nth:
  "j < length ts \<Longrightarrow> rouse_all M ks ts ! j =
     (if j \<in> set ks then (ts ! j)\<lparr>pc := rouse M (pc (ts ! j))\<rparr> else ts ! j)"
  by (simp add: rouse_all_def)

lemma sleepers_set: "j \<in> set (sleepers M cv ts) \<longleftrightarrow> j < length ts \<and> dozing M (pc (ts ! j)) = Some cv"
  by (auto simp: sleepers_def)

lemma none_asleep: "\<forall>th \<in> set ts. dozing M (pc th) = None \<Longrightarrow> sleepers M cv ts = []"
  by (simp add: sleepers_def filter_empty_conv)

lemma sleepers_distinct [simp]: "distinct (sleepers M cv ts)"
  by (simp add: sleepers_def)

fun target :: "'cv notice \<Rightarrow> 'cv option" where
  "target Quiet = None"
| "target (Wake n cv) = Some cv"
| "target (WakeAll cv) = Some cv"

lemma rouse_all_Nil [simp]: "rouse_all M [] ts = ts"
  by (simp add: rouse_all_def map_nth)

lemma deliver_rouse:
  assumes "deliver M ks nt ts = Some ts'"
  obtains ws where "ts' = rouse_all M ws ts"
    and "\<And>j. j \<in> set ws \<Longrightarrow> j < length ts \<and> target nt \<noteq> None \<and> dozing M (pc (ts ! j)) = target nt"
proof (cases nt)
  case Quiet
  with assms that [of "[]"] show thesis by simp
next
  case (Wake n cv)
  with assms have "ts' = rouse_all M ks ts" and "set ks \<subseteq> set (sleepers M cv ts)"
    by (auto split: if_splits)
  with Wake that [of ks] show thesis by (fastforce simp: sleepers_set)
next
  case (WakeAll cv)
  with assms that [of "sleepers M cv ts"] show thesis by (simp add: sleepers_set)
qed

lemma deliver_length: "deliver M ks nt ts = Some ts' \<Longrightarrow> length ts' = length ts"
  by (erule deliver_rouse) simp

lemma deliver_nth:
  assumes "deliver M ks nt ts = Some ts'" and "j < length ts"
  shows "ts' ! j = ts ! j \<or>
    (dozing M (pc (ts ! j)) \<noteq> None \<and> dozing M (pc (ts ! j)) = target nt
      \<and> ts' ! j = (ts ! j)\<lparr>pc := rouse M (pc (ts ! j))\<rparr>)"
  using assms(1)
proof (rule deliver_rouse)
  fix ws assume "ts' = rouse_all M ws ts"
    and "\<And>j. j \<in> set ws \<Longrightarrow> j < length ts \<and> target nt \<noteq> None \<and> dozing M (pc (ts ! j)) = target nt"
  with assms(2) show ?thesis by (cases "j \<in> set ws") (auto simp: rouse_all_nth)
qed

lemma deliver_awake:
  assumes "deliver M ks nt ts = Some ts'" and "j < length ts" and "dozing M (pc (ts ! j)) = None"
  shows "ts' ! j = ts ! j"
  using deliver_nth [OF assms(1,2)] assms(3) by auto

text \<open>The scheduler can always pick the threads to wake.\<close>

lemma deliver_possible: "\<exists>ks ts'. deliver M ks nt ts = Some ts'"
proof (cases nt)
  case (Wake n cv)
  have "deliver M (take n (sleepers M cv ts)) nt ts \<noteq> None"
    using Wake by (auto simp: distinct_take min.commute dest: in_set_takeD)
  then show ?thesis by blast
qed auto

lemma run_possible:
  assumes "i < length (threads s)" and "advance M i (now s) (shared s) (pc (threads s ! i)) \<noteq> None"
  shows "\<exists>ks t. exec M (Run i ks) s = Some t"
proof -
  from assms(2) obtain q p nt where "advance M i (now s) (shared s) (pc (threads s ! i)) = Some (q, p, nt)"
    by auto
  moreover obtain ks ts where "deliver M ks nt ((threads s)[i := (threads s ! i)\<lparr>pc := p\<rparr>]) = Some ts"
    using deliver_possible by blast
  ultimately have "exec M (Run i ks) s = Some (s\<lparr>shared := q, threads := ts\<rparr>)" using assms(1) by simp
  then show ?thesis by blast
qed

lemma stuck_blocked:
  assumes "\<And>i ks. exec M (Run i ks) s = None" and "i < length (threads s)"
  shows "advance M i (now s) (shared s) (pc (threads s ! i)) = None"
  using run_possible [of i s M, OF assms(2)] assms(1) by (metis option.distinct(1))

text \<open>A system is stuck when no thread is at a point that can act.\<close>

lemma blocked_stuck:
  assumes "\<forall>p \<in> set (map pc (threads s)). \<forall>i. advance M i (now s) (shared s) p = None"
  shows "exec M (Run i ks) s = None"
  using assms by auto

lemma exec_length: "exec M l s = Some t \<Longrightarrow> length (threads t) = length (threads s)"
  by (erule exec_cases) (auto dest: deliver_length)

lemma run_length: "run M ls s = Some t \<Longrightarrow> length (threads t) = length (threads s)"
  by (induction ls arbitrary: s) (auto split: option.splits dest: exec_length)

section \<open>The calls of a thread\<close>

text \<open>The calls that a thread makes in a run.\<close>

fun calls_by :: "tid \<Rightarrow> 'op label list \<Rightarrow> 'op list" where
  "calls_by i [] = []"
| "calls_by i (l # ls) = (case l of Call j op \<Rightarrow> if j = i then [op] else [] | _ \<Rightarrow> []) @ calls_by i ls"

lemma calls_by_append [simp]: "calls_by i (ls @ ms) = calls_by i ls @ calls_by i ms"
  by (induction ls) auto

lemma calls_by_acts [simp]: "calls_by i (acts j k) = []"
  by (induction k) (simp_all add: acts_def)

lemma calls_by_split:
  "calls_by i ls = xs @ [op] \<Longrightarrow> \<exists>ms ns. ls = ms @ Call i op # ns \<and> calls_by i ms = xs \<and> calls_by i ns = []"
proof (induction ls rule: rev_induct)
  case (snoc l ls)
  show ?case
  proof (cases "calls_by i [l] = []")
    case True
    with snoc.prems have "calls_by i ls = xs @ [op]" by simp
    from snoc.IH [OF this] obtain ms ns where "ls = ms @ Call i op # ns" "calls_by i ms = xs" "calls_by i ns = []"
      by blast
    with True have "ls @ [l] = ms @ Call i op # (ns @ [l]) \<and> calls_by i ms = xs \<and> calls_by i (ns @ [l]) = []" by simp
    then show ?thesis by blast
  next
    case False
    then obtain op' where "l = Call i op'" by (cases l) (auto split: if_splits)
    with snoc.prems have "ls @ [l] = ls @ Call i op # [] \<and> calls_by i ls = xs \<and> calls_by i [] = []" by simp
    then show ?thesis by blast
  qed
qed simp

text \<open>A thread is in the call it made last.\<close>

lemma exec_cur:
  assumes "exec M l s = Some t" and "i < length (threads s)"
  shows "cur (threads t ! i) = (if calls_by i [l] = [] then cur (threads s ! i) else Some (last (calls_by i [l])))"
  using assms(1)
proof (cases rule: exec_cases)
  case (Run j ks q p nt us)
  then have "cur (us ! i) = cur ((threads s)[j := (threads s ! j)\<lparr>pc := p\<rparr>] ! i)"
    using deliver_nth [OF Run(4), of i] assms(2) by auto
  with Run assms(2) show ?thesis by (simp add: nth_list_update)
qed (use assms(2) in \<open>auto simp: nth_list_update\<close>)

lemma run_cur:
  "run M ls s = Some t \<Longrightarrow> i < length (threads s) \<Longrightarrow>
    cur (threads t ! i) = (if calls_by i ls = [] then cur (threads s ! i) else Some (last (calls_by i ls)))"
proof (induction ls arbitrary: s)
  case (Cons l ls)
  then obtain u where u: "exec M l s = Some u" "run M ls u = Some t" by (auto split: option.splits)
  have "calls_by i (l # ls) = calls_by i [l] @ calls_by i ls" by simp
  with Cons.IH [OF u(2)] exec_cur [OF u(1) Cons.prems(2)] exec_length [OF u(1)] Cons.prems(2)
  show ?case by (simp del: calls_by.simps)
qed simp

section \<open>Weights\<close>

text \<open>
  Weights: a function of the program counter summed over the threads. The weight \<open>1\<close> on
  a set of program counters counts the threads there.
\<close>

definition weight :: "('pc \<Rightarrow> nat) \<Rightarrow> ('op, 'pc) thread list \<Rightarrow> nat" where
  "weight f ts = tally (\<lambda>th. f (pc th)) ts"

definition sleeping :: "('op, 'q, 'pc, 'cv) machine \<Rightarrow> 'cv \<Rightarrow> ('op, 'pc) thread list \<Rightarrow> nat" where
  "sleeping M cv ts = weight (\<lambda>p. of_bool (dozing M p = Some cv)) ts"

lemma weight_update:
  "i < length ts \<Longrightarrow> weight f (ts[i := th]) + f (pc (ts ! i)) = weight f ts + f (pc th)"
  using tally_update [of i ts "\<lambda>th. f (pc th)" th] by (simp add: weight_def)

lemma weight_update_same:
  "i < length ts \<Longrightarrow> f (pc th) = f (pc (ts ! i)) \<Longrightarrow> weight f (ts[i := th]) = weight f ts"
  using weight_update [of i ts f th] by simp

lemma weight_member: "i < length ts \<Longrightarrow> f (pc (ts ! i)) \<le> weight f ts"
  using tally_member [of i ts "\<lambda>th. f (pc th)"] by (simp add: weight_def)

lemma weight_pos_iff: "0 < weight f ts \<longleftrightarrow> (\<exists>i < length ts. 0 < f (pc (ts ! i)))"
  by (simp add: weight_def tally_pos_nth)

lemma weight_zero:
  "(\<And>i. i < length ts \<Longrightarrow> f (pc (ts ! i)) = 0) \<Longrightarrow> weight f ts = 0"
  using weight_pos_iff [of f ts] by (metis gr_zeroI less_irrefl)

lemma weight_mono: "(\<And>p. f p \<le> g p) \<Longrightarrow> weight f ts \<le> weight g ts"
  unfolding weight_def tally_def by (intro sum_list_mono) auto

lemma weight_replicate [simp]: "weight f (replicate n th) = n * f (pc th)"
  by (simp add: weight_def)

lemma weight_deliver_same:
  assumes "deliver M ks nt ts = Some ts'"
    and "\<And>p. dozing M p \<noteq> None \<Longrightarrow> f (rouse M p) = f p"
  shows "weight f ts' = weight f ts"
  unfolding weight_def
proof (rule tally_cong_nth)
  show "length ts' = length ts" using assms(1) by (rule deliver_length)
  fix j assume "j < length ts"
  from deliver_nth [OF assms(1) this] assms(2) show "f (pc (ts' ! j)) = f (pc (ts ! j))" by auto
qed

lemma sleeping_eq: "sleeping M cv ts = length (sleepers M cv ts)"
proof -
  have count: "tally (\<lambda>j. of_bool (P j)) xs = length (filter P xs)" for P and xs :: "nat list"
    by (induction xs) auto
  have "tally (\<lambda>th. of_bool (dozing M (pc th) = Some cv)) ts
      = tally (\<lambda>j. of_bool (dozing M (pc (ts ! j)) = Some cv)) [0..<length ts]"
    by (rule tally_cong_nth) auto
  also have "\<dots> = length (sleepers M cv ts)"
    unfolding sleepers_def by (rule count)
  finally show ?thesis by (simp add: sleeping_def weight_def)
qed

lemma filter_remove_length:
  assumes "distinct xs" and "distinct ks" and "set ks \<subseteq> set xs"
  shows "length (filter (\<lambda>j. j \<notin> set ks) xs) = length xs - length ks"
proof -
  have "set (filter (\<lambda>j. j \<notin> set ks) xs) = set xs - set ks" by auto
  then have "length (filter (\<lambda>j. j \<notin> set ks) xs) = card (set xs - set ks)"
    using assms(1) by (metis distinct_card distinct_filter)
  also have "\<dots> = length xs - length ks"
    using assms by (simp add: card_Diff_subset distinct_card)
  finally show ?thesis .
qed

section \<open>The rules of a machine\<close>

text \<open>A sleeping or resting thread takes no step, and a woken thread is awake.\<close>

locale machine_rules =
  fixes M :: "('op, 'q, 'pc, 'cv) machine"
  assumes entry_awake: "dozing M (entry M op) = None"
    and rest_blocked: "resting M p \<Longrightarrow> advance M i t q p = None"
    and rest_awake: "resting M p \<Longrightarrow> dozing M p = None"
    and doze_blocked: "dozing M p \<noteq> None \<Longrightarrow> advance M i t q p = None"
    and rouse_awake: "dozing M p \<noteq> None \<Longrightarrow> dozing M (rouse M p) = None"
    and doze_quiet: "advance M i t q p = Some (q', p', nt) \<Longrightarrow> dozing M p' \<noteq> None \<Longrightarrow> nt = Quiet"
begin

text \<open>
  One action seen thread by thread: the mover goes to its new program counter, every other
  thread stays or is woken.
\<close>

lemma run_mover:
  assumes "exec M (Run i ks) s = Some t"
  obtains q p nt where "i < length (threads s)" "now t = now s"
    "advance M i (now s) (shared s) (pc (threads s ! i)) = Some (q, p, nt)"
    "deliver M ks nt ((threads s)[i := (threads s ! i)\<lparr>pc := p\<rparr>]) = Some (threads t)"
    "shared t = q" "threads t ! i = (threads s ! i)\<lparr>pc := p\<rparr>"
    "\<And>j. j < length (threads s) \<Longrightarrow> j \<noteq> i \<Longrightarrow> threads t ! j = threads s ! j \<or>
      (dozing M (pc (threads s ! j)) \<noteq> None
        \<and> threads t ! j = (threads s ! j)\<lparr>pc := rouse M (pc (threads s ! j))\<rparr>)"
  using assms
proof (cases rule: exec_cases)
  case (Run i' ks' q p nt us)
  let ?mid = "(threads s)[i := (threads s ! i)\<lparr>pc := p\<rparr>]"
  have i: "i < length (threads s)" and adv: "advance M i (now s) (shared s) (pc (threads s ! i)) = Some (q, p, nt)"
    and del: "deliver M ks nt ?mid = Some us" and t: "t = s\<lparr>shared := q, threads := us\<rparr>"
    using Run by auto
  have "us ! i = (threads s ! i)\<lparr>pc := p\<rparr>"
    using deliver_nth [OF del, of i] i doze_quiet [OF adv] by (cases nt) auto
  moreover have "us ! j = threads s ! j \<or> (dozing M (pc (threads s ! j)) \<noteq> None
      \<and> us ! j = (threads s ! j)\<lparr>pc := rouse M (pc (threads s ! j))\<rparr>)"
    if "j < length (threads s)" "j \<noteq> i" for j
    using deliver_nth [OF del, of j] that by auto
  ultimately show thesis using that i adv del t by simp
qed simp_all

lemma step_was_awake: "advance M i t q p = Some r \<Longrightarrow> dozing M p = None"
  using doze_blocked [of p i t q] by (cases "dozing M p") auto

lemma sleepers_rouse_all:
  assumes "\<And>j. j \<in> set ks \<Longrightarrow> j < length ts \<Longrightarrow> dozing M (pc (ts ! j)) \<noteq> None"
  shows "sleepers M cv (rouse_all M ks ts) = filter (\<lambda>j. j \<notin> set ks) (sleepers M cv ts)"
  unfolding sleepers_def filter_filter rouse_all_length
  by (rule filter_cong) (auto simp: rouse_all_nth rouse_awake assms)

lemma sleeping_wake:
  assumes "deliver M ks (Wake n cv) ts = Some ts'"
  shows "sleeping M cv ts' = sleeping M cv ts - n"
proof -
  have ks: "distinct ks" "set ks \<subseteq> set (sleepers M cv ts)"
      "length ks = min n (length (sleepers M cv ts))"
    and ts': "ts' = rouse_all M ks ts"
    using assms by (auto split: if_splits)
  have "sleepers M cv ts' = filter (\<lambda>j. j \<notin> set ks) (sleepers M cv ts)"
    unfolding ts' using ks(2) by (intro sleepers_rouse_all) (auto simp: sleepers_set)
  then show ?thesis
    using filter_remove_length [OF sleepers_distinct ks(1,2)] ks(3) by (simp add: sleeping_eq)
qed

lemma sleeping_wake_all:
  assumes "deliver M ks (WakeAll cv) ts = Some ts'"
  shows "sleeping M cv ts' = 0"
proof -
  have "ts' = rouse_all M (sleepers M cv ts) ts" using assms by simp
  then have "sleepers M cv ts' = filter (\<lambda>j. j \<notin> set (sleepers M cv ts)) (sleepers M cv ts)"
    by (simp only:) (rule sleepers_rouse_all, simp add: sleepers_set)
  then show ?thesis by (simp add: sleeping_eq filter_empty_conv)
qed

lemma sleeping_other:
  assumes "deliver M ks nt ts = Some ts'" and "target nt \<noteq> Some cv"
  shows "sleeping M cv ts' = sleeping M cv ts"
  unfolding sleeping_def weight_def
proof (rule tally_cong_nth)
  show "length ts' = length ts" using assms(1) by (rule deliver_length)
  fix j assume "j < length ts"
  from deliver_nth [OF assms(1) this] assms(2) rouse_awake [of "pc (ts ! j)"]
  show "of_bool (dozing M (pc (ts' ! j)) = Some cv) = of_bool (dozing M (pc (ts ! j)) = Some cv)"
    by auto
qed

text \<open>
  A weight that gains one exactly when a sleeper of \<open>cv\<close> is woken: sleepers and woken
  threads together are conserved.
\<close>

lemma weight_deliver_transfer:
  assumes "deliver M ks nt ts = Some ts'"
    and "\<And>p. dozing M p = Some cv \<Longrightarrow> f (rouse M p) = f p + 1"
    and "\<And>p. dozing M p \<noteq> None \<Longrightarrow> dozing M p \<noteq> Some cv \<Longrightarrow> f (rouse M p) = f p"
  shows "weight f ts' + sleeping M cv ts' = weight f ts + sleeping M cv ts"
proof -
  let ?g = "\<lambda>p. f p + of_bool (dozing M p = Some cv)"
  have "weight ?g ts' = weight ?g ts"
    using assms(1)
  proof (rule weight_deliver_same)
    fix p assume "dozing M p \<noteq> None"
    with assms(2,3) [of p] rouse_awake [of p] show "?g (rouse M p) = ?g p"
      by (cases "dozing M p = Some cv") auto
  qed
  then show ?thesis by (simp add: weight_def sleeping_def tally_plus)
qed

end

end
