(* ===== verification/Contracts.thy ===== *)
theory Contracts
  imports Threads
begin

text \<open>
  The contracts that concurrent components discharge, each a locale over a machine:
  \<open>guarded\<close> (rely/guarantee: a shared invariant and one per thread), \<open>mutex\<close> (a lock word
  and the program counters that hold it; a special case of \<open>guarded\<close>), \<open>counter\<close> (a
  wrapping counter of the threads inside a section) and \<open>linearizable\<close> (every call takes
  effect at one action between its call and its return, as a sequential specification
  says). Each locale lifts facts about single actions to whole runs.
\<close>

section \<open>Rely/guarantee invariants\<close>

definition all_threads ::
    "(tid \<Rightarrow> nat \<Rightarrow> 'q \<Rightarrow> ('op, 'pc) thread \<Rightarrow> bool) \<Rightarrow> ('op, 'q, 'pc) sys \<Rightarrow> bool" where
  "all_threads P s \<longleftrightarrow> (\<forall>i < length (threads s). P i (now s) (shared s) (threads s ! i))"

lemma all_threadsD: "all_threads P s \<Longrightarrow> i < length (threads s) \<Longrightarrow> P i (now s) (shared s) (threads s ! i)"
  by (simp add: all_threads_def)

locale guarded =
  fixes M :: "('op, 'q, 'pc, 'cv) machine"
    and sinv :: "'q \<Rightarrow> bool"
    and tinv :: "tid \<Rightarrow> nat \<Rightarrow> 'q \<Rightarrow> ('op, 'pc) thread \<Rightarrow> bool"
  assumes entry_ok: "\<lbrakk>sinv q; tinv i t q th; resting M (pc th)\<rbrakk> \<Longrightarrow>
      tinv i t q \<lparr>cur = Some op, called = t, pc = entry M op\<rparr>"
    and step_ok: "\<lbrakk>sinv q; tinv i t q th; advance M i t q (pc th) = Some (q', p, nt)\<rbrakk> \<Longrightarrow>
      sinv q' \<and> tinv i t q' (th\<lparr>pc := p\<rparr>)"
    and frame_ok: "\<lbrakk>sinv q; tinv i t q th; advance M i t q (pc th) = Some (q', p, nt);
      j \<noteq> i; tinv j t q th'\<rbrakk> \<Longrightarrow> tinv j t q' th'"
    and rouse_ok: "\<lbrakk>tinv i t q th; dozing M (pc th) \<noteq> None\<rbrakk> \<Longrightarrow>
      tinv i t q (th\<lparr>pc := rouse M (pc th)\<rparr>)"
    and tick_ok: "tinv i t q th \<Longrightarrow> tinv i (t + d) q th"
begin

lemma exec_guarded:
  assumes "exec M l s = Some t" and sh: "sinv (shared s)" and ts: "all_threads tinv s"
  shows "sinv (shared t) \<and> all_threads tinv t"
  using assms(1)
proof (cases rule: exec_cases)
  case (Call i op)
  then show ?thesis
    using sh ts by (auto simp: all_threads_def nth_list_update intro: entry_ok)
next
  case (Run i ks q p nt us)
  let ?mid = "(threads s)[i := (threads s ! i)\<lparr>pc := p\<rparr>]"
  have ti: "tinv i (now s) (shared s) (threads s ! i)" using ts Run(2) by (rule all_threadsD)
  have mid: "tinv j (now s) q (?mid ! j)" if "j < length (threads s)" for j
    using step_ok [OF sh ti Run(3)] frame_ok [OF sh ti Run(3)] all_threadsD [OF ts that] that
    by (cases "j = i") auto
  have "length us = length (threads s)" using deliver_length [OF Run(4)] by simp
  moreover have "tinv j (now s) q (us ! j)" if j: "j < length (threads s)" for j
    using deliver_nth [OF Run(4), of j] mid [OF j] rouse_ok j by (metis length_list_update)
  ultimately show ?thesis
    using Run(5) step_ok [OF sh ti Run(3)] by (simp add: all_threads_def)
next
  case (Spurious i)
  then show ?thesis
    using sh ts by (auto simp: all_threads_def nth_list_update intro: rouse_ok)
next
  case (Tick d)
  then show ?thesis
    using sh ts by (auto simp: all_threads_def intro: tick_ok)
qed

lemma run_guarded:
  assumes "run M ls s = Some t" and "sinv (shared s)" and "all_threads tinv s"
  shows "sinv (shared t) \<and> all_threads tinv t"
  by (rule run_invariant [OF _ assms(1)]) (use exec_guarded assms in blast)+

end

section \<open>A mutex\<close>

text \<open>
  \<open>lk\<close> is the owner of the lock, \<open>holds\<close> says which program counters own it. Every action
  either leaves both alone, takes a free lock or frees the thread's own.
\<close>

definition owns :: "('q \<Rightarrow> tid option) \<Rightarrow> ('pc \<Rightarrow> bool) \<Rightarrow> tid \<Rightarrow> nat \<Rightarrow> 'q \<Rightarrow> ('op, 'pc) thread \<Rightarrow> bool" where
  "owns lk holds i t q th \<longleftrightarrow> (holds (pc th) \<longleftrightarrow> lk q = Some i)"

definition held :: "('pc \<Rightarrow> 'b list) \<Rightarrow> ('op, 'pc) thread list \<Rightarrow> 'b list" where
  "held f ts = concat (map (\<lambda>th. f (pc th)) ts)"

locale mutex = machine_rules M
  for M :: "('op, 'q, 'pc, 'cv) machine" +
  fixes lk :: "'q \<Rightarrow> tid option" and holds :: "'pc \<Rightarrow> bool"
  assumes entry_unlocked: "\<not> holds (entry M op)"
    and rest_unlocked: "resting M p \<Longrightarrow> \<not> holds p"
    and doze_unlocked: "dozing M p \<noteq> None \<Longrightarrow> \<not> holds p \<and> \<not> holds (rouse M p)"
    and lock_step: "\<lbrakk>advance M i t q p = Some (q', p', nt); holds p \<longleftrightarrow> lk q = Some i\<rbrakk> \<Longrightarrow>
      (lk q' = lk q \<and> holds p' = holds p) \<or> (lk q = None \<and> lk q' = Some i \<and> holds p')
        \<or> (lk q = Some i \<and> lk q' = None \<and> \<not> holds p')"

sublocale mutex \<subseteq> guarded M "\<lambda>_. True" "owns lk holds"
proof
  fix q q' :: 'q and i j t d p nt op and th th' :: "('op, 'pc) thread"
  show "owns lk holds i t q th \<Longrightarrow> resting M (pc th) \<Longrightarrow>
      owns lk holds i t q \<lparr>cur = Some op, called = t, pc = entry M op\<rparr>"
    using entry_unlocked rest_unlocked by (auto simp: owns_def)
  assume "owns lk holds i t q th" and adv: "advance M i t q (pc th) = Some (q', p, nt)"
  then have own: "holds (pc th) \<longleftrightarrow> lk q = Some i" by (simp add: owns_def)
  from lock_step [OF adv own] own
  show "True \<and> owns lk holds i t q' (th\<lparr>pc := p\<rparr>)" by (auto simp: owns_def)
  show "j \<noteq> i \<Longrightarrow> owns lk holds j t q th' \<Longrightarrow> owns lk holds j t q' th'"
    using lock_step [OF adv own] by (auto simp: owns_def)
qed (use doze_unlocked in \<open>auto simp: owns_def\<close>)

context mutex
begin

text \<open>Mutual exclusion, and every other thread is outside while one is inside.\<close>

lemma mutual_exclusion:
  assumes "all_threads (owns lk holds) s" and "i < length (threads s)" and "j < length (threads s)"
    and "holds (pc (threads s ! i))" and "holds (pc (threads s ! j))"
  shows "i = j"
  using assms by (auto simp: all_threads_def owns_def)

lemma holds_active: "holds p \<Longrightarrow> \<not> resting M p \<and> dozing M p = None"
  using rest_unlocked [of p] doze_unlocked [of p] by (cases "dozing M p") auto

text \<open>
  What the thread inside the lock carries: a list that is empty outside, collected over all
  threads, is the owner's.
\<close>

lemma held_at:
  assumes "all_threads (owns lk holds) s" and i: "i < length (threads s)"
    and "lk (shared s) = Some i \<or> lk (shared s) = None" and free: "\<And>p. \<not> holds p \<Longrightarrow> f p = []"
  shows "held f (threads s) = f (pc (threads s ! i))"
  unfolding held_def
proof (rule concat_single [OF i])
  fix j assume "j < length (threads s)" and "j \<noteq> i"
  with assms(1,3) have "\<not> holds (pc (threads s ! j))" by (auto simp: all_threads_def owns_def)
  then show "f (pc (threads s ! j)) = []" by (rule free)
qed

lemma held_same:
  assumes "length ts = length us" and "\<And>j. j < length us \<Longrightarrow> f (pc (ts ! j)) = f (pc (us ! j))"
  shows "held f ts = held f us"
  unfolding held_def using assms by (intro arg_cong [of _ _ concat] nth_equalityI) auto

lemma exec_held:
  assumes "exec M l s = Some t" and "\<And>i ks. l \<noteq> Run i ks" and free: "\<And>p. \<not> holds p \<Longrightarrow> f p = []"
  shows "held f (threads t) = held f (threads s)"
  using assms(1)
proof (cases rule: exec_cases)
  case (Call i op)
  then show ?thesis
    by (intro held_same) (auto simp: nth_list_update free entry_unlocked rest_unlocked)
next
  case (Spurious i)
  then show ?thesis
    using doze_unlocked [of "pc (threads s ! i)"] by (intro held_same) (auto simp: nth_list_update free)
qed (use assms(2) in auto)

lemma run_held:
  assumes own: "all_threads (owns lk holds) s" and ex: "exec M (Run i ks) s = Some t"
    and free: "\<And>p. \<not> holds p \<Longrightarrow> f p = []"
  shows "(holds (pc (threads s ! i)) \<or> holds (pc (threads t ! i)) \<longrightarrow>
      held f (threads s) = f (pc (threads s ! i)) \<and> held f (threads t) = f (pc (threads t ! i)))
    \<and> (\<not> holds (pc (threads s ! i)) \<longrightarrow> \<not> holds (pc (threads t ! i)) \<longrightarrow>
      held f (threads t) = held f (threads s))"
  using ex
proof (rule run_mover)
  fix q p nt
  assume i: "i < length (threads s)"
    and adv: "advance M i (now s) (shared s) (pc (threads s ! i)) = Some (q, p, nt)"
    and t: "shared t = q" "threads t ! i = (threads s ! i)\<lparr>pc := p\<rparr>"
    and others: "\<And>j. j < length (threads s) \<Longrightarrow> j \<noteq> i \<Longrightarrow> threads t ! j = threads s ! j \<or>
      (dozing M (pc (threads s ! j)) \<noteq> None
        \<and> threads t ! j = (threads s ! j)\<lparr>pc := rouse M (pc (threads s ! j))\<rparr>)"
  have len: "length (threads t) = length (threads s)" using ex by (rule exec_length)
  have own': "all_threads (owns lk holds) t" using exec_guarded [OF ex] own by simp
  have lock: "holds (pc (threads s ! i)) \<longleftrightarrow> lk (shared s) = Some i"
    using own i by (simp add: all_threads_def owns_def)
  show ?thesis
  proof (intro conjI impI)
    assume "holds (pc (threads s ! i)) \<or> holds (pc (threads t ! i))"
    then have *: "lk (shared s) = Some i \<or> lk (shared s) = None" "lk (shared t) = Some i \<or> lk (shared t) = None"
      using lock_step [OF adv lock] lock t by auto
    show "held f (threads s) = f (pc (threads s ! i))" using own i *(1) free by (rule held_at)
    show "held f (threads t) = f (pc (threads t ! i))"
      using held_at [OF own' _ *(2), of f] i len free by simp
  next
    assume out: "\<not> holds (pc (threads s ! i))" "\<not> holds (pc (threads t ! i))"
    show "held f (threads t) = held f (threads s)"
    proof (rule held_same [OF len])
      fix j assume "j < length (threads s)"
      with others [of j] out free show "f (pc (threads t ! j)) = f (pc (threads s ! j))"
        using doze_unlocked [of "pc (threads s ! j)"] by (cases "j = i") auto
    qed
  qed
qed

text \<open>The owner is one of the threads.\<close>

lemma exec_owner_range:
  assumes "exec M l s = Some t" and own: "all_threads (owns lk holds) s"
    and range: "\<And>j. lk (shared s) = Some j \<Longrightarrow> j < length (threads s)" and "lk (shared t) = Some j"
  shows "j < length (threads t)"
  using assms(1)
proof (cases rule: exec_cases)
  case (Run i ks q p nt us)
  have "holds (pc (threads s ! i)) \<longleftrightarrow> lk (shared s) = Some i"
    using all_threadsD [OF own Run(2)] by (simp add: owns_def)
  from lock_step [OF Run(3) this] have "lk (shared t) = lk (shared s) \<or> lk (shared t) = Some i \<or> lk (shared t) = None"
    using Run(5) by auto
  with Run(2) range assms(4) exec_length [OF assms(1)] show ?thesis by auto
qed (use range assms(4) in auto)

end

section \<open>A waiter counter\<close>

text \<open>
  A counter modulo \<open>m\<close> that is bumped when a thread enters a section of program counters
  and dropped when it leaves. With fewer than \<open>m\<close> threads it never wraps and is exactly the
  number of threads inside.
\<close>

definition inside :: "('pc \<Rightarrow> bool) \<Rightarrow> ('op, 'pc) thread list \<Rightarrow> nat" where
  "inside sec ts = weight (\<lambda>p. of_bool (sec p)) ts"

lemma inside_le: "inside sec ts \<le> length ts"
  unfolding inside_def weight_def by (rule tally_le_length) simp

locale counter =
  fixes M :: "('op, 'q, 'pc, 'cv) machine" and m :: nat and cnt :: "'q \<Rightarrow> nat" and sec :: "'pc \<Rightarrow> bool"
  assumes entry_out: "\<not> sec (entry M op)"
    and rest_out: "resting M p \<Longrightarrow> \<not> sec p"
    and rouse_sec: "dozing M p \<noteq> None \<Longrightarrow> sec (rouse M p) = sec p"
    and count_step: "advance M i t q p = Some (q', p', nt) \<Longrightarrow>
      (sec p' = sec p \<and> cnt q' = cnt q) \<or> (\<not> sec p \<and> sec p' \<and> cnt q' = wrap_add m (cnt q) 1)
        \<or> (sec p \<and> \<not> sec p' \<and> cnt q' = wrap_sub m (cnt q) 1)"
begin

lemma exec_counter:
  assumes "exec M l s = Some t" and small: "length (threads s) < m"
    and cnt: "cnt (shared s) = inside sec (threads s)"
  shows "length (threads t) = length (threads s) \<and> cnt (shared t) = inside sec (threads t)"
  using assms(1)
proof (cases rule: exec_cases)
  case (Call i op)
  then show ?thesis
    using cnt by (auto simp: inside_def entry_out rest_out intro: weight_update_same [symmetric])
next
  case (Run i ks q p nt us)
  let ?o = "pc (threads s ! i)" and ?f = "\<lambda>p. of_bool (sec p) :: nat"
  let ?mid = "(threads s)[i := (threads s ! i)\<lparr>pc := p\<rparr>]"
  have len: "length us = length (threads s)" using deliver_length [OF Run(4)] by simp
  have us: "weight ?f us = weight ?f ?mid"
    using Run(4) by (rule weight_deliver_same) (simp add: rouse_sec)
  have upd: "weight ?f ?mid + ?f ?o = weight ?f (threads s) + ?f p"
    using weight_update [OF Run(2), of ?f "(threads s ! i)\<lparr>pc := p\<rparr>"] by simp
  have low: "?f ?o \<le> weight ?f (threads s)" using Run(2) by (rule weight_member)
  have bound: "weight ?f us < m" using inside_le [of sec us] len small by (simp add: inside_def)
  have bound0: "weight ?f (threads s) < m" using inside_le [of sec "threads s"] small by (simp add: inside_def)
  have "cnt q = weight ?f us"
    using count_step [OF Run(3)] us upd low bound bound0 cnt
    by (auto simp: inside_def wrap_add_exact wrap_sub_exact)
  with Run(5) len show ?thesis by (simp add: inside_def)
next
  case (Spurious i)
  then show ?thesis
    using cnt by (auto simp: inside_def rouse_sec intro!: weight_update_same [symmetric])
qed (use cnt in simp)

lemma run_counter:
  assumes "run M ls s = Some t" and "length (threads s) < m"
    and "cnt (shared s) = inside sec (threads s)"
  shows "cnt (shared t) = inside sec (threads t)"
proof -
  have "length (threads t) < m \<and> cnt (shared t) = inside sec (threads t)"
    by (rule run_invariant [OF _ assms(1)]) (use exec_counter assms in fastforce)+
  then show ?thesis ..
qed

end

section \<open>A ledger\<close>

text \<open>
  Something the shared state counts (\<open>assets\<close>) is accounted for: by the shared state itself
  (\<open>listed\<close>) and by the threads (\<open>share\<close>). An action keeps the balance, provided the
  state can afford what the thread claims.
\<close>

locale ledger = machine_rules M
  for M :: "('op, 'q, 'pc, 'cv) machine" +
  fixes inv :: "('op, 'q, 'pc) sys \<Rightarrow> bool"
    and assets :: "'q \<Rightarrow> nat" and listed :: "'q \<Rightarrow> nat" and share :: "'pc \<Rightarrow> nat"
  assumes entry_share: "share (entry M op) = 0"
    and rest_share: "resting M p \<Longrightarrow> share p = 0"
    and rouse_share: "dozing M p \<noteq> None \<Longrightarrow> share (rouse M p) = share p"
    and step_share: "\<lbrakk>inv s; i < length (threads s);
      advance M i (now s) (shared s) (pc (threads s ! i)) = Some (q', p', nt);
      listed (shared s) + share (pc (threads s ! i)) \<le> assets (shared s)\<rbrakk> \<Longrightarrow>
      assets q' + listed (shared s) + share (pc (threads s ! i)) = assets (shared s) + listed q' + share p'"
begin

definition balanced :: "('op, 'q, 'pc) sys \<Rightarrow> bool" where
  "balanced s \<longleftrightarrow> assets (shared s) = listed (shared s) + weight share (threads s)"

lemma balanced_share: "balanced s \<Longrightarrow> i < length (threads s) \<Longrightarrow>
    listed (shared s) + share (pc (threads s ! i)) \<le> assets (shared s)"
  using weight_member [of i "threads s" share] by (simp add: balanced_def)

lemma exec_balanced:
  assumes inv: "inv s" and ex: "exec M l s = Some t" and ok: "balanced s"
  shows "balanced t"
  using ex
proof (cases rule: exec_cases)
  case (Call i op)
  then show ?thesis
    using ok by (simp add: balanced_def weight_update_same entry_share rest_share)
next
  case (Run i ks q p nt us)
  let ?mid = "(threads s)[i := (threads s ! i)\<lparr>pc := p\<rparr>]"
  have "weight share us = weight share ?mid"
    using Run(4) by (rule weight_deliver_same) (rule rouse_share)
  moreover have "weight share ?mid + share (pc (threads s ! i)) = weight share (threads s) + share p"
    using weight_update [OF Run(2), of share "(threads s ! i)\<lparr>pc := p\<rparr>"] by simp
  ultimately show ?thesis
    using step_share [OF inv Run(2,3) balanced_share [OF ok Run(2)]] ok Run(5) by (simp add: balanced_def)
next
  case (Spurious i)
  then have "weight share (threads t) = weight share (threads s)"
    by (auto intro!: weight_update_same simp: rouse_share)
  with ok Spurious(4) show ?thesis by (simp add: balanced_def)
qed (use ok in \<open>simp add: balanced_def\<close>)

end

section \<open>Linearizability\<close>

text \<open>
  \<open>decided q p\<close> is the result a call at program counter \<open>p\<close> is committed to, \<open>None\<close> before
  its linearization point. The history of a run lists the calls and the linearization
  points in order; \<open>replay\<close> runs the linearized operations through the sequential
  specification \<open>spec\<close>.
\<close>

datatype ('op, 'r) event = EvCall tid 'op | EvLin tid 'op 'r

definition lin_event :: "('q \<Rightarrow> 'pc \<Rightarrow> 'r option) \<Rightarrow> 'op label \<Rightarrow>
    ('op, 'q, 'pc) sys \<Rightarrow> ('op, 'q, 'pc) sys \<Rightarrow> ('op, 'r) event list" where
  "lin_event dec l s t =
     (case l of
        Call i op \<Rightarrow> [EvCall i op]
      | Run i ks \<Rightarrow>
          (case (dec (shared s) (pc (threads s ! i)), dec (shared t) (pc (threads t ! i)), cur (threads s ! i)) of
             (None, Some r, Some op) \<Rightarrow> [EvLin i op r]
           | _ \<Rightarrow> [])
      | _ \<Rightarrow> [])"

fun history :: "('op, 'q, 'pc, 'cv) machine \<Rightarrow> ('q \<Rightarrow> 'pc \<Rightarrow> 'r option) \<Rightarrow> 'op label list \<Rightarrow>
    ('op, 'q, 'pc) sys \<Rightarrow> ('op, 'r) event list" where
  "history M dec [] s = []"
| "history M dec (l # ls) s =
     (case exec M l s of None \<Rightarrow> [] | Some t \<Rightarrow> lin_event dec l s t @ history M dec ls t)"

fun replay :: "('op \<Rightarrow> 'r \<Rightarrow> 'abs \<Rightarrow> 'abs option) \<Rightarrow> ('op, 'r) event list \<Rightarrow> 'abs \<Rightarrow> 'abs option" where
  "replay spec [] a = Some a"
| "replay spec (EvCall i op # es) a = replay spec es a"
| "replay spec (EvLin i op r # es) a = (case spec op r a of None \<Rightarrow> None | Some b \<Rightarrow> replay spec es b)"

text \<open>
  The events of one thread must alternate: a call, then at most one linearization of that
  same operation before the next call. \<open>thread_phase\<close> is the automaton that checks it:
  \<open>None\<close> is an ill-formed history, \<open>Some (op, res)\<close> the last call and its linearized result.
\<close>

fun thread_phase :: "tid \<Rightarrow> ('op, 'r) event list \<Rightarrow> 'op option \<times> 'r option \<Rightarrow> ('op option \<times> 'r option) option" where
  "thread_phase i [] ph = Some ph"
| "thread_phase i (EvCall j op # es) ph = thread_phase i es (if j = i then (Some op, None) else ph)"
| "thread_phase i (EvLin j op r # es) ph =
     (if j \<noteq> i then thread_phase i es ph
      else if ph = (Some op, None) then thread_phase i es (Some op, Some r) else None)"

lemma replay_append:
  "replay spec (es @ fs) a = (case replay spec es a of None \<Rightarrow> None | Some b \<Rightarrow> replay spec fs b)"
  by (induction spec es a rule: replay.induct) (auto split: option.splits)

lemma thread_phase_append:
  "thread_phase i (es @ fs) ph = (case thread_phase i es ph of None \<Rightarrow> None | Some ph' \<Rightarrow> thread_phase i fs ph')"
  by (induction i es ph rule: thread_phase.induct) auto

lemma thread_phase_result:
  "thread_phase i es ph = Some (x, Some r) \<Longrightarrow> snd ph = Some r \<or> (\<exists>op. EvLin i op r \<in> set es)"
proof (induction i es ph rule: thread_phase.induct)
  case (3 i j op r' es ph)
  then show ?case by (cases "j = i") (auto split: if_splits)
qed (auto split: if_splits)

locale linearizable =
  fixes M :: "('op, 'q, 'pc, 'cv) machine"
    and inv :: "('op, 'q, 'pc) sys \<Rightarrow> bool"
    and dec :: "'q \<Rightarrow> 'pc \<Rightarrow> 'r option"
    and absf :: "('op, 'q, 'pc) sys \<Rightarrow> 'abs"
    and spec :: "'op \<Rightarrow> 'r \<Rightarrow> 'abs \<Rightarrow> 'abs option"
  assumes inv_exec: "inv s \<Longrightarrow> exec M l s = Some t \<Longrightarrow> inv t"
    and call_undecided: "dec q (entry M op) = None"
    and call_abs: "inv s \<Longrightarrow> exec M (Call i op) s = Some t \<Longrightarrow> absf t = absf s"
    and quiet_abs: "inv s \<Longrightarrow> exec M (Spurious i) s = Some t \<Longrightarrow> absf t = absf s"
    and tick_abs: "inv s \<Longrightarrow> absf (s\<lparr>now := n\<rparr>) = absf s"
    and rouse_undecided: "dozing M p \<noteq> None \<Longrightarrow> dec q (rouse M p) = dec q p"
    and step_self: "\<lbrakk>inv s; exec M (Run i ks) s = Some t\<rbrakk> \<Longrightarrow>
      (case dec (shared s) (pc (threads s ! i)) of
         Some r \<Rightarrow> dec (shared t) (pc (threads t ! i)) = Some r \<and> absf t = absf s
       | None \<Rightarrow>
           (case dec (shared t) (pc (threads t ! i)) of
              None \<Rightarrow> absf t = absf s
            | Some r \<Rightarrow> \<exists>op. cur (threads s ! i) = Some op \<and> spec op r (absf s) = Some (absf t)))"
    and step_others: "\<lbrakk>inv s; exec M (Run i ks) s = Some t; j < length (threads s); j \<noteq> i\<rbrakk> \<Longrightarrow>
      dec (shared t) (pc (threads s ! j)) = dec (shared s) (pc (threads s ! j))"
begin

lemma exec_others:
  assumes "inv s" and "exec M (Run i ks) s = Some t" and "j < length (threads s)" and "j \<noteq> i"
  shows "dec (shared t) (pc (threads t ! j)) = dec (shared s) (pc (threads s ! j))
    \<and> cur (threads t ! j) = cur (threads s ! j)"
  using assms(2)
proof (cases rule: exec_cases)
  case (Run i' ks' q p nt us)
  then have "us ! j = threads s ! j \<or> (dozing M (pc (threads s ! j)) \<noteq> None
      \<and> us ! j = (threads s ! j)\<lparr>pc := rouse M (pc (threads s ! j))\<rparr>)"
    using deliver_nth [OF Run(4), of j] assms(3,4) by auto
  then show ?thesis
    using step_others [OF assms] Run(5) rouse_undecided by auto
qed simp_all

lemma replay_exec:
  assumes "inv s" and "exec M l s = Some t"
  shows "replay spec (lin_event dec l s t) (absf s) = Some (absf t)"
proof (cases l)
  case (Run i ks)
  with step_self [OF assms(1), of i ks t] assms(2) show ?thesis
    by (auto simp: lin_event_def split: option.splits)
qed (use assms call_abs quiet_abs tick_abs in \<open>auto simp: lin_event_def\<close>)

lemma replay_run:
  assumes "inv s" and "run M ls s = Some t"
  shows "replay spec (history M dec ls s) (absf s) = Some (absf t)"
  using assms
proof (induction ls arbitrary: s)
  case (Cons l ls)
  then obtain u where u: "exec M l s = Some u" "run M ls u = Some t"
    by (auto split: option.splits)
  with Cons.IH [of u] inv_exec [OF Cons.prems(1) u(1)] replay_exec [OF Cons.prems(1) u(1)]
  show ?case by (simp add: replay_append)
qed simp

lemma phase_exec:
  assumes "inv s" and "exec M l s = Some t" and i: "i < length (threads s)"
  shows "thread_phase i (lin_event dec l s t) (cur (threads s ! i), dec (shared s) (pc (threads s ! i)))
    = Some (cur (threads t ! i), dec (shared t) (pc (threads t ! i)))"
proof (cases l)
  case (Run j ks)
  show ?thesis
  proof (cases "j = i")
    case True
    have "cur (threads t ! i) = cur (threads s ! i)"
      using assms(2) unfolding Run True
    proof (cases rule: exec_cases)
      case (Run i' ks' q p nt us)
      then show ?thesis using deliver_nth [OF Run(4), of i] i by auto
    qed simp_all
    with step_self [OF assms(1), of i ks t] assms(2) Run True show ?thesis
      by (auto simp: lin_event_def split: option.splits)
  next
    case False
    with exec_others [OF assms(1), of j ks t i] assms(2) Run i show ?thesis
      by (auto simp: lin_event_def split: option.splits)
  qed
qed (use assms in \<open>auto simp: lin_event_def nth_list_update call_undecided rouse_undecided split: if_splits\<close>)

lemma phase_run:
  assumes "inv s" and "run M ls s = Some t" and "i < length (threads s)"
  shows "thread_phase i (history M dec ls s) (cur (threads s ! i), dec (shared s) (pc (threads s ! i)))
    = Some (cur (threads t ! i), dec (shared t) (pc (threads t ! i)))"
  using assms
proof (induction ls arbitrary: s)
  case (Cons l ls)
  then obtain u where u: "exec M l s = Some u" "run M ls u = Some t"
    by (auto split: option.splits)
  with Cons.IH [of u] inv_exec [OF Cons.prems(1) u(1)] phase_exec [OF Cons.prems(1) u(1) Cons.prems(3)]
    Cons.prems(3) exec_length [OF u(1)]
  show ?case by (simp add: thread_phase_append)
qed simp

end

section \<open>Wake-ups are not lost\<close>

text \<open>
  \<open>need q\<close> is how many threads asleep on \<open>cv\<close> the shared state could serve now, \<open>token p\<close>
  how many of them a thread at \<open>p\<close> is going to take care of: by notifying, or by being awake
  and re-examining the state itself (then a woken thread brings \<open>gain = 1\<close>). The contract is
  that no action that leaves sleepers makes the need outgrow the tokens; the conclusion that while anyone sleeps,
  the need is covered.
\<close>

definition covered ::
    "('op, 'q, 'pc, 'cv) machine \<Rightarrow> 'cv \<Rightarrow> ('pc \<Rightarrow> nat) \<Rightarrow> ('q \<Rightarrow> nat) \<Rightarrow> ('op, 'q, 'pc) sys \<Rightarrow> bool" where
  "covered M cv token need s \<longleftrightarrow>
     (sleeping M cv (threads s) > 0 \<longrightarrow> need (shared s) \<le> weight token (threads s))"

fun woken_by :: "'cv \<Rightarrow> 'cv notice \<Rightarrow> nat" where
  "woken_by cv (Wake n cv') = (if cv' = cv then n else 0)"
| "woken_by cv nt = 0"

locale wakeups = machine_rules M
  for M :: "('op, 'q, 'pc, 'cv) machine" +
  fixes inv :: "('op, 'q, 'pc) sys \<Rightarrow> bool" and cv :: 'cv and gain :: nat
    and token :: "'pc \<Rightarrow> nat" and need :: "'q \<Rightarrow> nat"
  assumes rest_token: "resting M p \<Longrightarrow> token p = 0"
    and rouse_token: "dozing M p = Some cv \<Longrightarrow> token (rouse M p) = token p + gain"
    and rouse_other: "dozing M p \<noteq> None \<Longrightarrow> dozing M p \<noteq> Some cv \<Longrightarrow> token (rouse M p) = token p"
    and step_need: "\<lbrakk>inv s; i < length (threads s); sleeping M cv (threads s) > 0;
      advance M i (now s) (shared s) (pc (threads s ! i)) = Some (q', p', nt);
      dozing M p' \<noteq> Some cv; nt \<noteq> WakeAll cv; woken_by cv nt < sleeping M cv (threads s);
      need q' \<noteq> 0\<rbrakk> \<Longrightarrow>
      need q' + token (pc (threads s ! i)) \<le> need (shared s) + token p' + gain * woken_by cv nt"
    and doze_need: "\<lbrakk>inv s; i < length (threads s);
      advance M i (now s) (shared s) (pc (threads s ! i)) = Some (q', p', nt); dozing M p' = Some cv\<rbrakk> \<Longrightarrow>
      need q' \<le> weight token ((threads s)[i := (threads s ! i)\<lparr>pc := p'\<rparr>])"
begin

lemma deliver_token:
  assumes "deliver M ks nt ts = Some ts'"
  shows "weight token ts' + gain * sleeping M cv ts' = weight token ts + gain * sleeping M cv ts"
proof -
  let ?g = "\<lambda>p. token p + gain * of_bool (dozing M p = Some cv)"
  have split: "weight ?g us = weight token us + gain * sleeping M cv us" for us :: "('op, 'pc) thread list"
    unfolding weight_def sleeping_def tally_plus by (simp add: tally_def sum_list_const_mult)
  have "weight ?g ts' = weight ?g ts"
    using assms
  proof (rule weight_deliver_same)
    fix p assume p: "dozing M p \<noteq> None"
    show "?g (rouse M p) = ?g p"
    proof (cases "dozing M p = Some cv")
      case True
      then show ?thesis using rouse_token [OF True] rouse_awake [OF p] by simp
    next
      case False
      then show ?thesis using rouse_other [OF p False] rouse_awake [OF p] by simp
    qed
  qed
  then show ?thesis by (simp add: split)
qed

lemma sleeping_update:
  "i < length ts \<Longrightarrow> sleeping M cv (ts[i := th]) + of_bool (dozing M (pc (ts ! i)) = Some cv)
    = sleeping M cv ts + of_bool (dozing M (pc th) = Some cv)"
  unfolding sleeping_def by (rule weight_update)

lemma exec_covered:
  assumes inv: "inv s" and "exec M l s = Some t" and cov: "covered M cv token need s"
  shows "covered M cv token need t"
  using assms(2)
proof (cases rule: exec_cases)
  case (Call i op)
  have "dozing M (pc (threads s ! i)) = None" using Call(3) by (rule rest_awake)
  with weight_update [OF Call(2), of token] sleeping_update [OF Call(2)] rest_token [OF Call(3)] entry_awake
    cov Call(4) show ?thesis
    by (auto simp: covered_def)
next
  case (Run i ks q p nt us)
  let ?o = "pc (threads s ! i)" and ?mid = "(threads s)[i := (threads s ! i)\<lparr>pc := p\<rparr>]"
  let ?th = "(threads s ! i)\<lparr>pc := p\<rparr>"
  have awake: "dozing M ?o = None" using Run(3) by (rule step_was_awake)
  have W: "weight token ?mid + token ?o = weight token (threads s) + token p"
    using weight_update [OF Run(2), of token ?th] by simp
  have S: "sleeping M cv ?mid = sleeping M cv (threads s) + of_bool (dozing M p = Some cv)"
    using sleeping_update [OF Run(2), of ?th] awake by simp
  have del: "weight token us + gain * sleeping M cv us = weight token ?mid + gain * sleeping M cv ?mid"
    using Run(4) by (rule deliver_token)
  have "need q \<le> weight token us" if pos: "sleeping M cv us > 0"
  proof (cases "dozing M p = Some cv")
    case True
    then have "nt = Quiet" using doze_quiet [OF Run(3)] by simp
    with Run(4) doze_need [OF inv Run(2,3) True] show ?thesis by simp
  next
    case False
    have all: "nt \<noteq> WakeAll cv" using pos Run(4) sleeping_wake_all by fastforce
    have us: "sleeping M cv us = sleeping M cv ?mid - woken_by cv nt"
    proof (cases "target nt = Some cv")
      case True
      with all obtain n where "nt = Wake n cv" by (cases nt) auto
      with Run(4) show ?thesis by (simp only: woken_by.simps) (simp add: sleeping_wake)
    next
      case other: False
      then have "woken_by cv nt = 0" by (cases nt) auto
      with sleeping_other [OF Run(4) other] show ?thesis by simp
    qed
    have s0: "sleeping M cv (threads s) > 0" "woken_by cv nt < sleeping M cv (threads s)"
      using us pos S False by simp_all
    show ?thesis
    proof (cases "need q = 0")
      case False2: False
      have "need q + token ?o \<le> need (shared s) + token p + gain * woken_by cv nt"
        using step_need [OF inv Run(2) s0(1) Run(3) False all s0(2) False2] .
      moreover have "need (shared s) \<le> weight token (threads s)" using cov s0(1) by (simp add: covered_def)
      moreover have "weight token us = weight token ?mid + gain * woken_by cv nt"
      proof -
        have "sleeping M cv ?mid = sleeping M cv us + woken_by cv nt" using us pos by simp
        with del show ?thesis by (simp add: distrib_left)
      qed
      ultimately show ?thesis using W by linarith
    qed simp
  qed
  with Run(5) show ?thesis by (simp add: covered_def)
next
  case (Spurious i)
  let ?o = "pc (threads s ! i)" and ?th = "(threads s ! i)\<lparr>pc := rouse M (pc (threads s ! i))\<rparr>"
  have "token ?o \<le> token (rouse M ?o)"
    using rouse_token [of ?o] rouse_other [OF Spurious(3)] by (cases "dozing M ?o = Some cv") auto
  with weight_update [OF Spurious(2), of token ?th] sleeping_update [OF Spurious(2), of ?th]
    rouse_awake [OF Spurious(3)] cov Spurious(4) show ?thesis
    by (auto simp: covered_def)
qed (use cov in \<open>simp add: covered_def\<close>)

end

section \<open>Between the test and the sleep\<close>

text \<open>
  A thread that holds a lock and has read that there is nothing for it (\<open>stale\<close>) will sleep on
  that reading. When the state moves on (\<open>need\<close> grows) meanwhile, whoever moved it still has to
  pass the same lock (\<open>pre\<close>, for how much of the need) before it notifies, so the sleeper is
  asleep by then.
\<close>

definition unmissed ::
    "('pc \<Rightarrow> bool) \<Rightarrow> ('pc \<Rightarrow> nat) \<Rightarrow> ('q \<Rightarrow> nat) \<Rightarrow> ('op, 'q, 'pc) sys \<Rightarrow> bool" where
  "unmissed stale pre need s \<longleftrightarrow>
     (inside stale (threads s) > 0 \<longrightarrow> need (shared s) \<le> weight pre (threads s))"

lemma inside_pos: "0 < inside sec ts \<longleftrightarrow> (\<exists>i < length ts. sec (pc (ts ! i)))"
  by (simp add: inside_def weight_pos_iff)

locale presleep = mutex M lk holds
  for M :: "('op, 'q, 'pc, 'cv) machine" and lk :: "'q \<Rightarrow> tid option" and holds :: "'pc \<Rightarrow> bool" +
  fixes inv :: "('op, 'q, 'pc) sys \<Rightarrow> bool"
    and stale :: "'pc \<Rightarrow> bool" and pre :: "'pc \<Rightarrow> nat" and need :: "'q \<Rightarrow> nat"
  assumes inv_owns: "inv s \<Longrightarrow> all_threads (owns lk holds) s"
    and stale_holds: "stale p \<Longrightarrow> holds p \<and> pre p = 0"
    and entry_pre: "pre (entry M op) = 0"
    and rest_pre: "resting M p \<Longrightarrow> pre p = 0"
    and rouse_pre: "dozing M p \<noteq> None \<Longrightarrow> pre (rouse M p) = pre p"
    and stale_from: "\<lbrakk>inv s; i < length (threads s);
      advance M i (now s) (shared s) (pc (threads s ! i)) = Some (q', p', nt); need q' \<noteq> 0; stale p'\<rbrakk> \<Longrightarrow>
      stale (pc (threads s ! i))"
    and stale_step: "\<lbrakk>inv s; i < length (threads s); 0 < inside stale (threads s); lk (shared s) \<noteq> None;
      advance M i (now s) (shared s) (pc (threads s ! i)) = Some (q', p', nt); need q' \<noteq> 0\<rbrakk> \<Longrightarrow>
      need q' + pre (pc (threads s ! i)) \<le> need (shared s) + pre p'"
begin

lemma stale_out [simp]: "\<not> stale (entry M op)" "resting M p \<Longrightarrow> \<not> stale p"
  "dozing M p \<noteq> None \<Longrightarrow> \<not> stale p \<and> \<not> stale (rouse M p)"
  using stale_holds entry_unlocked rest_unlocked doze_unlocked by blast+

lemma stale_locked: "inv s \<Longrightarrow> 0 < inside stale (threads s) \<Longrightarrow> lk (shared s) \<noteq> None"
  using inv_owns stale_holds by (fastforce simp: inside_pos all_threads_def owns_def)

lemma exec_unmissed:
  assumes inv: "inv s" and ex: "exec M l s = Some t" and ok: "unmissed stale pre need s"
  shows "unmissed stale pre need t"
  using ex
proof (cases rule: exec_cases)
  case (Call i op)
  then have "inside stale (threads t) = inside stale (threads s)"
    and "weight pre (threads t) = weight pre (threads s)"
    unfolding inside_def by (simp_all add: weight_update_same entry_pre rest_pre)
  with ok Call(4) show ?thesis by (simp add: unmissed_def)
next
  case (Run i ks q p nt us)
  let ?o = "pc (threads s ! i)" and ?mid = "(threads s)[i := (threads s ! i)\<lparr>pc := p\<rparr>]"
  have st: "inside stale us = inside stale ?mid"
    unfolding inside_def using Run(4) by (rule weight_deliver_same) simp
  have pr: "weight pre us = weight pre ?mid"
    using Run(4) by (rule weight_deliver_same) (rule rouse_pre)
  have upd: "inside stale ?mid + of_bool (stale ?o) = inside stale (threads s) + of_bool (stale p)"
    "weight pre ?mid + pre ?o = weight pre (threads s) + pre p"
    using weight_update [OF Run(2), of "\<lambda>p. of_bool (stale p)" "(threads s ! i)\<lparr>pc := p\<rparr>"]
      weight_update [OF Run(2), of pre "(threads s ! i)\<lparr>pc := p\<rparr>"]
    by (simp_all add: inside_def)
  have "need q \<le> weight pre us" if need: "need q \<noteq> 0" and pos: "inside stale us > 0"
  proof -
    have pos': "inside stale (threads s) > 0"
      using pos st upd(1) stale_from [OF inv Run(2,3) need] by (cases "stale p") auto
    with stale_step [OF inv Run(2) pos' stale_locked [OF inv pos'] Run(3) need] ok pr upd(2)
    show ?thesis by (simp add: unmissed_def)
  qed
  with Run(5) show ?thesis by (cases "need q = 0") (simp_all add: unmissed_def)
next
  case (Spurious i)
  then have "inside stale (threads t) = inside stale (threads s)"
    and "weight pre (threads t) = weight pre (threads s)"
    unfolding inside_def by (auto intro!: weight_update_same simp: rouse_pre)
  with ok Spurious(4) show ?thesis by (simp add: unmissed_def)
qed (use ok in \<open>simp add: unmissed_def\<close>)

lemma doze_ready:
  assumes ok: "unmissed stale pre need s" and i: "i < length (threads s)"
    and stale: "stale (pc (threads s ! i))" and tok: "\<And>p. pre p \<le> tok p"
  shows "need (shared s) \<le> weight tok ((threads s)[i := (threads s ! i)\<lparr>pc := p\<rparr>])"
proof -
  let ?mid = "(threads s)[i := (threads s ! i)\<lparr>pc := p\<rparr>]"
  have "need (shared s) \<le> weight pre (threads s)" using ok i stale by (auto simp: unmissed_def inside_pos)
  also have "\<dots> \<le> weight pre ?mid"
    using weight_update [OF i, of pre "(threads s ! i)\<lparr>pc := p\<rparr>"] stale_holds [OF stale] by simp
  also have "\<dots> \<le> weight tok ?mid" using tok by (rule weight_mono)
  finally show ?thesis .
qed

end

section \<open>Calls are bounded\<close>

text \<open>
  A rank that every action of a thread lowers bounds the actions of a call: at most the rank
  of its entry, and at most \<open>top\<close> more for each time the thread is woken from sleep.
\<close>

definition own_steps :: "tid \<Rightarrow> 'op label list \<Rightarrow> nat" where
  "own_steps i ls = tally (\<lambda>l. case l of Run j ks \<Rightarrow> of_bool (j = i) | _ \<Rightarrow> 0) ls"

fun wakes :: "('op, 'q, 'pc, 'cv) machine \<Rightarrow> tid \<Rightarrow> 'op label list \<Rightarrow> ('op, 'q, 'pc) sys \<Rightarrow> nat" where
  "wakes M i [] s = 0"
| "wakes M i (l # ls) s =
     (case exec M l s of
        None \<Rightarrow> 0
      | Some t \<Rightarrow>
          of_bool (dozing M (pc (threads s ! i)) \<noteq> None \<and> dozing M (pc (threads t ! i)) = None)
            + wakes M i ls t)"

definition calls :: "tid \<Rightarrow> 'op label \<Rightarrow> bool" where
  "calls i l \<longleftrightarrow> (case l of Call j op \<Rightarrow> j = i | _ \<Rightarrow> False)"

locale ranked = machine_rules M
  for M :: "('op, 'q, 'pc, 'cv) machine" +
  fixes inv :: "('op, 'q, 'pc) sys \<Rightarrow> bool" and rank :: "'pc \<Rightarrow> nat" and top :: nat
  assumes inv_exec: "inv s \<Longrightarrow> exec M l s = Some t \<Longrightarrow> inv t"
    and step_rank: "\<lbrakk>inv s; i < length (threads s);
      advance M i (now s) (shared s) (pc (threads s ! i)) = Some (q', p', nt)\<rbrakk> \<Longrightarrow>
      rank p' < rank (pc (threads s ! i))"
    and rouse_rank: "dozing M p \<noteq> None \<Longrightarrow> rank (rouse M p) \<le> top"
begin

lemma exec_ranked:
  assumes "exec M l s = Some t" and inv: "inv s" and i: "i < length (threads s)" and "\<not> calls i l"
  shows "own_steps i [l] + rank (pc (threads t ! i)) \<le> rank (pc (threads s ! i))
    + top * of_bool (dozing M (pc (threads s ! i)) \<noteq> None \<and> dozing M (pc (threads t ! i)) = None)"
proof (cases l)
  case (Run j ks)
  show ?thesis
    using assms(1) unfolding Run
  proof (rule run_mover)
    fix q p nt
    assume j: "j < length (threads s)"
      and adv: "advance M j (now s) (shared s) (pc (threads s ! j)) = Some (q, p, nt)"
      and me: "threads t ! j = (threads s ! j)\<lparr>pc := p\<rparr>"
      and others: "\<And>k. k < length (threads s) \<Longrightarrow> k \<noteq> j \<Longrightarrow> threads t ! k = threads s ! k \<or>
        (dozing M (pc (threads s ! k)) \<noteq> None
          \<and> threads t ! k = (threads s ! k)\<lparr>pc := rouse M (pc (threads s ! k))\<rparr>)"
    show "own_steps i [Run j ks] + rank (pc (threads t ! i)) \<le> rank (pc (threads s ! i))
      + top * of_bool (dozing M (pc (threads s ! i)) \<noteq> None \<and> dozing M (pc (threads t ! i)) = None)"
    proof (cases "j = i")
      case True
      with me step_rank [OF inv j adv] show ?thesis by (simp add: own_steps_def)
    next
      case False
      with others [OF i] rouse_rank [of "pc (threads s ! i)"] rouse_awake [of "pc (threads s ! i)"]
      show ?thesis by (auto simp: own_steps_def)
    qed
  qed
next
  case (Spurious j)
  with assms rouse_rank [of "pc (threads s ! i)"] rouse_awake [of "pc (threads s ! i)"]
  show ?thesis by (cases "j = i") (auto simp: own_steps_def split: if_splits)
qed (use assms in \<open>auto simp: own_steps_def calls_def nth_list_update split: if_splits\<close>)

lemma run_ranked:
  assumes "run M ls s = Some t" and "inv s" and "i < length (threads s)" and "\<forall>l \<in> set ls. \<not> calls i l"
  shows "own_steps i ls + rank (pc (threads t ! i)) \<le> rank (pc (threads s ! i)) + top * wakes M i ls s"
  using assms
proof (induction ls arbitrary: s)
  case (Cons l ls)
  then obtain u where u: "exec M l s = Some u" "run M ls u = Some t"
    by (auto split: option.splits)
  have "own_steps i (l # ls) = own_steps i [l] + own_steps i ls" by (simp add: own_steps_def)
  with Cons.IH [OF u(2)] exec_ranked [OF u(1) Cons.prems(2,3)] exec_length [OF u(1)] Cons.prems(3,4) u(1)
    inv_exec [OF Cons.prems(2) u(1)]
  show ?case by (simp add: distrib_left)
qed (simp add: own_steps_def)

end

end
