(* ===== verification/HioCore.thy ===== *)
theory HioCore
  imports Prelude
begin

text \<open>
  The crate \<open>hio-core\<close> (\<open>crates/hio-core/src/lib.rs\<close>): the error enumeration with its C
  discriminants and the thread-local last error. \<open>ScopedTimer\<close> only prints and is not
  modelled.
\<close>

datatype HioLastError =
    Success | Failed
  | InvalidParam | InvalidState | InvalidOperation | ResourceUnavailable | Timeout | WouldBlock
  | MutexPoisoned

fun error_code :: "HioLastError \<Rightarrow> nat" where
  "error_code Success = 0"
| "error_code Failed = 1"
| "error_code InvalidParam = 1000"
| "error_code InvalidState = 1001"
| "error_code InvalidOperation = 1002"
| "error_code ResourceUnavailable = 1003"
| "error_code Timeout = 1004"
| "error_code WouldBlock = 1005"
| "error_code MutexPoisoned = 1006"

lemma error_code_inject [simp]: "error_code a = error_code b \<longleftrightarrow> a = b"
  by (cases a; cases b; simp)

text \<open>The errors in the order of their C codes.\<close>

instantiation HioLastError :: linorder
begin

definition less_eq_HioLastError :: "HioLastError \<Rightarrow> HioLastError \<Rightarrow> bool" where
  "less_eq_HioLastError a b \<longleftrightarrow> error_code a \<le> error_code b"

definition less_HioLastError :: "HioLastError \<Rightarrow> HioLastError \<Rightarrow> bool" where
  "less_HioLastError a b \<longleftrightarrow> error_code a < error_code b"

instance
  by standard (auto simp: less_eq_HioLastError_def less_HioLastError_def)

end

text \<open>
  \<open>HIO_LAST_ERROR\<close> is a thread-local cell: one value per thread, \<open>Success\<close> until set.
\<close>

type_synonym last_errors = "tid \<Rightarrow> HioLastError"

definition no_errors :: last_errors where
  "no_errors = (\<lambda>_. Success)"

definition get_last_error :: "tid \<Rightarrow> last_errors \<Rightarrow> HioLastError" where
  "get_last_error i m = m i"

definition set_last_error :: "tid \<Rightarrow> HioLastError \<Rightarrow> last_errors \<Rightarrow> last_errors" where
  "set_last_error i e m = m(i := e)"

lemma get_set_last_error [simp]:
  "get_last_error j (set_last_error i e m) = (if j = i then e else get_last_error j m)"
  by (simp add: get_last_error_def set_last_error_def)

end
