(* ===== verification/Bq.thy ===== *)
theory Bq
  imports Contracts HioCore
begin

text \<open>
  The queue interface (\<open>crates/hio-concurrent/src/bq.rs\<close>): the waiter counter
  \<open>CondWaiters\<close> and its guard, the \<open>Signals\<close> record, \<open>ensure_capacity\<close>, the operations and
  results of the trait \<open>BQ\<close>, and the sequential specification \<open>bq_spec\<close> that the queues
  are linearizable to. \<open>CachePadded\<close> only changes the layout and is transparent here.
\<close>

section \<open>CondWaiters and Signals\<close>

type_synonym cond_waiters = nat

definition waiters_new :: cond_waiters where
  "waiters_new = 0"

definition waiters_enter :: "cond_waiters \<Rightarrow> cond_waiters" where
  "waiters_enter w = wrap_add usize_mod w 1"

definition waiters_leave :: "cond_waiters \<Rightarrow> cond_waiters" where
  \<comment> \<open>\<open>WaiterGuard::drop\<close>\<close>
  "waiters_leave w = wrap_sub usize_mod w 1"

definition waiters_any :: "cond_waiters \<Rightarrow> bool" where
  "waiters_any w \<longleftrightarrow> w > 0"

definition waiters_count :: "cond_waiters \<Rightarrow> nat" where
  "waiters_count w = w"

record Signals =
  signal_not_empty :: bool
  signal_not_full :: bool

section \<open>Queue kinds and capacity\<close>

datatype BQType = Array | Linked | LockFree

fun bq_type_code :: "BQType \<Rightarrow> nat" where
  "bq_type_code Array = 0"
| "bq_type_code Linked = 1"
| "bq_type_code LockFree = 2"

definition ensure_capacity :: "nat \<Rightarrow> nat" where
  "ensure_capacity capacity = (if capacity = 0 then usize_max else capacity)"

lemma ensure_capacity_pos [simp]: "0 < ensure_capacity c"
  by (simp add: ensure_capacity_def usize_max_def usize_mod_def)

text \<open>
  \<open>create_bq\<close> builds the chosen queue with the two constructors it is given; the
  lock-free queue is a \<open>todo!()\<close>, a panic (\<open>None\<close>), as is a constructor that panics.
\<close>

definition create_bq :: "(nat \<Rightarrow> 'a option) \<Rightarrow> (nat \<Rightarrow> 'b option) \<Rightarrow> BQType \<Rightarrow> nat \<Rightarrow> ('a + 'b) option" where
  "create_bq array_new linked_new ty capacity =
     (case ty of
        Array \<Rightarrow> map_option Inl (array_new capacity)
      | Linked \<Rightarrow> map_option Inr (linked_new capacity)
      | LockFree \<Rightarrow> None)"

section \<open>The trait\<close>

text \<open>Durations are in nanoseconds of the clock that \<open>Instant::now\<close> reads.\<close>

datatype 'a bq_op =
    OpPush 'a | OpTryPush 'a | OpPushTimeout 'a nat
  | OpPop | OpTryPop | OpPopTimeout nat
  | OpDrain | OpDispose | OpSize | OpCapacity | OpIsDisposed

datatype 'a bq_res =
    PushRes "(HioLastError \<times> 'a) + unit"
  | PopRes "HioLastError + 'a"
  | DrainRes "'a list"
  | DisposeRes
  | SizeRes nat
  | CapacityRes nat
  | IsDisposedRes bool

text \<open>The two condition variables of a queue.\<close>

datatype cv = NotEmpty | NotFull

section \<open>The sequential specification\<close>

record 'a bq_abs =
  items :: "'a list"
  closed :: bool
  bound :: nat

definition ensure :: "bool \<Rightarrow> 'b \<Rightarrow> 'b option" where
  "ensure b x = (if b then Some x else None)"

lemma ensure_Some [simp]: "ensure b x = Some y \<longleftrightarrow> b \<and> x = y"
  by (simp add: ensure_def)

definition has_room :: "'a bq_abs \<Rightarrow> bool" where
  "has_room A \<longleftrightarrow> length (items A) < bound A"

text \<open>
  \<open>bq_spec op r A\<close> is the queue after \<open>op\<close> returned \<open>r\<close> on the queue \<open>A\<close>, \<open>None\<close> when
  \<open>op\<close> may not return \<open>r\<close> there. A push succeeds only on an open queue with room and appends; a
  disposed queue refuses pushes and gives back the item, but is still popped until it is
  empty. A timed call may expire only while its wait condition holds.
\<close>

definition push_spec :: "'a \<Rightarrow> (HioLastError \<Rightarrow> bool) \<Rightarrow> 'a bq_res \<Rightarrow> 'a bq_abs \<Rightarrow> 'a bq_abs option" where
  "push_spec x refusal r A =
     (case r of
        PushRes (Inr _) \<Rightarrow> ensure (\<not> closed A \<and> has_room A) (A\<lparr>items := items A @ [x]\<rparr>)
      | PushRes (Inl (e, y)) \<Rightarrow> ensure (y = x \<and> refusal e) A
      | _ \<Rightarrow> None)"

definition pop_spec :: "(HioLastError \<Rightarrow> bool) \<Rightarrow> 'a bq_res \<Rightarrow> 'a bq_abs \<Rightarrow> 'a bq_abs option" where
  "pop_spec refusal r A =
     (case r of
        PopRes (Inr x) \<Rightarrow> (case items A of [] \<Rightarrow> None | y # ys \<Rightarrow> ensure (y = x) (A\<lparr>items := ys\<rparr>))
      | PopRes (Inl e) \<Rightarrow> ensure (items A = [] \<and> refusal e) A
      | _ \<Rightarrow> None)"

fun bq_spec :: "'a bq_op \<Rightarrow> 'a bq_res \<Rightarrow> 'a bq_abs \<Rightarrow> 'a bq_abs option" where
  "bq_spec (OpPush x) r A = push_spec x (\<lambda>e. e = ResourceUnavailable \<and> closed A) r A"
| "bq_spec (OpTryPush x) r A =
     push_spec x (\<lambda>e. e = ResourceUnavailable \<and> closed A
       \<or> e = WouldBlock \<and> \<not> closed A \<and> \<not> has_room A) r A"
| "bq_spec (OpPushTimeout x d) r A =
     push_spec x (\<lambda>e. e = ResourceUnavailable \<and> closed A \<or> e = Timeout \<and> \<not> has_room A) r A"
| "bq_spec OpPop r A = pop_spec (\<lambda>e. e = ResourceUnavailable \<and> closed A) r A"
| "bq_spec OpTryPop r A =
     pop_spec (\<lambda>e. e = ResourceUnavailable \<and> closed A \<or> e = WouldBlock \<and> \<not> closed A) r A"
| "bq_spec (OpPopTimeout d) r A =
     pop_spec (\<lambda>e. e = ResourceUnavailable \<and> closed A \<or> e = Timeout) r A"
| "bq_spec OpDrain r A = (case r of DrainRes xs \<Rightarrow> ensure (xs = items A) (A\<lparr>items := []\<rparr>) | _ \<Rightarrow> None)"
| "bq_spec OpDispose r A = (case r of DisposeRes \<Rightarrow> Some (A\<lparr>closed := True\<rparr>) | _ \<Rightarrow> None)"
| "bq_spec OpSize r A = (case r of SizeRes n \<Rightarrow> ensure (n = length (items A)) A | _ \<Rightarrow> None)"
| "bq_spec OpCapacity r A = (case r of CapacityRes n \<Rightarrow> ensure (n = bound A) A | _ \<Rightarrow> None)"
| "bq_spec OpIsDisposed r A = (case r of IsDisposedRes b \<Rightarrow> ensure (b = closed A) A | _ \<Rightarrow> None)"

text \<open>
  The answers an operation may give at all, whatever the queue holds: its own kind of
  result, its own errors, and a refused push hands its item back.
\<close>

fun bq_answers :: "'a bq_op \<Rightarrow> 'a bq_res \<Rightarrow> bool" where
  "bq_answers (OpPush x) r = (r = PushRes (Inr ()) \<or> r = PushRes (Inl (ResourceUnavailable, x)))"
| "bq_answers (OpTryPush x) r =
     (r = PushRes (Inr ()) \<or> r = PushRes (Inl (ResourceUnavailable, x)) \<or> r = PushRes (Inl (WouldBlock, x)))"
| "bq_answers (OpPushTimeout x d) r =
     (r = PushRes (Inr ()) \<or> r = PushRes (Inl (ResourceUnavailable, x)) \<or> r = PushRes (Inl (Timeout, x)))"
| "bq_answers OpPop r = ((\<exists>x. r = PopRes (Inr x)) \<or> r = PopRes (Inl ResourceUnavailable))"
| "bq_answers OpTryPop r =
     ((\<exists>x. r = PopRes (Inr x)) \<or> r = PopRes (Inl ResourceUnavailable) \<or> r = PopRes (Inl WouldBlock))"
| "bq_answers (OpPopTimeout d) r =
     ((\<exists>x. r = PopRes (Inr x)) \<or> r = PopRes (Inl ResourceUnavailable) \<or> r = PopRes (Inl Timeout))"
| "bq_answers OpDrain r = (\<exists>xs. r = DrainRes xs)"
| "bq_answers OpDispose r = (r = DisposeRes)"
| "bq_answers OpSize r = (\<exists>n. r = SizeRes n)"
| "bq_answers OpCapacity r = (\<exists>n. r = CapacityRes n)"
| "bq_answers OpIsDisposed r = (\<exists>b. r = IsDisposedRes b)"

section \<open>Items through a history\<close>

text \<open>What a history put into the queue and what it took out, in linearization order.\<close>

fun pushed :: "('a bq_op, 'a bq_res) event list \<Rightarrow> 'a list" where
  "pushed [] = []"
| "pushed (EvLin i op r # es) =
     (case (op, r) of
        (OpPush x, PushRes (Inr _)) \<Rightarrow> x # pushed es
      | (OpTryPush x, PushRes (Inr _)) \<Rightarrow> x # pushed es
      | (OpPushTimeout x d, PushRes (Inr _)) \<Rightarrow> x # pushed es
      | _ \<Rightarrow> pushed es)"
| "pushed (EvCall i op # es) = pushed es"

fun taken :: "('a bq_op, 'a bq_res) event list \<Rightarrow> 'a list" where
  "taken [] = []"
| "taken (EvLin i op r # es) =
     (case r of
        PopRes (Inr x) \<Rightarrow> x # taken es
      | DrainRes xs \<Rightarrow> xs @ taken es
      | _ \<Rightarrow> taken es)"
| "taken (EvCall i op # es) = taken es"

lemma pushed_Cons: "pushed (e # es) = pushed [e] @ pushed es"
  by (cases e) (auto split: bq_op.splits bq_res.splits sum.splits)

lemma taken_Cons: "taken (e # es) = taken [e] @ taken es"
  by (cases e) (auto split: bq_res.splits sum.splits)

text \<open>
  The law of every queue specification: what was there and what is pushed is what is taken and
  what is left, in this order, within the bound, and closing is final. Under the law of a
  strict close nothing is pushed once the queue is closed.
\<close>

locale item_spec =
  fixes spec :: "'a bq_op \<Rightarrow> 'a bq_res \<Rightarrow> 'a bq_abs \<Rightarrow> 'a bq_abs option"
  assumes spec_items: "spec op r A = Some B \<Longrightarrow>
    items A @ pushed [EvLin i op r] = taken [EvLin i op r] @ items B \<and> bound B = bound A
      \<and> (closed A \<longrightarrow> closed B) \<and> (length (items A) \<le> bound A \<longrightarrow> length (items B) \<le> bound B)"
begin

lemma replay_items:
  assumes "replay spec es A = Some B"
  shows "items A @ pushed es = taken es @ items B \<and> bound B = bound A
    \<and> (closed A \<longrightarrow> closed B) \<and> (length (items A) \<le> bound A \<longrightarrow> length (items B) \<le> bound B)"
  using assms
proof (induction es arbitrary: A)
  case (Cons e es)
  show ?case
  proof (cases e)
    case (EvCall i op)
    with Cons.prems Cons.IH [of A] show ?thesis by auto
  next
    case (EvLin i op r)
    with Cons.prems obtain C where C: "spec op r A = Some C" "replay spec es C = Some B"
      by (auto split: option.splits)
    from spec_items [OF C(1), of i] Cons.IH [OF C(2)] EvLin show ?thesis
      unfolding pushed_Cons [of e es] taken_Cons [of e es] by (metis append.assoc)
  qed
qed simp

end

locale strict_spec = item_spec +
  assumes spec_closed: "spec op r A = Some B \<Longrightarrow> closed A \<Longrightarrow> pushed [EvLin i op r] = []"
begin

lemma replay_closed:
  assumes "replay spec es A = Some B" and "closed A"
  shows "pushed es = []"
  using assms
proof (induction es arbitrary: A)
  case (Cons e es)
  show ?case
  proof (cases e)
    case (EvCall i op)
    with Cons.prems Cons.IH [of A] show ?thesis by auto
  next
    case (EvLin i op r)
    with Cons.prems obtain C where C: "spec op r A = Some C" "replay spec es C = Some B"
      by (auto split: option.splits)
    then have "closed C" using spec_items Cons.prems(2) by blast
    with Cons.IH [OF C(2)] spec_closed [OF C(1) Cons.prems(2)] EvLin show ?thesis
      unfolding pushed_Cons [of e es] by simp
  qed
qed simp

end

interpretation bq: strict_spec bq_spec
proof
  fix op :: "'a bq_op" and r A B i
  assume spec: "bq_spec op r A = Some B"
  then show "items A @ pushed [EvLin i op r] = taken [EvLin i op r] @ items B \<and> bound B = bound A
      \<and> (closed A \<longrightarrow> closed B) \<and> (length (items A) \<le> bound A \<longrightarrow> length (items B) \<le> bound B)"
    by (cases op; cases r)
      (auto simp: push_spec_def pop_spec_def has_room_def split: sum.splits prod.splits list.splits)
  show "closed A \<Longrightarrow> pushed [EvLin i op r] = []"
    using spec by (cases op; cases r) (auto simp: push_spec_def pop_spec_def split: sum.splits prod.splits)
qed

end
