(* ===== verification/Waits.thy ===== *)
theory Waits
  imports Bq
begin

text \<open>
  What the methods that wait on a condition variable have in common: the points of
  \<open>if cond { guard = cv.wait_while(guard, cond); } ...\<close> and of its timed form, in both queues,
  written out as in the standard library: test the predicate, (timed) compare the elapsed
  time, release the mutex and sleep in one action, re-acquire when woken; and the functions
  of such a point that the invariants use.
\<close>

section \<open>Points\<close>

text \<open>
  Entry (about to lock), the two tests of the first \<open>if\<close>, the wait loop (the two halves of the
  predicate, the clock, about to sleep, asleep, woken), dropping the waiter guard with
  the \<open>timed_out\<close> flag, and the code after the wait. \<open>After2\<close> is a second test there.
\<close>

datatype wait_point =
    Enter | Check1 | Check2
  | WaitDisposed | WaitCond | WaitClock | Doze | Asleep | Woken
  | Leave bool | After bool | After2

datatype try_point = TryEnter | Try1 | Try2

text \<open>\<open>Timed dur start\<close>: the duration and, inside the wait loop, when it began.\<close>

datatype timing = Untimed | Timed nat nat

section \<open>The lock and the waiter counter\<close>

fun wait_holds :: "wait_point \<Rightarrow> bool" where
  "wait_holds Enter = False"
| "wait_holds Asleep = False"
| "wait_holds Woken = False"
| "wait_holds pt = True"

fun wait_section :: "wait_point \<Rightarrow> bool" where
  "wait_section WaitDisposed = True"
| "wait_section WaitCond = True"
| "wait_section WaitClock = True"
| "wait_section Doze = True"
| "wait_section Asleep = True"
| "wait_section Woken = True"
| "wait_section (Leave b) = True"
| "wait_section pt = False"

section \<open>Timeouts\<close>

text \<open>
  A timed wait began after its call, and it has really run out when its loop says so; a call's
  result is one its operation may give, and one that reports \<open>Timeout\<close> was given a duration
  that has passed since the call.
\<close>

fun wait_clock :: "nat \<Rightarrow> nat \<Rightarrow> wait_point \<Rightarrow> timing \<Rightarrow> bool" where
  "wait_clock c t pt Untimed = (pt \<noteq> Leave True \<and> pt \<noteq> After True)"
| "wait_clock c t pt (Timed d st) =
     ((wait_section pt \<longrightarrow> c \<le> st) \<and> ((pt = Leave True \<or> pt = After True) \<longrightarrow> c \<le> st \<and> d < t - st))"

fun op_limit :: "'a bq_op \<Rightarrow> nat option" where
  "op_limit (OpPushTimeout x d) = Some d"
| "op_limit (OpPopTimeout d) = Some d"
| "op_limit op = None"

fun timed_out_res :: "'a bq_res \<Rightarrow> bool" where
  "timed_out_res (PushRes (Inl (e, x))) = (e = Timeout)"
| "timed_out_res (PopRes (Inl e)) = (e = Timeout)"
| "timed_out_res r = False"

definition expired :: "'a bq_op \<Rightarrow> nat \<Rightarrow> nat \<Rightarrow> 'a bq_res \<Rightarrow> bool" where
  "expired op c t r \<longleftrightarrow> bq_answers op r \<and> (timed_out_res r \<longrightarrow> (\<exists>d. op_limit op = Some d \<and> c + d < t))"

lemma wait_clock_tick: "wait_clock c t pt tm \<Longrightarrow> wait_clock c (t + d) pt tm"
  by (cases tm) auto

lemma expired_tick: "expired op c t r \<Longrightarrow> expired op c (t + d) r"
  by (auto simp: expired_def)

section \<open>Responsibility for a wake-up, and rank\<close>

text \<open>
  The points of a waiting method that lead to a commit or to a renewed test of its predicate.
\<close>

fun wait_token :: "wait_point \<Rightarrow> nat" where
  "wait_token WaitDisposed = 1"
| "wait_token WaitCond = 1"
| "wait_token Woken = 1"
| "wait_token (Leave b) = of_bool (\<not> b)"
| "wait_token (After b) = of_bool (\<not> b)"
| "wait_token pt = 0"

text \<open>
  The points, with the lock held, after which a thread goes to sleep on what it has read: the flag
  \<open>disposed\<close>, or also the predicate on the queue.
\<close>

fun flag_read :: "wait_point \<Rightarrow> bool" where
  "flag_read WaitCond = True"
| "flag_read WaitClock = True"
| "flag_read Doze = True"
| "flag_read pt = False"

fun cond_read :: "wait_point \<Rightarrow> bool" where
  "cond_read WaitClock = True"
| "cond_read Doze = True"
| "cond_read pt = False"

lemma flag_read_holds [simp]: "flag_read pt \<Longrightarrow> wait_holds pt"
  by (cases pt) auto

lemma cond_read_holds [simp]: "cond_read pt \<Longrightarrow> wait_holds pt"
  by (cases pt) auto

fun wait_rank :: "wait_point \<Rightarrow> nat" where
  "wait_rank Enter = 10"
| "wait_rank Check1 = 9"
| "wait_rank Check2 = 8"
| "wait_rank Woken = 7"
| "wait_rank WaitDisposed = 6"
| "wait_rank WaitCond = 5"
| "wait_rank WaitClock = 4"
| "wait_rank Doze = 3"
| "wait_rank (Leave b) = 2"
| "wait_rank (After b) = 1"
| "wait_rank After2 = 0"
| "wait_rank Asleep = 0"

end
