(* ===== verification/ArrayBQ.thy ===== *)
theory ArrayBQ
  imports Waits
begin

text \<open>
  The array queue (\<open>crates/hio-concurrent/src/bq/array_bq.rs\<close>). \<open>abq\<close> is the struct; the
  mutex around the deque is the field \<open>owner\<close> (the thread inside, if any) next to \<open>buf\<close>.
  A call is a walk of one thread through the program points of \<open>abq_pc\<close>; each \<open>_step\<close>
  function is one method of the source, one equation per atomic action. The deque and the
  waiter counters are only touched under the mutex, so an action reads and writes them
  together; the flag \<open>disposed\<close> is not protected by it, so each of its reads is an action
  of its own. \<open>wait_while\<close> and \<open>wait_timeout_while\<close> are written out point by point
  (theory \<open>Waits\<close>).
\<close>

section \<open>State and program points\<close>

record 'a abq =
  capacity :: nat
  disposed :: bool
  push_waiters :: cond_waiters
  pop_waiters :: cond_waiters
  buf :: "'a list"
  owner :: "tid option"

datatype dispose_point = DisposeCas | DisposeLock | DisposeUnlock | DisposeNotEmpty | DisposeNotFull

datatype 'a abq_pc =
    Idle
  | Done "'a bq_res"
  | Panicked
  | PushAt wait_point 'a timing
  | TryPushAt try_point 'a
  | PopAt wait_point timing
  | TryPopAt try_point
  | EnqCommit 'a
  | DeqCommit
  | SignalAt Signals "'a bq_res"
  | DrainAt bool
  | DrainSignal bool "'a list"
  | DisposeAt dispose_point
  | SizeAt bool
  | CapacityAt
  | IsDisposedAt
  | Return "'a bq_res"

definition is_full :: "'a abq \<Rightarrow> bool" where
  "is_full q \<longleftrightarrow> length (buf q) \<ge> capacity q"

text \<open>
  \<open>abq_fresh\<close> is the struct literal of \<open>ArrayBQ::new\<close>; \<open>abq_new\<close> the constructor with its
  failure: \<open>VecDeque::with_capacity\<close> panics when the allocation would exceed
  \<open>isize::MAX\<close> bytes; \<open>size_of_t\<close> is the size of an item.
\<close>

definition abq_fresh :: "nat \<Rightarrow> 'a abq" where
  "abq_fresh cap = \<lparr>capacity = cap, disposed = False, push_waiters = waiters_new,
     pop_waiters = waiters_new, buf = [], owner = None\<rparr>"

definition abq_new :: "nat \<Rightarrow> nat \<Rightarrow> 'a abq option" where
  "abq_new size_of_t capacity0 =
     (let cap = ensure_capacity capacity0
      in if cap \<noteq> usize_max \<and> cap * size_of_t > isize_max then None
         else Some (abq_fresh cap))"

section \<open>Commits and signals\<close>

definition abq_lock :: "tid \<Rightarrow> 'a abq \<Rightarrow> 'b \<Rightarrow> ('a abq \<times> 'b \<times> cv notice) option" where
  "abq_lock i q p = (if owner q = None then Some (q\<lparr>owner := Some i\<rparr>, p, Quiet) else None)"

definition en_q_commit :: "'a \<Rightarrow> 'a abq \<Rightarrow> 'a abq \<times> Signals" where
  "en_q_commit item q =
     (let prev = length (buf q)
      in (q\<lparr>buf := buf q @ [item], owner := None\<rparr>,
          \<lparr>signal_not_empty = (prev = 0 \<and> waiters_any (pop_waiters q)),
           signal_not_full = (prev + 1 < capacity q \<and> waiters_any (push_waiters q))\<rparr>))"

definition de_q_commit :: "'a abq \<Rightarrow> ('a \<times> 'a abq \<times> Signals) option" where
  \<comment> \<open>\<open>None\<close>: the \<open>expect\<close> on an empty deque panics\<close>
  "de_q_commit q =
     (let prev = length (buf q)
      in case buf q of
           [] \<Rightarrow> None
         | item # rest \<Rightarrow>
             Some (item, q\<lparr>buf := rest, owner := None\<rparr>,
               \<lparr>signal_not_empty = (prev > 1 \<and> waiters_any (pop_waiters q)),
                signal_not_full = (prev = capacity q \<and> waiters_any (push_waiters q))\<rparr>))"

fun signal_step :: "'a abq \<Rightarrow> Signals \<Rightarrow> 'a bq_res \<Rightarrow> 'a abq \<times> 'a abq_pc \<times> cv notice" where
  "signal_step q s r =
     (if signal_not_empty s then (q, SignalAt (s\<lparr>signal_not_empty := False\<rparr>) r, Wake 1 NotEmpty)
      else if signal_not_full s then (q, SignalAt (s\<lparr>signal_not_full := False\<rparr>) r, Wake 1 NotFull)
      else (q, Done r, Quiet))"

section \<open>The push methods\<close>

fun push_step :: "tid \<Rightarrow> 'a abq \<Rightarrow> wait_point \<Rightarrow> 'a \<Rightarrow> ('a abq \<times> 'a abq_pc \<times> cv notice) option" where
  "push_step i q Enter x = abq_lock i q (PushAt Check1 x Untimed)"
| "push_step i q Check1 x =
     Some (q, if disposed q then PushAt (After False) x Untimed else PushAt Check2 x Untimed, Quiet)"
| "push_step i q Check2 x =
     (if is_full q
      then Some (q\<lparr>push_waiters := waiters_enter (push_waiters q)\<rparr>, PushAt WaitDisposed x Untimed, Quiet)
      else Some (q, PushAt (After False) x Untimed, Quiet))"
| "push_step i q WaitDisposed x =
     Some (q, if disposed q then PushAt (Leave False) x Untimed else PushAt WaitCond x Untimed, Quiet)"
| "push_step i q WaitCond x =
     (if is_full q then Some (q, PushAt Doze x Untimed, Quiet)
      else Some (q, PushAt (Leave False) x Untimed, Quiet))"
| "push_step i q Doze x = Some (q\<lparr>owner := None\<rparr>, PushAt Asleep x Untimed, Quiet)"
| "push_step i q Woken x = abq_lock i q (PushAt WaitDisposed x Untimed)"
| "push_step i q (Leave b) x =
     Some (q\<lparr>push_waiters := waiters_leave (push_waiters q)\<rparr>, PushAt (After b) x Untimed, Quiet)"
| "push_step i q (After b) x =
     Some (q, if disposed q then Return (PushRes (Inl (ResourceUnavailable, x))) else EnqCommit x, Quiet)"
| "push_step i q pt x = None"

fun push_timeout_step ::
    "tid \<Rightarrow> nat \<Rightarrow> 'a abq \<Rightarrow> wait_point \<Rightarrow> 'a \<Rightarrow> nat \<Rightarrow> nat \<Rightarrow> ('a abq \<times> 'a abq_pc \<times> cv notice) option" where
  "push_timeout_step i t q Enter x d st = abq_lock i q (PushAt Check1 x (Timed d st))"
| "push_timeout_step i t q Check1 x d st =
     Some (q, if disposed q then PushAt (After False) x (Timed d st) else PushAt Check2 x (Timed d st), Quiet)"
| "push_timeout_step i t q Check2 x d st =
     (if is_full q
      then Some (q\<lparr>push_waiters := waiters_enter (push_waiters q)\<rparr>, PushAt WaitDisposed x (Timed d t), Quiet)
      else Some (q, PushAt (After False) x (Timed d st), Quiet))"
| "push_timeout_step i t q WaitDisposed x d st =
     Some (q, if disposed q then PushAt (Leave False) x (Timed d st) else PushAt WaitCond x (Timed d st), Quiet)"
| "push_timeout_step i t q WaitCond x d st =
     Some (q, if is_full q then PushAt WaitClock x (Timed d st) else PushAt (Leave False) x (Timed d st), Quiet)"
| "push_timeout_step i t q WaitClock x d st =
     (if t - st > d then Some (q, PushAt (Leave True) x (Timed d st), Quiet)
      else Some (q, PushAt Doze x (Timed d st), Quiet))"
| "push_timeout_step i t q Doze x d st = Some (q\<lparr>owner := None\<rparr>, PushAt Asleep x (Timed d st), Quiet)"
| "push_timeout_step i t q Woken x d st = abq_lock i q (PushAt WaitDisposed x (Timed d st))"
| "push_timeout_step i t q (Leave b) x d st =
     Some (q\<lparr>push_waiters := waiters_leave (push_waiters q)\<rparr>, PushAt (After b) x (Timed d st), Quiet)"
| "push_timeout_step i t q (After timed_out) x d st =
     Some (q,
       if timed_out then Return (PushRes (Inl (Timeout, x)))
       else if disposed q then Return (PushRes (Inl (ResourceUnavailable, x)))
       else EnqCommit x, Quiet)"
| "push_timeout_step i t q pt x d st = None"

fun try_push_step :: "tid \<Rightarrow> 'a abq \<Rightarrow> try_point \<Rightarrow> 'a \<Rightarrow> ('a abq \<times> 'a abq_pc \<times> cv notice) option" where
  "try_push_step i q TryEnter x = abq_lock i q (TryPushAt Try1 x)"
| "try_push_step i q Try1 x =
     Some (q, if disposed q then Return (PushRes (Inl (ResourceUnavailable, x))) else TryPushAt Try2 x, Quiet)"
| "try_push_step i q Try2 x =
     Some (q, if is_full q then Return (PushRes (Inl (WouldBlock, x))) else EnqCommit x, Quiet)"

section \<open>The pop methods\<close>

text \<open>\<open>After\<close> tests for an empty deque, \<open>After2\<close> is the \<open>debug_assert!\<close> (a panic when it fails).\<close>

fun pop_step :: "tid \<Rightarrow> 'a abq \<Rightarrow> wait_point \<Rightarrow> ('a abq \<times> 'a abq_pc \<times> cv notice) option" where
  "pop_step i q Enter = abq_lock i q (PopAt Check1 Untimed)"
| "pop_step i q Check1 =
     Some (q, if disposed q then PopAt (After False) Untimed else PopAt Check2 Untimed, Quiet)"
| "pop_step i q Check2 =
     (if buf q = []
      then Some (q\<lparr>pop_waiters := waiters_enter (pop_waiters q)\<rparr>, PopAt WaitDisposed Untimed, Quiet)
      else Some (q, PopAt (After False) Untimed, Quiet))"
| "pop_step i q WaitDisposed =
     Some (q, if disposed q then PopAt (Leave False) Untimed else PopAt WaitCond Untimed, Quiet)"
| "pop_step i q WaitCond =
     (if buf q = [] then Some (q, PopAt Doze Untimed, Quiet)
      else Some (q, PopAt (Leave False) Untimed, Quiet))"
| "pop_step i q Doze = Some (q\<lparr>owner := None\<rparr>, PopAt Asleep Untimed, Quiet)"
| "pop_step i q Woken = abq_lock i q (PopAt WaitDisposed Untimed)"
| "pop_step i q (Leave b) =
     Some (q\<lparr>pop_waiters := waiters_leave (pop_waiters q)\<rparr>, PopAt (After b) Untimed, Quiet)"
| "pop_step i q (After b) =
     Some (q, if buf q = [] then PopAt After2 Untimed else DeqCommit, Quiet)"
| "pop_step i q After2 =
     (if disposed q then Some (q, Return (PopRes (Inl ResourceUnavailable)), Quiet)
      else Some (q\<lparr>owner := None\<rparr>, Panicked, Quiet))"
| "pop_step i q pt = None"

text \<open>Here \<open>After\<close> reads the flag and \<open>After2\<close> is the second conjunct, \<open>g.is_empty()\<close>.\<close>

fun pop_timeout_step ::
    "tid \<Rightarrow> nat \<Rightarrow> 'a abq \<Rightarrow> wait_point \<Rightarrow> nat \<Rightarrow> nat \<Rightarrow> ('a abq \<times> 'a abq_pc \<times> cv notice) option" where
  "pop_timeout_step i t q Enter d st = abq_lock i q (PopAt Check1 (Timed d st))"
| "pop_timeout_step i t q Check1 d st =
     Some (q, if disposed q then PopAt (After False) (Timed d st) else PopAt Check2 (Timed d st), Quiet)"
| "pop_timeout_step i t q Check2 d st =
     (if buf q = []
      then Some (q\<lparr>pop_waiters := waiters_enter (pop_waiters q)\<rparr>, PopAt WaitDisposed (Timed d t), Quiet)
      else Some (q, PopAt (After False) (Timed d st), Quiet))"
| "pop_timeout_step i t q WaitDisposed d st =
     Some (q, if disposed q then PopAt (Leave False) (Timed d st) else PopAt WaitCond (Timed d st), Quiet)"
| "pop_timeout_step i t q WaitCond d st =
     Some (q, if buf q = [] then PopAt WaitClock (Timed d st) else PopAt (Leave False) (Timed d st), Quiet)"
| "pop_timeout_step i t q WaitClock d st =
     (if t - st > d then Some (q, PopAt (Leave True) (Timed d st), Quiet)
      else Some (q, PopAt Doze (Timed d st), Quiet))"
| "pop_timeout_step i t q Doze d st = Some (q\<lparr>owner := None\<rparr>, PopAt Asleep (Timed d st), Quiet)"
| "pop_timeout_step i t q Woken d st = abq_lock i q (PopAt WaitDisposed (Timed d st))"
| "pop_timeout_step i t q (Leave b) d st =
     Some (q\<lparr>pop_waiters := waiters_leave (pop_waiters q)\<rparr>, PopAt (After b) (Timed d st), Quiet)"
| "pop_timeout_step i t q (After timed_out) d st =
     Some (q,
       if timed_out then Return (PopRes (Inl Timeout))
       else if disposed q then PopAt After2 (Timed d st)
       else DeqCommit, Quiet)"
| "pop_timeout_step i t q After2 d st =
     Some (q, if buf q = [] then Return (PopRes (Inl ResourceUnavailable)) else DeqCommit, Quiet)"
| "pop_timeout_step i t q Asleep d st = None"

fun try_pop_step :: "tid \<Rightarrow> 'a abq \<Rightarrow> try_point \<Rightarrow> ('a abq \<times> 'a abq_pc \<times> cv notice) option" where
  "try_pop_step i q TryEnter = abq_lock i q (TryPopAt Try1)"
| "try_pop_step i q Try1 = Some (q, if buf q = [] then TryPopAt Try2 else DeqCommit, Quiet)"
| "try_pop_step i q Try2 =
     Some (q, Return (PopRes (Inl (if disposed q then ResourceUnavailable else WouldBlock))), Quiet)"

section \<open>Drain, dispose and the observers\<close>

text \<open>\<open>DrainAt False\<close> takes the lock, \<open>DrainAt True\<close> empties the deque and unlocks.\<close>

fun drain_step :: "tid \<Rightarrow> 'a abq \<Rightarrow> bool \<Rightarrow> ('a abq \<times> 'a abq_pc \<times> cv notice) option" where
  "drain_step i q False = abq_lock i q (DrainAt True)"
| "drain_step i q True =
     (let had = length (buf q)
      in Some (q\<lparr>buf := [], owner := None\<rparr>,
           DrainSignal (had > 0 \<and> waiters_any (push_waiters q)) (buf q), Quiet))"

fun dispose_step :: "tid \<Rightarrow> 'a abq \<Rightarrow> dispose_point \<Rightarrow> ('a abq \<times> 'a abq_pc \<times> cv notice) option" where
  "dispose_step i q DisposeCas =
     (if disposed q then Some (q, Done DisposeRes, Quiet)
      else Some (q\<lparr>disposed := True\<rparr>, DisposeAt DisposeLock, Quiet))"
| "dispose_step i q DisposeLock = abq_lock i q (DisposeAt DisposeUnlock)"
| "dispose_step i q DisposeUnlock = Some (q\<lparr>owner := None\<rparr>, DisposeAt DisposeNotEmpty, Quiet)"
| "dispose_step i q DisposeNotEmpty = Some (q, DisposeAt DisposeNotFull, WakeAll NotEmpty)"
| "dispose_step i q DisposeNotFull = Some (q, Done DisposeRes, WakeAll NotFull)"

fun size_step :: "tid \<Rightarrow> 'a abq \<Rightarrow> bool \<Rightarrow> ('a abq \<times> 'a abq_pc \<times> cv notice) option" where
  "size_step i q False = abq_lock i q (SizeAt True)"
| "size_step i q True = Some (q, Return (SizeRes (length (buf q))), Quiet)"

section \<open>The machine\<close>

text \<open>\<open>Return r\<close> drops the lock guard at the end of the method.\<close>

fun abq_advance :: "tid \<Rightarrow> nat \<Rightarrow> 'a abq \<Rightarrow> 'a abq_pc \<Rightarrow> ('a abq \<times> 'a abq_pc \<times> cv notice) option" where
  "abq_advance i t q (PushAt pt x Untimed) = push_step i q pt x"
| "abq_advance i t q (PushAt pt x (Timed d st)) = push_timeout_step i t q pt x d st"
| "abq_advance i t q (TryPushAt pt x) = try_push_step i q pt x"
| "abq_advance i t q (PopAt pt Untimed) = pop_step i q pt"
| "abq_advance i t q (PopAt pt (Timed d st)) = pop_timeout_step i t q pt d st"
| "abq_advance i t q (TryPopAt pt) = try_pop_step i q pt"
| "abq_advance i t q (EnqCommit x) =
     (case en_q_commit x q of (q', s) \<Rightarrow> Some (q', SignalAt s (PushRes (Inr ())), Quiet))"
| "abq_advance i t q DeqCommit =
     (case de_q_commit q of
        None \<Rightarrow> Some (q\<lparr>owner := None\<rparr>, Panicked, Quiet)
      | Some (x, q', s) \<Rightarrow> Some (q', SignalAt s (PopRes (Inr x)), Quiet))"
| "abq_advance i t q (SignalAt s r) = Some (signal_step q s r)"
| "abq_advance i t q (DrainAt b) = drain_step i q b"
| "abq_advance i t q (DrainSignal wake xs) =
     Some (q, Done (DrainRes xs), if wake then WakeAll NotFull else Quiet)"
| "abq_advance i t q (DisposeAt pt) = dispose_step i q pt"
| "abq_advance i t q (SizeAt b) = size_step i q b"
| "abq_advance i t q CapacityAt = Some (q, Done (CapacityRes (capacity q)), Quiet)"
| "abq_advance i t q IsDisposedAt = Some (q, Done (IsDisposedRes (disposed q)), Quiet)"
| "abq_advance i t q (Return r) = Some (q\<lparr>owner := None\<rparr>, Done r, Quiet)"
| "abq_advance i t q p = None"

fun abq_entry :: "'a bq_op \<Rightarrow> 'a abq_pc" where
  "abq_entry (OpPush x) = PushAt Enter x Untimed"
| "abq_entry (OpTryPush x) = TryPushAt TryEnter x"
| "abq_entry (OpPushTimeout x d) = PushAt Enter x (Timed d 0)"
| "abq_entry OpPop = PopAt Enter Untimed"
| "abq_entry OpTryPop = TryPopAt TryEnter"
| "abq_entry (OpPopTimeout d) = PopAt Enter (Timed d 0)"
| "abq_entry OpDrain = DrainAt False"
| "abq_entry OpDispose = DisposeAt DisposeCas"
| "abq_entry OpSize = SizeAt False"
| "abq_entry OpCapacity = CapacityAt"
| "abq_entry OpIsDisposed = IsDisposedAt"

fun abq_resting :: "'a abq_pc \<Rightarrow> bool" where
  "abq_resting Idle = True"
| "abq_resting (Done r) = True"
| "abq_resting p = False"

fun abq_dozing :: "'a abq_pc \<Rightarrow> cv option" where
  "abq_dozing (PushAt Asleep x tm) = Some NotFull"
| "abq_dozing (PopAt Asleep tm) = Some NotEmpty"
| "abq_dozing p = None"

fun abq_rouse :: "'a abq_pc \<Rightarrow> 'a abq_pc" where
  "abq_rouse (PushAt pt x tm) = PushAt Woken x tm"
| "abq_rouse (PopAt pt tm) = PopAt Woken tm"
| "abq_rouse p = p"

definition abq_machine :: "('a bq_op, 'a abq, 'a abq_pc, cv) machine" where
  "abq_machine = \<lparr>entry = abq_entry, resting = abq_resting, advance = abq_advance,
     dozing = abq_dozing, rouse = abq_rouse\<rparr>"

lemma abq_machine_simps [simp]:
  "entry abq_machine = abq_entry" "resting abq_machine = abq_resting"
  "advance abq_machine = abq_advance" "dozing abq_machine = abq_dozing"
  "rouse abq_machine = abq_rouse"
  by (simp_all add: abq_machine_def)

text \<open>\<open>n\<close> threads, none in a call, around a new queue made with argument \<open>c\<close>.\<close>

definition abq_start :: "nat \<Rightarrow> nat \<Rightarrow> ('a bq_op, 'a abq, 'a abq_pc) sys" where
  "abq_start c n = boot (abq_fresh (ensure_capacity c)) Idle n"

end
