(* ===== verification/ArrayInv.thy ===== *)
theory ArrayInv
  imports ArrayBQ
begin

text \<open>
  Invariants of the array queue under any schedule: lock discipline, what holds at each
  program point (so the \<open>expect\<close>, the \<open>debug_assert!\<close> and the capacity bound are never
  violated), the waiter counters, and which operation a program point belongs to.
\<close>

lemmas abq_defs = abq_lock_def en_q_commit_def de_q_commit_def is_full_def Let_def

section \<open>The machine rules and the mutex\<close>

fun abq_holds :: "'a abq_pc \<Rightarrow> bool" where
  "abq_holds (PushAt pt x tm) = wait_holds pt"
| "abq_holds (PopAt pt tm) = wait_holds pt"
| "abq_holds (TryPushAt pt x) = (pt \<noteq> TryEnter)"
| "abq_holds (TryPopAt pt) = (pt \<noteq> TryEnter)"
| "abq_holds (EnqCommit x) = True"
| "abq_holds DeqCommit = True"
| "abq_holds (DrainAt b) = b"
| "abq_holds (DisposeAt pt) = (pt = DisposeUnlock)"
| "abq_holds (SizeAt b) = b"
| "abq_holds (Return r) = True"
| "abq_holds p = False"

text \<open>One case analysis of an action, by method, for every lemma below.\<close>

lemma abq_step_cases [consumes 1, case_names Push PushTimeout TryPush Pop PopTimeout TryPop Enq Deq
    DeqPanic Signal Drain DrainSig Dispose Size Capacity Disposed Return]:
  assumes "abq_advance i t q p = Some (q', p', nt)"
  obtains pt x where "p = PushAt pt x Untimed" "push_step i q pt x = Some (q', p', nt)"
  | pt x d st where "p = PushAt pt x (Timed d st)" "push_timeout_step i t q pt x d st = Some (q', p', nt)"
  | pt x where "p = TryPushAt pt x" "try_push_step i q pt x = Some (q', p', nt)"
  | pt where "p = PopAt pt Untimed" "pop_step i q pt = Some (q', p', nt)"
  | pt d st where "p = PopAt pt (Timed d st)" "pop_timeout_step i t q pt d st = Some (q', p', nt)"
  | pt where "p = TryPopAt pt" "try_pop_step i q pt = Some (q', p', nt)"
  | x s where "p = EnqCommit x" "(q', s) = en_q_commit x q" "p' = SignalAt s (PushRes (Inr ()))" "nt = Quiet"
  | x s where "p = DeqCommit" "de_q_commit q = Some (x, q', s)" "p' = SignalAt s (PopRes (Inr x))" "nt = Quiet"
  | "p = DeqCommit" "buf q = []" "q' = q\<lparr>owner := None\<rparr>" "p' = Panicked" "nt = Quiet"
  | s r where "p = SignalAt s r" "(q', p', nt) = signal_step q s r"
  | b where "p = DrainAt b" "drain_step i q b = Some (q', p', nt)"
  | b xs where "p = DrainSignal b xs" "q' = q" "p' = Done (DrainRes xs)"
      "nt = (if b then WakeAll NotFull else Quiet)"
  | pt where "p = DisposeAt pt" "dispose_step i q pt = Some (q', p', nt)"
  | b where "p = SizeAt b" "size_step i q b = Some (q', p', nt)"
  | "p = CapacityAt" "q' = q" "p' = Done (CapacityRes (capacity q))" "nt = Quiet"
  | "p = IsDisposedAt" "q' = q" "p' = Done (IsDisposedRes (disposed q))" "nt = Quiet"
  | r where "p = Return r" "q' = q\<lparr>owner := None\<rparr>" "p' = Done r" "nt = Quiet"
proof (cases p)
  case (PushAt pt x tm)
  then show thesis using assms that(1) [of pt x] that(2) [of pt x] by (cases tm) auto
next
  case (TryPushAt pt x) then show thesis using assms that(3) [of pt x] by simp
next
  case (PopAt pt tm)
  then show thesis using assms that(4) [of pt] that(5) [of pt] by (cases tm) auto
next
  case (TryPopAt pt) then show thesis using assms that(6) [of pt] by simp
next
  case (EnqCommit x) then show thesis using assms that(7) [of x] by (auto split: prod.splits)
next
  case DeqCommit
  then show thesis
    using assms that(8) that(9) by (cases "buf q") (auto simp: de_q_commit_def Let_def)
next
  case (SignalAt s r) then show thesis using assms that(10) [of s r] by simp
next
  case (DrainAt b) then show thesis using assms that(11) [of b] by simp
next
  case (DrainSignal b xs) then show thesis using assms that(12) [of b xs] by simp
next
  case (DisposeAt pt) then show thesis using assms that(13) [of pt] by simp
next
  case (SizeAt b) then show thesis using assms that(14) [of b] by simp
next
  case CapacityAt then show thesis using assms that(15) by auto
next
  case IsDisposedAt then show thesis using assms that(16) by auto
next
  case (Return r) then show thesis using assms that(17) [of r] by auto
next
  case Idle then show thesis using assms by simp
next
  case (Done r) then show thesis using assms by simp
next
  case Panicked then show thesis using assms by simp
qed

fun_cases push_stepE: "push_step i q pt x = Some (q', p', nt)"
fun_cases push_timeout_stepE: "push_timeout_step i t q pt x d st = Some (q', p', nt)"
fun_cases try_push_stepE: "try_push_step i q pt x = Some (q', p', nt)"
fun_cases pop_stepE: "pop_step i q pt = Some (q', p', nt)"
fun_cases pop_timeout_stepE: "pop_timeout_step i t q pt d st = Some (q', p', nt)"
fun_cases try_pop_stepE: "try_pop_step i q pt = Some (q', p', nt)"
fun_cases drain_stepE: "drain_step i q b = Some (q', p', nt)"
fun_cases dispose_stepE: "dispose_step i q pt = Some (q', p', nt)"
fun_cases size_stepE: "size_step i q b = Some (q', p', nt)"

lemmas abq_elims = push_stepE push_timeout_stepE try_push_stepE pop_stepE pop_timeout_stepE
  try_pop_stepE drain_stepE dispose_stepE size_stepE

interpretation abq: machine_rules abq_machine
proof
  fix op :: "'a bq_op" and p p' :: "'a abq_pc" and i t and q q' :: "'a abq" and nt
  show "dozing abq_machine (entry abq_machine op) = None" by (cases op) auto
  show "resting abq_machine p \<Longrightarrow> advance abq_machine i t q p = None" by (cases p) auto
  show "resting abq_machine p \<Longrightarrow> dozing abq_machine p = None" by (cases p) auto
  show "dozing abq_machine p \<noteq> None \<Longrightarrow> advance abq_machine i t q p = None"
    by (cases p rule: abq_dozing.cases) (auto split: timing.splits intro: timing.exhaust,
        (rename_tac tm; case_tac tm; simp)+)
  show "dozing abq_machine p \<noteq> None \<Longrightarrow> dozing abq_machine (rouse abq_machine p) = None"
    by (cases p rule: abq_dozing.cases) auto
  assume "advance abq_machine i t q p = Some (q', p', nt)"
  then have "abq_advance i t q p = Some (q', p', nt)" by simp
  then show "dozing abq_machine p' \<noteq> None \<Longrightarrow> nt = Quiet"
    by (cases rule: abq_step_cases; (elim abq_elims)?; auto simp: abq_defs split: if_splits list.splits)
qed

lemma abq_lock_step:
  assumes "abq_advance i t q p = Some (q', p', nt)" and "abq_holds p \<longleftrightarrow> owner q = Some i"
  shows "(owner q' = owner q \<and> abq_holds p' = abq_holds p) \<or> (owner q = None \<and> owner q' = Some i \<and> abq_holds p')
    \<or> (owner q = Some i \<and> owner q' = None \<and> \<not> abq_holds p')"
  using assms
  by (cases rule: abq_step_cases; (elim abq_elims)?; auto simp: abq_defs split: if_splits list.splits)

interpretation abq_lock: mutex abq_machine owner abq_holds
proof
  fix op :: "'a bq_op" and p p' :: "'a abq_pc" and i t and q q' :: "'a abq" and nt
  show "\<not> abq_holds (entry abq_machine op)" by (cases op) auto
  show "resting abq_machine p \<Longrightarrow> \<not> abq_holds p" by (cases p) auto
  show "dozing abq_machine p \<noteq> None \<Longrightarrow> \<not> abq_holds p \<and> \<not> abq_holds (rouse abq_machine p)"
    by (cases p rule: abq_dozing.cases) auto
qed (use abq_lock_step in \<open>simp, blast\<close>)

section \<open>Frames\<close>

text \<open>What no action changes, what only the owner changes, and that disposal is final.\<close>

lemma abq_frame:
  assumes "abq_advance i t q p = Some (q', p', nt)"
  shows "capacity q' = capacity q" and "disposed q \<Longrightarrow> disposed q'"
    and "\<not> abq_holds p \<Longrightarrow> buf q' = buf q"
  using assms
  by (cases rule: abq_step_cases; (elim abq_elims)?; auto simp: abq_defs split: if_splits list.splits)+

section \<open>What holds at each program point\<close>

definition push_point :: "'a abq \<Rightarrow> wait_point \<Rightarrow> timing \<Rightarrow> bool" where
  "push_point q pt tm =
     (case pt of
        WaitClock \<Rightarrow> is_full q \<and> tm \<noteq> Untimed
      | Doze \<Rightarrow> is_full q
      | Leave b \<Rightarrow> (if b then is_full q \<and> tm \<noteq> Untimed else disposed q \<or> \<not> is_full q)
      | After b \<Rightarrow> (if b then is_full q \<and> tm \<noteq> Untimed else disposed q \<or> \<not> is_full q)
      | After2 \<Rightarrow> False
      | _ \<Rightarrow> True)"

definition pop_point :: "'a abq \<Rightarrow> wait_point \<Rightarrow> timing \<Rightarrow> bool" where
  "pop_point q pt tm =
     (case pt of
        WaitClock \<Rightarrow> buf q = [] \<and> tm \<noteq> Untimed
      | Doze \<Rightarrow> buf q = []
      | Leave b \<Rightarrow> (if b then buf q = [] \<and> tm \<noteq> Untimed else disposed q \<or> buf q \<noteq> [])
      | After b \<Rightarrow> (if b then buf q = [] \<and> tm \<noteq> Untimed else disposed q \<or> buf q \<noteq> [])
      | After2 \<Rightarrow> disposed q \<and> (tm = Untimed \<longrightarrow> buf q = [])
      | _ \<Rightarrow> True)"

fun abq_point :: "'a abq \<Rightarrow> 'a abq_pc \<Rightarrow> bool" where
  "abq_point q (PushAt pt x tm) = push_point q pt tm"
| "abq_point q (PopAt pt tm) = pop_point q pt tm"
| "abq_point q (TryPopAt pt) = (pt = Try2 \<longrightarrow> buf q = [])"
| "abq_point q (EnqCommit x) = (\<not> is_full q)"
| "abq_point q DeqCommit = (buf q \<noteq> [])"
| "abq_point q Panicked = False"
| "abq_point q p = True"

definition abq_shared_ok :: "'a abq \<Rightarrow> bool" where
  "abq_shared_ok q \<longleftrightarrow> 0 < capacity q \<and> length (buf q) \<le> capacity q"

definition abq_safe :: "tid \<Rightarrow> nat \<Rightarrow> 'a abq \<Rightarrow> ('op, 'a abq_pc) thread \<Rightarrow> bool" where
  "abq_safe i t q th \<longleftrightarrow> owns owner abq_holds i t q th \<and> abq_point q (pc th)"

lemmas abq_points = push_point_def pop_point_def abq_shared_ok_def

lemma abq_point_step:
  assumes "abq_advance i t q p = Some (q', p', nt)" and "abq_shared_ok q" and "abq_point q p"
  shows "abq_shared_ok q' \<and> abq_point q' p'"
  using assms
  by (cases rule: abq_step_cases; (elim abq_elims)?;
      auto simp: abq_defs abq_points split: if_splits list.splits)

text \<open>The facts of a thread that does not move survive, because it owns the deque.\<close>

lemma abq_point_frame:
  assumes "buf q' = buf q" "capacity q' = capacity q" "disposed q \<Longrightarrow> disposed q'" "abq_point q p"
  shows "abq_point q' p"
  using assms by (cases p) (auto simp: abq_points is_full_def split: wait_point.splits)

lemma abq_point_free: "\<not> abq_holds p \<Longrightarrow> abq_point q p \<Longrightarrow> abq_point q' p"
  by (cases p) (auto simp: abq_points split: wait_point.splits)

interpretation abq_safe: guarded abq_machine abq_shared_ok abq_safe
proof
  fix q q' :: "'a abq" and i j t d p nt op and th th' :: "('a bq_op, 'a abq_pc) thread"
  show "abq_shared_ok q \<Longrightarrow> abq_safe i t q th \<Longrightarrow> resting abq_machine (pc th) \<Longrightarrow>
      abq_safe i t q \<lparr>cur = Some op, called = t, pc = entry abq_machine op\<rparr>"
    using abq_lock.entry_ok [of i t q th op]
    by (cases op) (auto simp: abq_safe_def abq_points)
  show "abq_safe i t q th \<Longrightarrow> dozing abq_machine (pc th) \<noteq> None \<Longrightarrow>
      abq_safe i t q (th\<lparr>pc := rouse abq_machine (pc th)\<rparr>)"
    using abq_lock.rouse_ok [of i t q th]
    by (cases "pc th" rule: abq_dozing.cases) (auto simp: abq_safe_def abq_points)
  show "abq_safe i t q th \<Longrightarrow> abq_safe i (t + d) q th"
    by (simp add: abq_safe_def owns_def)
  assume ok: "abq_shared_ok q" and safe: "abq_safe i t q th"
    and adv: "advance abq_machine i t q (pc th) = Some (q', p, nt)"
  from safe have own: "owns owner abq_holds i t q th" and "abq_point q (pc th)"
    by (simp_all add: abq_safe_def)
  with abq_point_step [of i t q "pc th"] abq_lock.step_ok [OF _ own adv] adv ok
  show "abq_shared_ok q' \<and> abq_safe i t q' (th\<lparr>pc := p\<rparr>)" by (auto simp: abq_safe_def)
  assume ne: "j \<noteq> i" and other: "abq_safe j t q th'"
  have "abq_point q' (pc th')"
  proof (cases "abq_holds (pc th')")
    case True
    with other own ne have "\<not> abq_holds (pc th)" by (auto simp: abq_safe_def owns_def)
    with abq_frame [of i t q "pc th" q' p nt] adv other show ?thesis
      by (intro abq_point_frame [of q' q]) (auto simp: abq_safe_def)
  qed (use other abq_point_free in \<open>auto simp: abq_safe_def\<close>)
  with abq_lock.frame_ok [OF _ own adv ne] other
  show "abq_safe j t q' th'" by (simp add: abq_safe_def)
qed

lemma abq_start_safe:
  "s = abq_start c n \<Longrightarrow> abq_shared_ok (shared s) \<and> all_threads abq_safe s"
  by (auto simp: abq_start_def abq_fresh_def abq_shared_ok_def all_threads_def abq_safe_def owns_def)

lemma abq_run_safe:
  "run abq_machine ls (abq_start c n) = Some s \<Longrightarrow> abq_shared_ok (shared s) \<and> all_threads abq_safe s"
  using abq_safe.run_guarded abq_start_safe by blast

section \<open>Waiter counters\<close>

fun push_section :: "'a abq_pc \<Rightarrow> bool" where
  "push_section (PushAt pt x tm) = wait_section pt"
| "push_section p = False"

fun pop_section :: "'a abq_pc \<Rightarrow> bool" where
  "pop_section (PopAt pt tm) = wait_section pt"
| "pop_section p = False"

lemma abq_push_count:
  assumes "abq_advance i t q p = Some (q', p', nt)"
  shows "(push_section p' = push_section p \<and> push_waiters q' = push_waiters q)
    \<or> (\<not> push_section p \<and> push_section p' \<and> push_waiters q' = wrap_add usize_mod (push_waiters q) 1)
    \<or> (push_section p \<and> \<not> push_section p' \<and> push_waiters q' = wrap_sub usize_mod (push_waiters q) 1)"
  using assms
  by (cases rule: abq_step_cases; (elim abq_elims)?;
      auto simp: abq_defs waiters_enter_def waiters_leave_def split: if_splits list.splits)

lemma abq_pop_count:
  assumes "abq_advance i t q p = Some (q', p', nt)"
  shows "(pop_section p' = pop_section p \<and> pop_waiters q' = pop_waiters q)
    \<or> (\<not> pop_section p \<and> pop_section p' \<and> pop_waiters q' = wrap_add usize_mod (pop_waiters q) 1)
    \<or> (pop_section p \<and> \<not> pop_section p' \<and> pop_waiters q' = wrap_sub usize_mod (pop_waiters q) 1)"
  using assms
  by (cases rule: abq_step_cases; (elim abq_elims)?;
      auto simp: abq_defs waiters_enter_def waiters_leave_def split: if_splits list.splits)

interpretation abq_push_count: counter abq_machine usize_mod push_waiters push_section
proof
  fix op :: "'a bq_op" and p :: "'a abq_pc"
  show "\<not> push_section (entry abq_machine op)" by (cases op) auto
  show "resting abq_machine p \<Longrightarrow> \<not> push_section p" by (cases p) auto
  show "dozing abq_machine p \<noteq> None \<Longrightarrow> push_section (rouse abq_machine p) = push_section p"
    by (cases p rule: abq_dozing.cases) auto
qed (use abq_push_count in \<open>simp, blast\<close>)

interpretation abq_pop_count: counter abq_machine usize_mod pop_waiters pop_section
proof
  fix op :: "'a bq_op" and p :: "'a abq_pc"
  show "\<not> pop_section (entry abq_machine op)" by (cases op) auto
  show "resting abq_machine p \<Longrightarrow> \<not> pop_section p" by (cases p) auto
  show "dozing abq_machine p \<noteq> None \<Longrightarrow> pop_section (rouse abq_machine p) = pop_section p"
    by (cases p rule: abq_dozing.cases) auto
qed (use abq_pop_count in \<open>simp, blast\<close>)

lemma abq_run_counts:
  assumes "run abq_machine ls (abq_start c n) = Some s" and "n < usize_mod"
  shows "push_waiters (shared s) = inside push_section (threads s)"
    and "pop_waiters (shared s) = inside pop_section (threads s)"
proof -
  have start: "length (threads (abq_start c n :: ('a bq_op, 'a abq, 'a abq_pc) sys)) < usize_mod"
    "push_waiters (shared (abq_start c n)) = inside push_section (threads (abq_start c n))"
    "pop_waiters (shared (abq_start c n)) = inside pop_section (threads (abq_start c n))"
    using assms(2) by (simp_all add: abq_start_def abq_fresh_def waiters_new_def inside_def)
  show "push_waiters (shared s) = inside push_section (threads s)"
    using abq_push_count.run_counter [OF assms(1) start(1,2)] .
  show "pop_waiters (shared s) = inside pop_section (threads s)"
    using abq_pop_count.run_counter [OF assms(1) start(1,3)] .
qed

end
