(* ===== verification/ArrayLin.thy ===== *)
theory ArrayLin
  imports ArrayInv
begin

text \<open>
  The array queue is linearizable to \<open>bq_spec\<close>. A push takes effect when it reads the flag
  \<open>disposed\<close> as false under the lock (its item counts as queued from there, before
  \<open>push_back\<close>), a pop when it takes the front item, a refused call when it reads what
  refuses it, \<open>dispose\<close> at its compare-exchange.
\<close>

section \<open>The call a program point belongs to\<close>

fun abq_fits :: "'a bq_op \<Rightarrow> 'a abq_pc \<Rightarrow> bool" where
  "abq_fits op (PushAt pt x tm) =
     (case tm of Untimed \<Rightarrow> op = OpPush x | Timed d st \<Rightarrow> op = OpPushTimeout x d)"
| "abq_fits op (TryPushAt pt x) = (op = OpTryPush x)"
| "abq_fits op (PopAt pt tm) = (case tm of Untimed \<Rightarrow> op = OpPop | Timed d st \<Rightarrow> op = OpPopTimeout d)"
| "abq_fits op (TryPopAt pt) = (op = OpTryPop)"
| "abq_fits op (EnqCommit x) = (op = OpPush x \<or> op = OpTryPush x \<or> (\<exists>d. op = OpPushTimeout x d))"
| "abq_fits op DeqCommit = (op = OpPop \<or> op = OpTryPop \<or> (\<exists>d. op = OpPopTimeout d))"
| "abq_fits op (DrainAt b) = (op = OpDrain)"
| "abq_fits op (DrainSignal b xs) = (op = OpDrain)"
| "abq_fits op (DisposeAt pt) = (op = OpDispose)"
| "abq_fits op (SizeAt b) = (op = OpSize)"
| "abq_fits op CapacityAt = (op = OpCapacity)"
| "abq_fits op IsDisposedAt = (op = OpIsDisposed)"
| "abq_fits op p = True"

fun abq_clock :: "'a bq_op \<Rightarrow> nat \<Rightarrow> nat \<Rightarrow> 'a abq_pc \<Rightarrow> bool" where
  "abq_clock op c t (PushAt pt x tm) = wait_clock c t pt tm"
| "abq_clock op c t (PopAt pt tm) = wait_clock c t pt tm"
| "abq_clock op c t (Return r) = expired op c t r"
| "abq_clock op c t (SignalAt s r) = expired op c t r"
| "abq_clock op c t (Done r) = expired op c t r"
| "abq_clock op c t p = True"

definition abq_call :: "tid \<Rightarrow> nat \<Rightarrow> 'a abq \<Rightarrow> ('a bq_op, 'a abq_pc) thread \<Rightarrow> bool" where
  "abq_call i t q th \<longleftrightarrow> called th \<le> t \<and>
     (pc th = Idle \<or> (\<exists>op. cur th = Some op \<and> abq_fits op (pc th) \<and> abq_clock op (called th) t (pc th)))"

lemma abq_call_step:
  assumes "abq_advance i t q p = Some (q', p', nt)"
    and "c \<le> t" and "abq_fits op p" and "abq_clock op c t p"
  shows "abq_fits op p' \<and> abq_clock op c t p'"
  using assms
  by (cases rule: abq_step_cases; (elim abq_elims)?;
      auto simp: abq_defs expired_def split: if_splits list.splits)

lemma abq_clock_tick: "abq_clock op c t p \<Longrightarrow> abq_clock op c (t + d) p"
  by (cases p) (auto simp: wait_clock_tick expired_tick)

lemma abq_not_idle: "abq_advance i t q p = Some r \<Longrightarrow> p \<noteq> Idle"
  by auto

interpretation abq_call: guarded abq_machine "\<lambda>_. True" abq_call
proof
  fix q q' :: "'a abq" and i j t d p nt op and th th' :: "('a bq_op, 'a abq_pc) thread"
  show "abq_call i t q \<lparr>cur = Some op, called = t, pc = entry abq_machine op\<rparr>"
    by (cases op) (auto simp: abq_call_def)
  show "abq_call i t q th \<Longrightarrow> dozing abq_machine (pc th) \<noteq> None \<Longrightarrow>
      abq_call i t q (th\<lparr>pc := rouse abq_machine (pc th)\<rparr>)"
    by (cases "pc th" rule: abq_dozing.cases) (auto simp: abq_call_def elim!: wait_clock.elims)
  show "abq_call i t q th \<Longrightarrow> abq_call i (t + d) q th"
    by (auto simp: abq_call_def abq_clock_tick)
  assume call: "abq_call i t q th" and adv: "advance abq_machine i t q (pc th) = Some (q', p, nt)"
  from adv have "abq_advance i t q (pc th) = Some (q', p, nt)" by simp
  with call abq_call_step [OF this] abq_not_idle [OF this]
  show "True \<and> abq_call i t q' (th\<lparr>pc := p\<rparr>)" by (auto simp: abq_call_def)
qed (simp add: abq_call_def)

lemma abq_start_call: "s = abq_start c n \<Longrightarrow> all_threads abq_call s"
  by (auto simp: abq_start_def all_threads_def abq_call_def)

section \<open>Linearization points and the abstraction\<close>

fun abq_decided :: "'a abq \<Rightarrow> 'a abq_pc \<Rightarrow> 'a bq_res option" where
  "abq_decided q (TryPushAt pt x) =
     (if pt = Try2 then Some (PushRes (if is_full q then Inl (WouldBlock, x) else Inr ())) else None)"
| "abq_decided q (EnqCommit x) = Some (PushRes (Inr ()))"
| "abq_decided q (SignalAt s r) = Some r"
| "abq_decided q (DrainSignal b xs) = Some (DrainRes xs)"
| "abq_decided q (DisposeAt pt) = (if pt = DisposeCas then None else Some DisposeRes)"
| "abq_decided q (Return r) = Some r"
| "abq_decided q (Done r) = Some r"
| "abq_decided q p = None"

fun abq_pending :: "'a abq \<Rightarrow> 'a abq_pc \<Rightarrow> 'a list" where
  "abq_pending q (TryPushAt pt x) = (if pt = Try2 \<and> \<not> is_full q then [x] else [])"
| "abq_pending q (EnqCommit x) = [x]"
| "abq_pending q p = []"

definition abq_view :: "'a abq \<Rightarrow> 'a list \<Rightarrow> 'a bq_abs" where
  "abq_view q xs = \<lparr>items = buf q @ xs, closed = disposed q, bound = capacity q\<rparr>"

definition abq_pendings :: "('a bq_op, 'a abq, 'a abq_pc) sys \<Rightarrow> 'a list" where
  "abq_pendings s = concat (map (\<lambda>th. abq_pending (shared s) (pc th)) (threads s))"

definition abq_abs :: "('a bq_op, 'a abq, 'a abq_pc) sys \<Rightarrow> 'a bq_abs" where
  "abq_abs s = abq_view (shared s) (abq_pendings s)"

text \<open>
  One action against the specification. \<open>xs\<close> are the pending items before, \<open>xs'\<close> after:
  those of the moving thread when it is inside the lock on either side, else unchanged.
\<close>

lemma abq_lin_step:
  assumes "abq_advance i t q p = Some (q', p', nt)" and "abq_point q p" and "abq_fits op p"
    and "abq_holds p \<or> abq_holds p' \<Longrightarrow> xs = abq_pending q p \<and> xs' = abq_pending q' p'"
    and "\<not> abq_holds p \<Longrightarrow> \<not> abq_holds p' \<Longrightarrow> xs' = xs"
  shows "case abq_decided q p of
      Some r \<Rightarrow> abq_decided q' p' = Some r \<and> abq_view q' xs' = abq_view q xs
    | None \<Rightarrow>
        (case abq_decided q' p' of
           None \<Rightarrow> abq_view q' xs' = abq_view q xs
         | Some r \<Rightarrow> bq_spec op r (abq_view q xs) = Some (abq_view q' xs'))"
  using assms
  by (cases rule: abq_step_cases; (elim abq_elims)?;
      auto simp: abq_defs abq_points abq_view_def push_spec_def pop_spec_def has_room_def
        split: if_splits list.splits)

lemma abq_pending_free: "\<not> abq_holds p \<Longrightarrow> abq_pending q p = []"
  by (cases p) auto

text \<open>
  The pending items are those of the thread inside the lock; with the lock free there are none.
\<close>

lemma abq_pendings_at:
  assumes own: "all_threads (owns owner abq_holds) s" and i: "i < length (threads s)"
    and inside: "owner (shared s) = Some i \<or> owner (shared s) = None"
  shows "abq_pendings s = abq_pending (shared s) (pc (threads s ! i))"
  unfolding abq_pendings_def
proof (rule concat_single [OF i])
  fix j assume "j < length (threads s)" and "j \<noteq> i"
  with own inside have "\<not> abq_holds (pc (threads s ! j))" by (auto simp: all_threads_def owns_def)
  then show "abq_pending (shared s) (pc (threads s ! j)) = []" by (rule abq_pending_free)
qed

lemma abq_pendings_cong:
  assumes "length (threads t) = length (threads s)"
    and "\<And>j. j < length (threads s) \<Longrightarrow>
      abq_pending (shared t) (pc (threads t ! j)) = abq_pending (shared s) (pc (threads s ! j))"
  shows "abq_pendings t = abq_pendings s"
  unfolding abq_pendings_def using assms by (intro arg_cong [of _ _ concat] nth_equalityI) auto

definition abq_inv :: "('a bq_op, 'a abq, 'a abq_pc) sys \<Rightarrow> bool" where
  "abq_inv s \<longleftrightarrow> abq_shared_ok (shared s) \<and> all_threads abq_safe s \<and> all_threads abq_call s"

lemma abq_inv_owns: "abq_inv s \<Longrightarrow> all_threads (owns owner abq_holds) s"
  by (simp add: abq_inv_def all_threads_def abq_safe_def)

lemma abq_inv_exec: "abq_inv s \<Longrightarrow> exec abq_machine l s = Some t \<Longrightarrow> abq_inv t"
  using abq_safe.exec_guarded abq_call.exec_guarded by (auto simp: abq_inv_def)

lemma abq_inv_start: "abq_inv (abq_start c n)"
  unfolding abq_inv_def using abq_start_safe abq_start_call by blast

lemma abq_inv_run: "run abq_machine ls (abq_start c n) = Some s \<Longrightarrow> abq_inv s"
  using run_invariant [of abq_inv abq_machine ls] abq_inv_exec abq_inv_start by blast

lemma abq_pending_cong:
  "buf q' = buf q \<Longrightarrow> capacity q' = capacity q \<Longrightarrow> abq_pending q' p = abq_pending q p"
  by (cases p) (auto simp: is_full_def)

lemma abq_decided_cong:
  "buf q' = buf q \<Longrightarrow> capacity q' = capacity q \<Longrightarrow> abq_decided q' p = abq_decided q p"
  by (cases p) (auto simp: is_full_def)

lemma abq_decided_free: "\<not> abq_holds p \<Longrightarrow> abq_decided q' p = abq_decided q p"
  by (cases p) auto

lemma abq_rouse_same:
  assumes "abq_dozing p \<noteq> None"
  shows "abq_pending q (abq_rouse p) = abq_pending q p" and "abq_decided q (abq_rouse p) = abq_decided q p"
  using assms by (cases p rule: abq_dozing.cases; simp)+

text \<open>What one action does to the abstract queue, for the thread that moves.\<close>

lemma abq_exec_run:
  assumes inv: "abq_inv s" and ex: "exec abq_machine (Run i ks) s = Some t"
  shows "case abq_decided (shared s) (pc (threads s ! i)) of
      Some r \<Rightarrow> abq_decided (shared t) (pc (threads t ! i)) = Some r \<and> abq_abs t = abq_abs s
    | None \<Rightarrow>
        (case abq_decided (shared t) (pc (threads t ! i)) of
           None \<Rightarrow> abq_abs t = abq_abs s
         | Some r \<Rightarrow> \<exists>op. cur (threads s ! i) = Some op \<and> bq_spec op r (abq_abs s) = Some (abq_abs t))"
  using ex
proof (rule abq.run_mover)
  fix q p nt
  let ?p = "pc (threads s ! i)"
  assume i: "i < length (threads s)" and adv: "advance abq_machine i (now s) (shared s) ?p = Some (q, p, nt)"
    and t: "shared t = q" "threads t ! i = (threads s ! i)\<lparr>pc := p\<rparr>"
    and others: "\<And>j. j < length (threads s) \<Longrightarrow> j \<noteq> i \<Longrightarrow> threads t ! j = threads s ! j \<or>
      (dozing abq_machine (pc (threads s ! j)) \<noteq> None
        \<and> threads t ! j = (threads s ! j)\<lparr>pc := rouse abq_machine (pc (threads s ! j))\<rparr>)"
  have adv': "abq_advance i (now s) (shared s) ?p = Some (q, p, nt)" using adv by simp
  have safe: "abq_safe i (now s) (shared s) (threads s ! i)"
    and call: "abq_call i (now s) (shared s) (threads s ! i)"
    using inv i by (auto simp: abq_inv_def all_threads_def)
  from call abq_not_idle [OF adv'] obtain op where op: "cur (threads s ! i) = Some op" "abq_fits op ?p"
    by (auto simp: abq_call_def)
  have len: "length (threads t) = length (threads s)" using ex by (rule exec_length)
  have own_s: "all_threads (owns owner abq_holds) s" and own_t: "all_threads (owns owner abq_holds) t"
    using inv abq_inv_exec [OF inv ex] by (simp_all add: abq_inv_owns)
  have lock: "abq_holds ?p \<longleftrightarrow> owner (shared s) = Some i" using safe by (simp add: abq_safe_def owns_def)
  have at: "abq_pendings s = abq_pending (shared s) ?p \<and> abq_pendings t = abq_pending q p"
    if "abq_holds ?p \<or> abq_holds p"
  proof -
    have "owner (shared s) = Some i \<or> owner (shared s) = None"
      and "owner (shared t) = Some i \<or> owner (shared t) = None"
      using abq_lock_step [OF adv' lock] that lock t by auto
    with abq_pendings_at [OF own_s i] abq_pendings_at [OF own_t, of i] i len t show ?thesis by simp
  qed
  have same: "abq_pendings t = abq_pendings s" if out: "\<not> abq_holds ?p" "\<not> abq_holds p"
  proof (rule abq_pendings_cong [OF len])
    fix j assume j: "j < length (threads s)"
    have frame: "buf q = buf (shared s)" "capacity q = capacity (shared s)"
      using abq_frame [OF adv'] out by auto
    show "abq_pending (shared t) (pc (threads t ! j)) = abq_pending (shared s) (pc (threads s ! j))"
    proof (cases "j = i")
      case True
      with out t show ?thesis by (simp add: abq_pending_free)
    next
      case False
      with others [OF j] abq_rouse_same(1) [of "pc (threads s ! j)"] abq_pending_cong [OF frame] t
      show ?thesis by auto
    qed
  qed
  from abq_lin_step [OF adv' _ op(2) at same] safe op(1) t show ?thesis
    by (simp add: abq_abs_def abq_safe_def split: option.splits)
qed

lemma abq_abs_same:
  assumes "shared t = shared s" and "length (threads t) = length (threads s)"
    and "\<And>j. j < length (threads s) \<Longrightarrow>
      abq_pending (shared s) (pc (threads t ! j)) = abq_pending (shared s) (pc (threads s ! j))"
  shows "abq_abs t = abq_abs s"
  using abq_pendings_cong [of t s] assms by (simp add: abq_abs_def)

interpretation abq_lin: linearizable abq_machine abq_inv abq_decided abq_abs bq_spec
proof
  fix s t :: "('a bq_op, 'a abq, 'a abq_pc) sys" and q :: "'a abq" and op :: "'a bq_op"
    and p :: "'a abq_pc" and i j ks n l
  show "abq_inv s \<Longrightarrow> exec abq_machine l s = Some t \<Longrightarrow> abq_inv t" by (rule abq_inv_exec)
  show "abq_decided q (entry abq_machine op) = None" by (cases op) auto
  show "abq_inv s \<Longrightarrow> exec abq_machine (Call i op) s = Some t \<Longrightarrow> abq_abs t = abq_abs s"
    by (rule abq_abs_same) (cases op; auto simp: nth_list_update abq_pending_free split: if_splits
        elim!: abq_resting.elims)+
  show "abq_inv s \<Longrightarrow> exec abq_machine (Spurious i) s = Some t \<Longrightarrow> abq_abs t = abq_abs s"
    by (rule abq_abs_same) (auto simp: nth_list_update abq_rouse_same split: if_splits)
  show "abq_inv s \<Longrightarrow> abq_abs (s\<lparr>now := n\<rparr>) = abq_abs s"
    by (simp add: abq_abs_def abq_pendings_def)
  show "dozing abq_machine p \<noteq> None \<Longrightarrow> abq_decided q (rouse abq_machine p) = abq_decided q p"
    using abq_rouse_same(2) by simp
  assume inv: "abq_inv s" and ex: "exec abq_machine (Run i ks) s = Some t"
  show "case abq_decided (shared s) (pc (threads s ! i)) of
      Some r \<Rightarrow> abq_decided (shared t) (pc (threads t ! i)) = Some r \<and> abq_abs t = abq_abs s
    | None \<Rightarrow>
        (case abq_decided (shared t) (pc (threads t ! i)) of
           None \<Rightarrow> abq_abs t = abq_abs s
         | Some r \<Rightarrow> \<exists>op. cur (threads s ! i) = Some op \<and> bq_spec op r (abq_abs s) = Some (abq_abs t))"
    using inv ex by (rule abq_exec_run)
  assume j: "j < length (threads s)" "j \<noteq> i"
  show "abq_decided (shared t) (pc (threads s ! j)) = abq_decided (shared s) (pc (threads s ! j))"
    using ex
  proof (rule abq.run_mover)
    fix q p nt
    assume i: "i < length (threads s)"
      and adv: "advance abq_machine i (now s) (shared s) (pc (threads s ! i)) = Some (q, p, nt)"
      and t: "shared t = q"
    show ?thesis
    proof (cases "abq_holds (pc (threads s ! j))")
      case True
      with abq_inv_owns [OF inv] i j have "\<not> abq_holds (pc (threads s ! i))"
        by (auto simp: all_threads_def owns_def)
      with abq_frame [of i "now s" "shared s" "pc (threads s ! i)" q p nt] adv t show ?thesis
        by (intro abq_decided_cong) auto
    qed (simp add: abq_decided_free)
  qed
qed

text \<open>The history of a run and the results of its calls.\<close>

lemma abq_history_replays:
  "run abq_machine ls (abq_start c n) = Some s \<Longrightarrow>
    replay bq_spec (history abq_machine abq_decided ls (abq_start c n)) (abq_abs (abq_start c n)) = Some (abq_abs s)"
  by (rule abq_lin.replay_run [OF abq_inv_start])

end
