(* ===== verification/ArrayWake.thy ===== *)
theory ArrayWake
  imports ArrayLin
begin

text \<open>
  The notifications of the array queue suffice: whenever a pusher sleeps although there is
  room, or a popper although there is an item, another thread is about to notify it or
  is awake and will pass the signal on; and a disposal reaches every sleeper, because
  \<open>dispose\<close> takes the lock between raising the flag and notifying.
\<close>

section \<open>Responsibility for a wake-up\<close>

fun push_token :: "'a abq_pc \<Rightarrow> nat" where
  "push_token (PushAt pt x tm) = wait_token pt"
| "push_token (EnqCommit x) = 1"
| "push_token (SignalAt s r) = of_bool (signal_not_full s)"
| "push_token (DrainSignal b xs) = of_bool b"
| "push_token p = 0"

fun pop_token :: "'a abq_pc \<Rightarrow> nat" where
  "pop_token (PopAt pt tm) = (if pt = After2 then 1 else wait_token pt)"
| "pop_token DeqCommit = 1"
| "pop_token (SignalAt s r) = of_bool (signal_not_empty s)"
| "pop_token p = 0"

text \<open>A live queue with room can serve a sleeping pusher, one with items a sleeping popper.\<close>

definition push_need :: "'a abq \<Rightarrow> nat" where
  "push_need q = of_bool (\<not> disposed q \<and> \<not> is_full q)"

definition pop_need :: "'a abq \<Rightarrow> nat" where
  "pop_need q = of_bool (\<not> disposed q \<and> buf q \<noteq> [])"

text \<open>After disposal: the disposer still has to notify, before (first) or after taking the lock.\<close>

fun dispose_waits :: "'a abq_pc \<Rightarrow> nat" where
  "dispose_waits (DisposeAt pt) = of_bool (pt = DisposeLock)"
| "dispose_waits p = 0"

fun dispose_empty_token :: "'a abq_pc \<Rightarrow> nat" where
  "dispose_empty_token (DisposeAt pt) =
     of_bool (pt = DisposeLock \<or> pt = DisposeUnlock \<or> pt = DisposeNotEmpty)"
| "dispose_empty_token p = 0"

fun dispose_full_token :: "'a abq_pc \<Rightarrow> nat" where
  "dispose_full_token (DisposeAt pt) = of_bool (pt \<noteq> DisposeCas)"
| "dispose_full_token p = 0"

definition disposed_need :: "'a abq \<Rightarrow> nat" where
  "disposed_need q = of_bool (disposed q)"

text \<open>Threads about to sleep on a flag they read as false, while they hold the lock.\<close>

fun stale :: "'a abq_pc \<Rightarrow> bool" where
  "stale (PushAt pt x tm) = flag_read pt"
| "stale (PopAt pt tm) = flag_read pt"
| "stale p = False"

lemma abq_stale_step:
  assumes "abq_advance i t q p = Some (q', p', nt)"
  shows "stale p' \<Longrightarrow> disposed_need q' \<noteq> 0 \<Longrightarrow> stale p"
    and "owner q \<noteq> None \<Longrightarrow> disposed_need q' + dispose_waits p \<le> disposed_need q + dispose_waits p'"
  using assms
  by (cases rule: abq_step_cases; (elim abq_elims)?;
      auto simp: abq_defs disposed_need_def split: if_splits list.splits)+

interpretation abq_race: presleep abq_machine owner abq_holds abq_inv stale dispose_waits disposed_need
proof
  fix p p' :: "'a abq_pc" and op :: "'a bq_op" and s :: "('a bq_op, 'a abq, 'a abq_pc) sys" and i q' nt
  show "abq_inv s \<Longrightarrow> all_threads (owns owner abq_holds) s" by (rule abq_inv_owns)
  show "stale p \<Longrightarrow> abq_holds p \<and> dispose_waits p = 0" by (cases p) auto
  show "dispose_waits (entry abq_machine op) = 0" by (cases op) auto
  show "resting abq_machine p \<Longrightarrow> dispose_waits p = 0" by (cases p) auto
  show "dozing abq_machine p \<noteq> None \<Longrightarrow> dispose_waits (rouse abq_machine p) = dispose_waits p"
    by (auto elim!: abq_dozing.elims)
  assume "advance abq_machine i (now s) (shared s) (pc (threads s ! i)) = Some (q', p', nt)"
  then have adv: "abq_advance i (now s) (shared s) (pc (threads s ! i)) = Some (q', p', nt)" by simp
  show "disposed_need q' \<noteq> 0 \<Longrightarrow> stale p' \<Longrightarrow> stale (pc (threads s ! i))"
    using abq_stale_step(1) [OF adv] by blast
  show "owner (shared s) \<noteq> None \<Longrightarrow>
      disposed_need q' + dispose_waits (pc (threads s ! i)) \<le> disposed_need (shared s) + dispose_waits p'"
    using abq_stale_step(2) [OF adv] .
qed

definition abq_live_inv :: "('a bq_op, 'a abq, 'a abq_pc) sys \<Rightarrow> bool" where
  "abq_live_inv s \<longleftrightarrow> abq_inv s \<and> length (threads s) < usize_mod
     \<and> push_waiters (shared s) = inside push_section (threads s)
     \<and> pop_waiters (shared s) = inside pop_section (threads s)
     \<and> (\<forall>j. owner (shared s) = Some j \<longrightarrow> j < length (threads s))
     \<and> unmissed stale dispose_waits disposed_need s"

lemma abq_live_inv_exec:
  assumes inv: "abq_live_inv s" and ex: "exec abq_machine l s = Some t"
  shows "abq_live_inv t"
  using abq_inv_exec [OF _ ex] abq_push_count.exec_counter [OF ex] abq_pop_count.exec_counter [OF ex]
    abq_lock.exec_owner_range [OF ex abq_inv_owns] abq_race.exec_unmissed [OF _ ex] inv
  by (auto simp: abq_live_inv_def)

lemma abq_live_inv_start:
  assumes "n < usize_mod" and "s = abq_start c n"
  shows "abq_live_inv s"
proof -
  have "abq_inv s" using abq_inv_start assms(2) by blast
  then show ?thesis
    using assms by (auto simp: abq_live_inv_def abq_start_def abq_fresh_def waiters_new_def inside_def unmissed_def)
qed

section \<open>The four wake-up contracts\<close>

lemma sleeping_section:
  "sleeping abq_machine NotFull ts \<le> inside push_section ts"
  "sleeping abq_machine NotEmpty ts \<le> inside pop_section ts"
  unfolding sleeping_def inside_def by (rule weight_mono, auto elim!: abq_dozing.elims)+

lemma abq_push_need_step:
  assumes "abq_advance i t q p = Some (q', p', nt)" and "abq_shared_ok q" and "abq_point q p"
    and "push_waiters q > 0" and "nt \<noteq> WakeAll NotFull" and "push_need q' \<noteq> 0"
  shows "push_need q' + push_token p \<le> push_need q + push_token p' + woken_by NotFull nt"
  using assms
  by (cases rule: abq_step_cases; (elim abq_elims)?;
      auto simp: abq_defs abq_points push_need_def waiters_any_def split: if_splits list.splits)

lemma abq_pop_need_step:
  assumes "abq_advance i t q p = Some (q', p', nt)" and "abq_shared_ok q" and "abq_point q p"
    and "pop_waiters q > 0" and "nt \<noteq> WakeAll NotEmpty" and "pop_need q' \<noteq> 0"
  shows "pop_need q' + pop_token p \<le> pop_need q + pop_token p' + woken_by NotEmpty nt"
  using assms
  by (cases rule: abq_step_cases; (elim abq_elims)?;
      auto simp: abq_defs abq_points pop_need_def waiters_any_def split: if_splits list.splits)

lemma abq_doze_step:
  assumes "abq_advance i t q p = Some (q', p', nt)" and "abq_point q p"
  shows "abq_dozing p' = Some NotFull \<Longrightarrow> push_need q' = 0"
    and "abq_dozing p' = Some NotEmpty \<Longrightarrow> pop_need q' = 0"
    and "abq_dozing p' \<noteq> None \<Longrightarrow> stale p \<and> disposed q' = disposed q \<and> owner q' = None"
  using assms
  by (cases rule: abq_step_cases; (elim abq_elims)?;
      auto simp: abq_defs abq_points push_need_def pop_need_def split: if_splits list.splits)+

lemma abq_disposed_need_step:
  assumes "abq_advance i t q p = Some (q', p', nt)"
  shows "nt \<noteq> WakeAll NotEmpty \<Longrightarrow>
      disposed_need q' + dispose_empty_token p \<le> disposed_need q + dispose_empty_token p'"
    and "nt \<noteq> WakeAll NotFull \<Longrightarrow>
      disposed_need q' + dispose_full_token p \<le> disposed_need q + dispose_full_token p'"
  using assms
  by (cases rule: abq_step_cases; (elim abq_elims)?;
      auto simp: abq_defs disposed_need_def split: if_splits list.splits)+

lemma abq_live_at:
  assumes "abq_live_inv s" and "i < length (threads s)"
  shows "abq_shared_ok (shared s)" and "abq_point (shared s) (pc (threads s ! i))"
  using assms by (auto simp: abq_live_inv_def abq_inv_def all_threads_def abq_safe_def)

interpretation abq_not_full: wakeups abq_machine abq_live_inv NotFull 1 push_token push_need
proof
  fix p p' :: "'a abq_pc" and s :: "('a bq_op, 'a abq, 'a abq_pc) sys" and i q' nt
  show "resting abq_machine p \<Longrightarrow> push_token p = 0" by (cases p) auto
  show "dozing abq_machine p = Some NotFull \<Longrightarrow> push_token (rouse abq_machine p) = push_token p + 1"
    by (auto elim!: abq_dozing.elims)
  show "dozing abq_machine p \<noteq> None \<Longrightarrow> dozing abq_machine p \<noteq> Some NotFull \<Longrightarrow>
      push_token (rouse abq_machine p) = push_token p"
    by (auto elim!: abq_dozing.elims)
  assume inv: "abq_live_inv s" and i: "i < length (threads s)"
    and adv: "advance abq_machine i (now s) (shared s) (pc (threads s ! i)) = Some (q', p', nt)"
  then have adv': "abq_advance i (now s) (shared s) (pc (threads s ! i)) = Some (q', p', nt)" by simp
  { assume "sleeping abq_machine NotFull (threads s) > 0"
    then have "push_waiters (shared s) > 0"
      using inv sleeping_section(1) [of "threads s"] by (simp add: abq_live_inv_def)
    moreover assume "nt \<noteq> WakeAll NotFull" and "push_need q' \<noteq> 0"
    ultimately show "push_need q' + push_token (pc (threads s ! i))
        \<le> push_need (shared s) + push_token p' + 1 * woken_by NotFull nt"
      using abq_push_need_step [OF adv' abq_live_at [OF inv i]] by simp }
  assume "dozing abq_machine p' = Some NotFull"
  then show "push_need q' \<le> weight push_token ((threads s)[i := (threads s ! i)\<lparr>pc := p'\<rparr>])"
    using abq_doze_step(1) [OF adv' abq_live_at(2) [OF inv i]] by simp
qed

interpretation abq_not_empty: wakeups abq_machine abq_live_inv NotEmpty 1 pop_token pop_need
proof
  fix p p' :: "'a abq_pc" and s :: "('a bq_op, 'a abq, 'a abq_pc) sys" and i q' nt
  show "resting abq_machine p \<Longrightarrow> pop_token p = 0" by (cases p) auto
  show "dozing abq_machine p = Some NotEmpty \<Longrightarrow> pop_token (rouse abq_machine p) = pop_token p + 1"
    by (auto elim!: abq_dozing.elims)
  show "dozing abq_machine p \<noteq> None \<Longrightarrow> dozing abq_machine p \<noteq> Some NotEmpty \<Longrightarrow>
      pop_token (rouse abq_machine p) = pop_token p"
    by (auto elim!: abq_dozing.elims)
  assume inv: "abq_live_inv s" and i: "i < length (threads s)"
    and adv: "advance abq_machine i (now s) (shared s) (pc (threads s ! i)) = Some (q', p', nt)"
  then have adv': "abq_advance i (now s) (shared s) (pc (threads s ! i)) = Some (q', p', nt)" by simp
  { assume "sleeping abq_machine NotEmpty (threads s) > 0"
    then have "pop_waiters (shared s) > 0"
      using inv sleeping_section(2) [of "threads s"] by (simp add: abq_live_inv_def)
    moreover assume "nt \<noteq> WakeAll NotEmpty" and "pop_need q' \<noteq> 0"
    ultimately show "pop_need q' + pop_token (pc (threads s ! i))
        \<le> pop_need (shared s) + pop_token p' + 1 * woken_by NotEmpty nt"
      using abq_pop_need_step [OF adv' abq_live_at [OF inv i]] by simp }
  assume "dozing abq_machine p' = Some NotEmpty"
  then show "pop_need q' \<le> weight pop_token ((threads s)[i := (threads s ! i)\<lparr>pc := p'\<rparr>])"
    using abq_doze_step(2) [OF adv' abq_live_at(2) [OF inv i]] by simp
qed

text \<open>
  Going to sleep on a disposed queue is possible only while the disposer waits for the lock.
\<close>

lemma abq_doze_disposed:
  assumes inv: "abq_live_inv s" and i: "i < length (threads s)"
    and adv: "abq_advance i (now s) (shared s) (pc (threads s ! i)) = Some (q', p', nt)"
    and doze: "abq_dozing p' \<noteq> None"
    and tok: "\<And>p. dispose_waits p \<le> tok p"
  shows "disposed_need q' \<le> weight tok ((threads s)[i := (threads s ! i)\<lparr>pc := p'\<rparr>])"
proof -
  have "stale (pc (threads s ! i))" and "disposed_need q' = disposed_need (shared s)"
    using abq_doze_step(3) [OF adv abq_live_at(2) [OF inv i] doze] by (simp_all add: disposed_need_def)
  with abq_race.doze_ready [of s i tok p'] inv i tok show ?thesis by (simp add: abq_live_inv_def)
qed

interpretation abq_dispose_empty: wakeups abq_machine abq_live_inv NotEmpty 0 dispose_empty_token disposed_need
proof
  fix p p' :: "'a abq_pc" and s :: "('a bq_op, 'a abq, 'a abq_pc) sys" and i q' nt
  show "resting abq_machine p \<Longrightarrow> dispose_empty_token p = 0" by (cases p) auto
  show "dozing abq_machine p = Some NotEmpty \<Longrightarrow>
      dispose_empty_token (rouse abq_machine p) = dispose_empty_token p + 0"
    by (auto elim!: abq_dozing.elims)
  show "dozing abq_machine p \<noteq> None \<Longrightarrow> dozing abq_machine p \<noteq> Some NotEmpty \<Longrightarrow>
      dispose_empty_token (rouse abq_machine p) = dispose_empty_token p"
    by (auto elim!: abq_dozing.elims)
  assume inv: "abq_live_inv s" and i: "i < length (threads s)"
    and adv: "advance abq_machine i (now s) (shared s) (pc (threads s ! i)) = Some (q', p', nt)"
  then have adv': "abq_advance i (now s) (shared s) (pc (threads s ! i)) = Some (q', p', nt)" by simp
  show "nt \<noteq> WakeAll NotEmpty \<Longrightarrow> disposed_need q' + dispose_empty_token (pc (threads s ! i))
      \<le> disposed_need (shared s) + dispose_empty_token p' + 0 * woken_by NotEmpty nt"
    using abq_disposed_need_step(1) [OF adv'] by simp
  have "dispose_waits p \<le> dispose_empty_token p" for p :: "'a abq_pc" by (cases p) auto
  then show "dozing abq_machine p' = Some NotEmpty \<Longrightarrow>
      disposed_need q' \<le> weight dispose_empty_token ((threads s)[i := (threads s ! i)\<lparr>pc := p'\<rparr>])"
    using abq_doze_disposed [OF inv i adv', of dispose_empty_token] by simp
qed

interpretation abq_dispose_full: wakeups abq_machine abq_live_inv NotFull 0 dispose_full_token disposed_need
proof
  fix p p' :: "'a abq_pc" and s :: "('a bq_op, 'a abq, 'a abq_pc) sys" and i q' nt
  show "resting abq_machine p \<Longrightarrow> dispose_full_token p = 0" by (cases p) auto
  show "dozing abq_machine p = Some NotFull \<Longrightarrow>
      dispose_full_token (rouse abq_machine p) = dispose_full_token p + 0"
    by (auto elim!: abq_dozing.elims)
  show "dozing abq_machine p \<noteq> None \<Longrightarrow> dozing abq_machine p \<noteq> Some NotFull \<Longrightarrow>
      dispose_full_token (rouse abq_machine p) = dispose_full_token p"
    by (auto elim!: abq_dozing.elims)
  assume inv: "abq_live_inv s" and i: "i < length (threads s)"
    and adv: "advance abq_machine i (now s) (shared s) (pc (threads s ! i)) = Some (q', p', nt)"
  then have adv': "abq_advance i (now s) (shared s) (pc (threads s ! i)) = Some (q', p', nt)" by simp
  show "nt \<noteq> WakeAll NotFull \<Longrightarrow> disposed_need q' + dispose_full_token (pc (threads s ! i))
      \<le> disposed_need (shared s) + dispose_full_token p' + 0 * woken_by NotFull nt"
    using abq_disposed_need_step(2) [OF adv'] by simp
  have "dispose_waits p \<le> dispose_full_token p" for p :: "'a abq_pc" by (cases p) auto
  then show "dozing abq_machine p' = Some NotFull \<Longrightarrow>
      disposed_need q' \<le> weight dispose_full_token ((threads s)[i := (threads s ! i)\<lparr>pc := p'\<rparr>])"
    using abq_doze_disposed [OF inv i adv', of dispose_full_token] by simp
qed

section \<open>No thread is stuck\<close>

definition abq_rightly_asleep :: "'a abq \<Rightarrow> 'a abq_pc \<Rightarrow> bool" where
  "abq_rightly_asleep q p \<longleftrightarrow>
     (abq_dozing p = Some NotFull \<and> \<not> disposed q \<and> is_full q)
     \<or> (abq_dozing p = Some NotEmpty \<and> \<not> disposed q \<and> buf q = [])"

text \<open>With the lock free or its own, an awake thread inside a call can act.\<close>

lemma abq_advance_enabled:
  assumes "abq_point q p" and "abq_holds p \<or> owner q = None" and "\<not> abq_resting p" and "abq_dozing p = None"
  shows "abq_advance i t q p \<noteq> None"
proof (cases p)
  case (PushAt pt x tm)
  then show ?thesis
    using assms by (cases tm; cases pt) (auto simp: abq_lock_def abq_points)
next
  case (PopAt pt tm)
  then show ?thesis
    using assms by (cases tm; cases pt) (auto simp: abq_lock_def abq_points)
next
  case (TryPushAt pt x) then show ?thesis using assms by (cases pt) (auto simp: abq_lock_def)
next
  case (TryPopAt pt) then show ?thesis using assms by (cases pt) (auto simp: abq_lock_def)
next
  case (DrainAt b) then show ?thesis using assms by (cases b) (auto simp: abq_lock_def Let_def)
next
  case (DisposeAt pt) then show ?thesis using assms by (cases pt) (auto simp: abq_lock_def)
next
  case (SizeAt b) then show ?thesis using assms by (cases b) (auto simp: abq_lock_def)
qed (use assms in \<open>auto split: prod.splits option.splits\<close>)

lemma abq_stuck_threads:
  assumes inv: "abq_live_inv s" and stuck: "\<And>i ks. exec abq_machine (Run i ks) s = None"
    and i: "i < length (threads s)"
  shows "abq_resting (pc (threads s ! i)) \<or> abq_dozing (pc (threads s ! i)) \<noteq> None"
proof (rule ccontr)
  assume active: "\<not> ?thesis"
  have none: "abq_advance j (now s) (shared s) (pc (threads s ! j)) = None" if "j < length (threads s)" for j
    using stuck_blocked [OF stuck that] by simp
  show False
  proof (cases "owner (shared s)")
    case None
    with abq_advance_enabled [OF abq_live_at(2) [OF inv i]] active none [OF i] show False by blast
  next
    case (Some j)
    with inv have j: "j < length (threads s)" and "abq_holds (pc (threads s ! j))"
      by (auto simp: abq_live_inv_def dest!: abq_inv_owns simp: all_threads_def owns_def)
    moreover from this(2) have "\<not> abq_resting (pc (threads s ! j))" "abq_dozing (pc (threads s ! j)) = None"
      using abq_lock.holds_active [of "pc (threads s ! j)"] by auto
    ultimately show False
      using abq_advance_enabled [OF abq_live_at(2) [OF inv j]] none [OF j] by blast
  qed
qed

definition abq_covered :: "('a bq_op, 'a abq, 'a abq_pc) sys \<Rightarrow> bool" where
  "abq_covered s \<longleftrightarrow> abq_live_inv s
     \<and> covered abq_machine NotFull push_token push_need s
     \<and> covered abq_machine NotEmpty pop_token pop_need s
     \<and> covered abq_machine NotEmpty dispose_empty_token disposed_need s
     \<and> covered abq_machine NotFull dispose_full_token disposed_need s"

lemma abq_covered_exec: "abq_covered s \<Longrightarrow> exec abq_machine l s = Some t \<Longrightarrow> abq_covered t"
  unfolding abq_covered_def
  using abq_live_inv_exec abq_not_full.exec_covered abq_not_empty.exec_covered
    abq_dispose_empty.exec_covered abq_dispose_full.exec_covered by blast

lemma abq_covered_start:
  assumes "n < usize_mod" and "s = abq_start c n"
  shows "abq_covered s"
  using abq_live_inv_start [OF assms] assms(2)
  by (simp add: abq_covered_def covered_def sleeping_def abq_start_def)

lemma abq_covered_run:
  "run abq_machine ls (abq_start c n) = Some s \<Longrightarrow> n < usize_mod \<Longrightarrow> abq_covered s"
  using run_invariant [of abq_covered abq_machine ls] abq_covered_exec abq_covered_start by blast

lemma abq_quiet_weights:
  assumes "abq_resting p \<or> abq_dozing p \<noteq> None"
  shows "push_token p = 0 \<and> pop_token p = 0 \<and> dispose_empty_token p = 0 \<and> dispose_full_token p = 0"
  using assms by (auto elim!: abq_resting.elims abq_dozing.elims)

lemma abq_quiet_asleep:
  assumes cov: "abq_covered s" and i: "i < length (threads s)"
    and quiet: "\<And>j. j < length (threads s) \<Longrightarrow>
      abq_resting (pc (threads s ! j)) \<or> abq_dozing (pc (threads s ! j)) \<noteq> None"
  shows "abq_resting (pc (threads s ! i)) \<or> abq_rightly_asleep (shared s) (pc (threads s ! i))"
proof (cases "abq_dozing (pc (threads s ! i))")
  case None
  then show ?thesis using quiet [OF i] by simp
next
  case (Some cv)
  have asleep: "sleeping abq_machine cv (threads s) > 0"
    unfolding sleeping_def weight_pos_iff using i Some by auto
  have "weight push_token (threads s) = 0" "weight pop_token (threads s) = 0"
    "weight dispose_empty_token (threads s) = 0" "weight dispose_full_token (threads s) = 0"
    using abq_quiet_weights [OF quiet] by (auto intro: weight_zero)
  with cov asleep have "disposed_need (shared s) = 0"
    and "cv = NotFull \<Longrightarrow> push_need (shared s) = 0" and "cv = NotEmpty \<Longrightarrow> pop_need (shared s) = 0"
    by (cases cv; auto simp: abq_covered_def covered_def)+
  with Some show ?thesis
    by (cases cv) (auto simp: abq_rightly_asleep_def disposed_need_def push_need_def pop_need_def)
qed

end
