(* ===== verification/ArrayProps.thy ===== *)
theory ArrayProps
  imports ArrayWake
begin

text \<open>
  The properties of the array queue, each over an arbitrary schedule \<open>ls\<close> of calls, actions,
  spurious wake-ups and clock ticks of \<open>n\<close> threads around a new queue, with a concrete
  schedule as its witness.
\<close>

section \<open>The rank of a program point\<close>

fun abq_rank :: "'a abq_pc \<Rightarrow> nat" where
  "abq_rank (PushAt pt x tm) = wait_rank pt + 5"
| "abq_rank (PopAt pt tm) = wait_rank pt + 5"
| "abq_rank (TryPushAt pt x) = (case pt of TryEnter \<Rightarrow> 7 | Try1 \<Rightarrow> 6 | Try2 \<Rightarrow> 5)"
| "abq_rank (TryPopAt pt) = (case pt of TryEnter \<Rightarrow> 7 | Try1 \<Rightarrow> 6 | Try2 \<Rightarrow> 5)"
| "abq_rank (EnqCommit x) = 4"
| "abq_rank DeqCommit = 4"
| "abq_rank (SignalAt s r) = 1 + of_bool (signal_not_empty s) + of_bool (signal_not_full s)"
| "abq_rank (DrainAt b) = (if b then 2 else 3)"
| "abq_rank (DrainSignal b xs) = 1"
| "abq_rank (DisposeAt pt) =
     (case pt of DisposeCas \<Rightarrow> 5 | DisposeLock \<Rightarrow> 4 | DisposeUnlock \<Rightarrow> 3 | DisposeNotEmpty \<Rightarrow> 2
       | DisposeNotFull \<Rightarrow> 1)"
| "abq_rank (SizeAt b) = (if b then 2 else 3)"
| "abq_rank CapacityAt = 1"
| "abq_rank IsDisposedAt = 1"
| "abq_rank (Return r) = 1"
| "abq_rank p = 0"

interpretation abq_rank: ranked abq_machine "\<lambda>_. True" abq_rank 12
proof
  fix s :: "('a bq_op, 'a abq, 'a abq_pc) sys" and i p' nt and q' :: "'a abq"
  assume "advance abq_machine i (now s) (shared s) (pc (threads s ! i)) = Some (q', p', nt)"
  then have "abq_advance i (now s) (shared s) (pc (threads s ! i)) = Some (q', p', nt)" by simp
  then show "abq_rank p' < abq_rank (pc (threads s ! i))"
    by (cases rule: abq_step_cases; (elim abq_elims)?; auto simp: abq_defs split: if_splits list.splits)
next
  fix p :: "'a abq_pc"
  show "dozing abq_machine p \<noteq> None \<Longrightarrow> abq_rank (rouse abq_machine p) \<le> 12"
    by (auto elim!: abq_dozing.elims)
qed simp

lemma abq_entry_rank: "abq_rank (abq_entry op) \<le> 15"
  by (cases op) auto

section \<open>Schedules for the witnesses\<close>

lemmas abq_eval = acts_def abq_start_def abq_fresh_def boot_def ensure_capacity_def abq_defs
  waiters_new_def waiters_enter_def waiters_leave_def waiters_any_def wrap_add_def wrap_sub_def
  usize_mod_def usize_max_def sleepers_def rouse_all_def replicate_numeral upt_rec

text \<open>
  A full queue of capacity one: thread 0 pushes 5, thread 1 sleeps pushing 6, thread 2 pops
  and wakes it.
\<close>

definition blocked_push :: "nat bq_op label list" where
  "blocked_push = Call 0 (OpPush 5) # acts 0 6 @ Call 1 (OpPush 6) # acts 1 6"

definition handed_over :: "nat bq_op label list" where
  "handed_over = blocked_push @ Call 2 OpPop # acts 2 5 @ Run 2 [1] # Run 2 [] # acts 1 7"

text \<open>A pop that times out, and a push after disposal.\<close>

definition expired_pop :: "nat bq_op label list" where
  "expired_pop = Call 0 (OpPopTimeout 5) # acts 0 7 @ Tick 6 # Spurious 0 # acts 0 7"

definition after_dispose :: "nat bq_op label list" where
  "after_dispose = Call 0 (OpPush 5) # acts 0 6 @ Call 1 OpDispose # acts 1 5"

definition refused_push :: "nat bq_op label list" where
  "refused_push = Call 0 (OpPush 7) # acts 0 4 @ Call 1 OpTryPop # acts 1 4"

lemma blocked_push_run:
  "\<exists>s. run abq_machine blocked_push (abq_start 1 3) = Some s
    \<and> map pc (threads s) = [Done (PushRes (Inr ())), PushAt Asleep 6 Untimed, Idle]"
  by (simp add: abq_eval blocked_push_def)

lemma handed_over_run:
  "\<exists>s. run abq_machine handed_over (abq_start 1 3) = Some s
    \<and> map pc (threads s) = [Done (PushRes (Inr ())), Done (PushRes (Inr ())), Done (PopRes (Inr 5))]"
  by (simp add: abq_eval blocked_push_def handed_over_def)

lemma expired_pop_run:
  "\<exists>s. run abq_machine expired_pop (abq_start 1 1) = Some s
    \<and> map pc (threads s) = [Done (PopRes (Inl Timeout))] \<and> length (threads s) = 1"
  by (simp add: abq_eval expired_pop_def)

lemma after_dispose_run:
  "\<exists>s t. run abq_machine after_dispose (abq_start 0 2) = Some s \<and> disposed (shared s)
    \<and> run abq_machine refused_push s = Some t
    \<and> map pc (threads t) = [Done (PushRes (Inl (ResourceUnavailable, 7))), Done (PopRes (Inr 5))]"
  by (simp add: abq_eval after_dispose_def refused_push_def)

section \<open>Linearizability\<close>

text \<open>
  C1. The array queue is linearizable. In any run, the linearization points of the calls, in
  order, are a run of the sequential bounded queue \<open>bq_spec\<close> from the empty open queue to
  the current one; every thread's events alternate between a call and at most one
  linearization of that same operation, made before the thread's next call; and the result a
  call returns (\<open>Done r\<close>) is the one it was linearized with.
\<close>

theorem abq_linearizable:
  assumes "run abq_machine ls (abq_start c n) = Some s"
  defines "h \<equiv> history abq_machine abq_decided ls (abq_start c n)"
  shows "replay bq_spec h \<lparr>items = [], closed = False, bound = ensure_capacity c\<rparr> = Some (abq_abs s)
    \<and> (\<forall>i < n. thread_phase i h (None, None)
        = Some (cur (threads s ! i), abq_decided (shared s) (pc (threads s ! i))))"
proof -
  have "abq_abs (abq_start c n :: ('a bq_op, 'a abq, 'a abq_pc) sys)
      = \<lparr>items = [], closed = False, bound = ensure_capacity c\<rparr>"
    by (simp add: abq_abs_def abq_view_def abq_pendings_def abq_start_def abq_fresh_def)
  with abq_history_replays [OF assms(1)]
  have "replay bq_spec h \<lparr>items = [], closed = False, bound = ensure_capacity c\<rparr> = Some (abq_abs s)"
    by (simp add: h_def)
  moreover have "thread_phase i h (None, None)
      = Some (cur (threads s ! i), abq_decided (shared s) (pc (threads s ! i)))" if "i < n" for i
    using abq_lin.phase_run [OF abq_inv_start assms(1), of i] that by (simp add: h_def abq_start_def)
  ultimately show ?thesis by blast
qed

theorem abq_linearizable_witness:
  "\<exists>s. run abq_machine handed_over (abq_start 1 3) = Some s
    \<and> map pc (threads s) = [Done (PushRes (Inr ())), Done (PushRes (Inr ())), Done (PopRes (Inr 5))]
    \<and> replay bq_spec (history abq_machine abq_decided handed_over (abq_start 1 3))
        \<lparr>items = [], closed = False, bound = 1\<rparr> = Some (abq_abs s)"
  using handed_over_run abq_linearizable [of handed_over 1 3] by (auto simp: ensure_capacity_def)

text \<open>
  C3. First in, first out, nothing lost and nothing duplicated: in any run, the items pushed so
  far, in the order the pushes took effect, are the items taken so far (popped or drained, in
  that order) followed by the deque and the item of a push that is committed but not yet
  stored; and there are never more than the capacity.
\<close>

theorem abq_fifo:
  assumes "run abq_machine ls (abq_start c n) = Some s"
  defines "h \<equiv> history abq_machine abq_decided ls (abq_start c n)"
  shows "pushed h = taken h @ buf (shared s) @ abq_pendings s
    \<and> length (buf (shared s) @ abq_pendings s) \<le> ensure_capacity c"
proof -
  have "items (abq_abs (abq_start c n :: ('a bq_op, 'a abq, 'a abq_pc) sys)) = []"
    "bound (abq_abs (abq_start c n :: ('a bq_op, 'a abq, 'a abq_pc) sys)) = ensure_capacity c"
    by (simp_all add: abq_abs_def abq_view_def abq_pendings_def abq_start_def abq_fresh_def)
  with bq.replay_items [OF abq_history_replays [OF assms(1)]] show ?thesis
    by (simp add: h_def) (simp add: abq_abs_def abq_view_def)
qed

theorem abq_fifo_witness:
  "\<exists>s. run abq_machine handed_over (abq_start 1 3) = Some s
    \<and> pushed (history abq_machine abq_decided handed_over (abq_start 1 3))
      = taken (history abq_machine abq_decided handed_over (abq_start 1 3)) @ buf (shared s) @ abq_pendings s"
  using handed_over_run abq_fifo [of handed_over 1 3] by blast

section \<open>Safety\<close>

text \<open>
  C4. No call panics (neither the \<open>expect\<close> of \<open>de_q_commit\<close> nor the \<open>debug_assert!\<close> of
  \<open>pop\<close>), the deque never exceeds the capacity, which never changes, and at most one
  thread is inside the mutex.
\<close>

theorem abq_no_panic:
  assumes "run abq_machine ls (abq_start c n) = Some s"
  shows "(\<forall>i < n. pc (threads s ! i) \<noteq> Panicked)
    \<and> capacity (shared s) = ensure_capacity c \<and> length (buf (shared s)) \<le> ensure_capacity c
    \<and> (\<forall>i < n. \<forall>j < n. abq_holds (pc (threads s ! i)) \<and> abq_holds (pc (threads s ! j)) \<longrightarrow> i = j)"
proof -
  have len: "length (threads s) = n" using run_length [OF assms] by (simp add: abq_start_def)
  have inv: "abq_inv s" using assms by (rule abq_inv_run)
  have "pc (threads s ! i) \<noteq> Panicked" if "i < n" for i
    using inv that len by (force simp: abq_inv_def all_threads_def abq_safe_def)
  moreover have "capacity (shared s) = ensure_capacity c"
    using bq.replay_items [OF abq_history_replays [OF assms]]
    by (simp add: abq_abs_def abq_view_def abq_start_def abq_fresh_def)
  moreover have "length (buf (shared s)) \<le> capacity (shared s)"
    using inv by (simp add: abq_inv_def abq_shared_ok_def)
  ultimately show ?thesis
    using abq_lock.mutual_exclusion [OF abq_inv_owns [OF inv]] len by simp
qed

theorem abq_no_panic_witness:
  "\<exists>s. run abq_machine handed_over (abq_start 1 3) = Some s \<and> length (buf (shared s)) \<le> ensure_capacity 1
    \<and> pc (threads s ! 2) = Done (PopRes (Inr 5))"
proof -
  obtain s where s: "run abq_machine handed_over (abq_start 1 3) = Some s"
    "map pc (threads s) = [Done (PushRes (Inr ())), Done (PushRes (Inr ())), Done (PopRes (Inr 5))]"
    using handed_over_run by (elim exE conjE)
  from pcs_nth [OF s(2), of 2] have "pc (threads s ! 2) = Done (PopRes (Inr 5))" by simp
  with abq_no_panic [OF s(1)] s(1) show ?thesis by blast
qed

section \<open>Progress\<close>

text \<open>
  C2. No wake-up is lost and there is no deadlock: when no thread can take any action, every
  thread is outside the queue or rightly asleep, a pusher on a full open queue or a
  popper on an empty open queue. In particular nobody sleeps on a disposed queue.
\<close>

theorem abq_no_lost_wakeup:
  assumes "run abq_machine ls (abq_start c n) = Some s" and "n < usize_mod"
    and stuck: "\<And>i ks. exec abq_machine (Run i ks) s = None" and i: "i < n"
  shows "abq_resting (pc (threads s ! i)) \<or> abq_rightly_asleep (shared s) (pc (threads s ! i))"
proof (rule abq_quiet_asleep)
  have len: "length (threads s) = n" using run_length [OF assms(1)] by (simp add: abq_start_def)
  show cov: "abq_covered s" using assms(1,2) by (rule abq_covered_run)
  then have live: "abq_live_inv s" by (simp add: abq_covered_def)
  show "i < length (threads s)" using i len by simp
  fix j assume "j < length (threads s)"
  with abq_stuck_threads [OF live stuck] show
    "abq_resting (pc (threads s ! j)) \<or> abq_dozing (pc (threads s ! j)) \<noteq> None" by blast
qed

theorem abq_no_lost_wakeup_witness:
  "\<exists>s. run abq_machine blocked_push (abq_start 1 3) = Some s
    \<and> abq_rightly_asleep (shared s) (PushAt Asleep 6 Untimed)"
proof -
  obtain s where s: "run abq_machine blocked_push (abq_start 1 3) = Some s"
    "map pc (threads s) = [Done (PushRes (Inr ())), PushAt Asleep 6 Untimed, Idle]"
    using blocked_push_run by (elim exE conjE)
  from arg_cong [OF s(2), of length] pcs_nth [OF s(2), of 0] pcs_nth [OF s(2), of 1] pcs_nth [OF s(2), of 2]
  have pcs: "length (threads s) = 3" "pc (threads s ! 0) = Done (PushRes (Inr ()))"
    "pc (threads s ! 1) = PushAt Asleep 6 Untimed" "pc (threads s ! 2) = Idle"
    by simp_all
  have "exec abq_machine (Run i ks) s = None" for i ks
  proof (cases "i < 3")
    case True
    then have "i = 0 \<or> i = 1 \<or> i = 2" by auto
    then have "advance abq_machine i (now s) (shared s) (pc (threads s ! i)) = None" using pcs by auto
    then show ?thesis by simp
  qed (simp add: pcs(1))
  moreover have "(3::nat) < usize_mod" by (simp add: usize_mod_def)
  ultimately have "abq_rightly_asleep (shared s) (pc (threads s ! 1))"
    using abq_no_lost_wakeup [OF s(1), of 1] pcs(3) by simp
  with s(1) pcs(3) show ?thesis by auto
qed

text \<open>
  Every call is short: between two calls of thread \<open>i\<close> the actions it takes are at most
  fifteen, plus twelve for each time it is woken from sleep (so a loop of spurious
  wake-ups is the only way to a longer call).
\<close>

lemma abq_call_bounded:
  assumes "run abq_machine ls (abq_start c n) = Some s" and "exec abq_machine (Call i op) s = Some t"
    and "run abq_machine ms t = Some u" and "\<forall>l \<in> set ms. \<not> calls i l"
  shows "own_steps i ms \<le> 15 + 12 * wakes abq_machine i ms t"
proof -
  have "i < length (threads t)" "pc (threads t ! i) = abq_entry op"
    using assms(2) by (auto split: if_splits)
  with abq_rank.run_ranked [OF assms(3) _ _ assms(4)] abq_entry_rank [of op] show ?thesis by fastforce
qed

section \<open>Disposal, results and timeouts\<close>

text \<open>
  C5. Disposal is final: from a state where the queue is disposed, whatever runs next, the
  queue stays disposed, no push takes effect, and the pops and drains hand out, in order, a
  prefix of what the queue held.
\<close>

theorem abq_dispose_final:
  assumes "run abq_machine ls (abq_start c n) = Some s" and "disposed (shared s)"
    and "run abq_machine ms s = Some t"
  defines "h \<equiv> history abq_machine abq_decided ms s"
  shows "disposed (shared t) \<and> pushed h = []
    \<and> buf (shared s) @ abq_pendings s = taken h @ buf (shared t) @ abq_pendings t"
  using bq.replay_items [OF abq_lin.replay_run [OF abq_inv_run [OF assms(1)] assms(3)]] assms(2)
    bq.replay_closed [OF abq_lin.replay_run [OF abq_inv_run [OF assms(1)] assms(3)]]
  by (auto simp: h_def abq_abs_def abq_view_def)

theorem abq_dispose_final_witness:
  "\<exists>s t. run abq_machine after_dispose (abq_start 0 2) = Some s \<and> run abq_machine refused_push s = Some t
    \<and> disposed (shared t) \<and> pushed (history abq_machine abq_decided refused_push s) = []"
  using after_dispose_run abq_dispose_final [of after_dispose 0 2 _ refused_push] by blast

text \<open>
  C6. Results: a returned call answers with a result of its own operation; a refused push
  hands back exactly the item it was given; \<open>Timeout\<close> is reported only by the timed
  operations, and only after more than the given duration has passed since the call.
\<close>

theorem abq_results:
  assumes "run abq_machine ls (abq_start c n) = Some s" and "i < n" and "pc (threads s ! i) = Done r"
  shows "\<exists>op. cur (threads s ! i) = Some op \<and> bq_answers op r
    \<and> (timed_out_res r \<longrightarrow> (\<exists>d. op_limit op = Some d \<and> called (threads s ! i) + d < now s))"
proof -
  have "length (threads s) = n" using run_length [OF assms(1)] by (simp add: abq_start_def)
  then have "abq_call i (now s) (shared s) (threads s ! i)"
    using abq_inv_run [OF assms(1)] assms(2) by (simp add: abq_inv_def all_threads_def)
  with assms(3) show ?thesis by (auto simp: abq_call_def expired_def)
qed

theorem abq_results_witness:
  "\<exists>s d. run abq_machine expired_pop (abq_start 1 1) = Some s \<and> cur (threads s ! 0) = Some (OpPopTimeout d)
    \<and> called (threads s ! 0) + d < now s"
proof -
  obtain s where s: "run abq_machine expired_pop (abq_start 1 1) = Some s"
    "map pc (threads s) = [Done (PopRes (Inl Timeout))]" "length (threads s) = 1"
    using expired_pop_run by (elim exE conjE)
  from pcs_nth [OF s(2), of 0] have "pc (threads s ! 0) = Done (PopRes (Inl Timeout))" by simp
  from abq_results [OF s(1) _ this] obtain op where "cur (threads s ! 0) = Some op"
    "bq_answers op (PopRes (Inl Timeout))" "\<exists>d. op_limit op = Some d \<and> called (threads s ! 0) + d < now s"
    by auto
  with s(1) show ?thesis by (cases op) auto
qed

section \<open>Waiter counters and construction\<close>

text \<open>
  The waiter counters, which wrap like \<open>AtomicUsize\<close>, never do: at any time each is
  exactly the number of threads inside the wait of a push (of a pop), sleeping or awake.
\<close>

lemma abq_waiters_exact:
  assumes "run abq_machine ls (abq_start c n) = Some s" and "n < usize_mod"
  shows "waiters_count (push_waiters (shared s)) = inside push_section (threads s)
    \<and> waiters_count (pop_waiters (shared s)) = inside pop_section (threads s)
    \<and> inside push_section (threads s) \<le> n \<and> inside pop_section (threads s) \<le> n"
proof -
  have "length (threads s) = n" using run_length [OF assms(1)] by (simp add: abq_start_def)
  with abq_run_counts [OF assms] inside_le [of push_section "threads s"] inside_le [of pop_section "threads s"]
  show ?thesis by (simp add: waiters_count_def)
qed

text \<open>
  Construction: \<open>ArrayBQ::new\<close> panics exactly when a bounded queue's buffer would exceed
  \<open>isize::MAX\<close> bytes; capacity 0 always succeeds and gives the unbounded queue; a
  successful construction is the open empty queue of that capacity; and \<open>create_bq\<close> panics
  for the lock-free kind.
\<close>

lemma abq_new_result:
  "(abq_new size_t c = (None :: 'a abq option) \<longleftrightarrow> c \<noteq> 0 \<and> c \<noteq> usize_max \<and> isize_max < c * size_t)
    \<and> (abq_new size_t c = Some (q :: 'a abq) \<longrightarrow>
        capacity q = (if c = 0 then usize_max else c) \<and> buf q = [] \<and> \<not> disposed q \<and> owner q = None)
    \<and> create_bq (abq_new size_t) linked_new Array c = map_option Inl (abq_new size_t c :: 'a abq option)
    \<and> create_bq (abq_new size_t :: nat \<Rightarrow> 'a abq option) linked_new LockFree c = None"
  by (auto simp: abq_new_def abq_fresh_def ensure_capacity_def create_bq_def Let_def)

end
