(* ===== verification/LinkedBQ.thy ===== *)
theory LinkedBQ
  imports Waits
begin

text \<open>
  The linked queue (\<open>crates/hio-concurrent/src/bq/linked_bq.rs\<close>): a singly linked list behind
  a dummy node, a lock for each end, and an atomic count that both ends share. Pushers and
  poppers run concurrently, so every access to \<open>count\<close>, \<open>disposed\<close>, the list and the two locks is an
  action of its own. The heap is a map from addresses to nodes; \<open>Box\<close> allocation takes a
  fresh address, \<open>Box::from_raw\<close> of an unlinked node removes it. Dereferencing an address
  that is not in the heap is undefined behaviour, the point \<open>LFault\<close>; a failed
  \<open>debug_assert!\<close> or \<open>expect\<close> is \<open>LPanicked\<close>.
\<close>

section \<open>State and program points\<close>

record 'a Node =
  item :: "'a option"
  next_node :: "nat option"

definition new_node :: "'a option \<Rightarrow> 'a Node" where
  "new_node x = \<lparr>item = x, next_node = None\<rparr>"

definition dummy_node :: "'a Node" where
  "dummy_node = new_node None"

text \<open>
  \<open>PopSide\<close> is \<open>pop_lock\<close>, \<open>pop_side_waiters\<close> and \<open>head\<close>; \<open>PushSide\<close> is \<open>push_lock\<close>,
  \<open>push_side_waiters\<close> and \<open>tail\<close>; their condition variables are \<open>NotEmpty\<close> and \<open>NotFull\<close>.
\<close>

record 'a lbq =
  lcapacity :: nat
  count :: nat
  ldisposed :: bool
  pop_lock :: "tid option"
  pop_side_waiters :: cond_waiters
  head :: nat
  push_lock :: "tid option"
  push_side_waiters :: cond_waiters
  tail :: nat
  heap :: "nat \<Rightarrow> 'a Node option"
  fresh :: nat

text \<open>Lock, test the waiters and notify, unlock: \<open>signal_not_empty\<close> and \<open>signal_not_full\<close>.\<close>

datatype sig_point = SigLock | SigTest | SigUnlock

datatype ldispose_point =
    LDisposeCas
  | PopSideLock | PopSideNotify | PopSideUnlock
  | PushSideLock | PushSideNotify | PushSideUnlock

datatype 'a lbq_pc =
    LIdle | LDone "'a bq_res" | LPanicked | LFault
  | LPushAt wait_point 'a timing
  | LTryPushAt try_point 'a
  | EnqAlloc 'a | EnqAssert 'a nat | EnqLink 'a nat | EnqCount 'a | EnqNotify nat | EnqUnlock nat
  | SigEmpty sig_point
  | LPopAt wait_point timing
  | LTryPopAt try_point
  | DeqUnlink | DeqCount 'a | DeqNotify nat 'a | DeqUnlock nat 'a
  | SigFull sig_point 'a
  | DrainLock | DrainLoad | DrainLoop nat "'a list" | DrainCount nat "'a list"
  | DrainUnlock nat "'a list" | DrainWake sig_point "'a list"
  | LDisposeAt ldispose_point
  | LSizeAt | LCapacityAt | LIsDisposedAt
  | ReturnPush "'a bq_res" | ReturnPop "'a bq_res"

type_synonym 'a lbq_step = "('a lbq \<times> 'a lbq_pc \<times> cv notice) option"

text \<open>The constructor: the dummy node is the first allocation.\<close>

definition lbq_new :: "nat \<Rightarrow> 'a lbq" where
  "lbq_new capacity =
     \<lparr>lcapacity = ensure_capacity capacity, count = 0, ldisposed = False,
      pop_lock = None, pop_side_waiters = waiters_new, head = 0,
      push_lock = None, push_side_waiters = waiters_new, tail = 0,
      heap = (\<lambda>_. None)(0 := Some dummy_node), fresh = 1\<rparr>"

definition lock_push :: "tid \<Rightarrow> 'a lbq \<Rightarrow> 'a lbq_pc \<Rightarrow> 'a lbq_step" where
  "lock_push i q p = (if push_lock q = None then Some (q\<lparr>push_lock := Some i\<rparr>, p, Quiet) else None)"

definition lock_pop :: "tid \<Rightarrow> 'a lbq \<Rightarrow> 'a lbq_pc \<Rightarrow> 'a lbq_step" where
  "lock_pop i q p = (if pop_lock q = None then Some (q\<lparr>pop_lock := Some i\<rparr>, p, Quiet) else None)"

definition lis_empty :: "'a lbq \<Rightarrow> bool" where
  "lis_empty q \<longleftrightarrow> count q = 0"

definition lis_full :: "'a lbq \<Rightarrow> bool" where
  "lis_full q \<longleftrightarrow> count q \<ge> lcapacity q"

section \<open>Signals\<close>

fun signal_not_empty_step :: "tid \<Rightarrow> 'a lbq \<Rightarrow> sig_point \<Rightarrow> 'a lbq_step" where
  "signal_not_empty_step i q SigLock = lock_pop i q (SigEmpty SigTest)"
| "signal_not_empty_step i q SigTest =
     Some (q, SigEmpty SigUnlock, if waiters_any (pop_side_waiters q) then Wake 1 NotEmpty else Quiet)"
| "signal_not_empty_step i q SigUnlock = Some (q\<lparr>pop_lock := None\<rparr>, LDone (PushRes (Inr ())), Quiet)"

fun signal_not_full_step :: "tid \<Rightarrow> 'a lbq \<Rightarrow> sig_point \<Rightarrow> 'a \<Rightarrow> 'a lbq_step" where
  "signal_not_full_step i q SigLock x = lock_push i q (SigFull SigTest x)"
| "signal_not_full_step i q SigTest x =
     Some (q, SigFull SigUnlock x, if waiters_any (push_side_waiters q) then Wake 1 NotFull else Quiet)"
| "signal_not_full_step i q SigUnlock x = Some (q\<lparr>push_lock := None\<rparr>, LDone (PopRes (Inr x)), Quiet)"

section \<open>Linking and unlinking\<close>

text \<open>
  \<open>en_q\<close>, after \<open>Node::new\<close>: the assertion, the two pointer writes (the tail is touched
  under the push lock only, and the node it points to is read by a popper only once it is
  counted), the count, the cascade, the unlock, and the signal when the queue was empty.
\<close>

definition en_q_alloc :: "'a lbq \<Rightarrow> 'a \<Rightarrow> 'a lbq \<times> 'a lbq_pc" where
  "en_q_alloc q x =
     (q\<lparr>heap := (heap q)(fresh q := Some (new_node (Some x))), fresh := fresh q + 1\<rparr>, EnqAssert x (fresh q))"

definition en_q_link :: "'a lbq \<Rightarrow> 'a \<Rightarrow> nat \<Rightarrow> 'a lbq \<times> 'a lbq_pc" where
  "en_q_link q x a =
     (case heap q (tail q) of
        None \<Rightarrow> (q\<lparr>push_lock := None\<rparr>, LFault)
      | Some n \<Rightarrow> (q\<lparr>heap := (heap q)(tail q := Some (n\<lparr>next_node := Some a\<rparr>)), tail := a\<rparr>, EnqCount x))"

definition en_q_count :: "'a lbq \<Rightarrow> 'a lbq \<times> 'a lbq_pc" where
  "en_q_count q = (q\<lparr>count := wrap_add usize_mod (count q) 1\<rparr>, EnqNotify (count q))"

definition en_q_notify :: "'a lbq \<Rightarrow> nat \<Rightarrow> cv notice" where
  "en_q_notify q prev =
     (if prev + 1 < lcapacity q \<and> waiters_any (push_side_waiters q) then Wake 1 NotFull else Quiet)"

text \<open>
  \<open>unlink_head\<close>: \<open>Inl p\<close> when it stops at the point \<open>p\<close>, else the item and the queue. The
  popper owns the head, the freed node and the item of the next node, so it is one action.
\<close>

definition unlink_head :: "'a lbq \<Rightarrow> 'a lbq_pc + ('a \<times> 'a lbq)" where
  "unlink_head q =
     (case heap q (head q) of
        None \<Rightarrow> Inl LFault
      | Some old \<Rightarrow>
          (case next_node old of
             None \<Rightarrow> Inl LPanicked
           | Some a \<Rightarrow>
               (case heap q a of
                  None \<Rightarrow> Inl LFault
                | Some n \<Rightarrow>
                    (case item n of
                       None \<Rightarrow> Inl LPanicked
                     | Some x \<Rightarrow>
                         Inr (x, q\<lparr>heap := (heap q)(a := Some (n\<lparr>item := None\<rparr>), head q := None),
                                  head := a\<rparr>)))))"

definition de_q_count :: "'a lbq \<Rightarrow> 'a \<Rightarrow> 'a lbq \<times> 'a lbq_pc" where
  "de_q_count q x = (q\<lparr>count := wrap_sub usize_mod (count q) 1\<rparr>, DeqNotify (count q) x)"

definition de_q_notify :: "'a lbq \<Rightarrow> nat \<Rightarrow> cv notice" where
  "de_q_notify q prev =
     (if prev > 1 \<and> waiters_any (pop_side_waiters q) then Wake 1 NotEmpty else Quiet)"

section \<open>The push methods\<close>

fun lpush_step :: "tid \<Rightarrow> 'a lbq \<Rightarrow> wait_point \<Rightarrow> 'a \<Rightarrow> 'a lbq_step" where
  "lpush_step i q Enter x = lock_push i q (LPushAt Check1 x Untimed)"
| "lpush_step i q Check1 x =
     Some (q, if ldisposed q then LPushAt (After False) x Untimed else LPushAt Check2 x Untimed, Quiet)"
| "lpush_step i q Check2 x =
     (if lis_full q
      then Some (q\<lparr>push_side_waiters := waiters_enter (push_side_waiters q)\<rparr>,
             LPushAt WaitDisposed x Untimed, Quiet)
      else Some (q, LPushAt (After False) x Untimed, Quiet))"
| "lpush_step i q WaitDisposed x =
     Some (q, if ldisposed q then LPushAt (Leave False) x Untimed else LPushAt WaitCond x Untimed, Quiet)"
| "lpush_step i q WaitCond x =
     Some (q, if lis_full q then LPushAt Doze x Untimed else LPushAt (Leave False) x Untimed, Quiet)"
| "lpush_step i q Doze x = Some (q\<lparr>push_lock := None\<rparr>, LPushAt Asleep x Untimed, Quiet)"
| "lpush_step i q Woken x = lock_push i q (LPushAt WaitDisposed x Untimed)"
| "lpush_step i q (Leave b) x =
     Some (q\<lparr>push_side_waiters := waiters_leave (push_side_waiters q)\<rparr>, LPushAt (After b) x Untimed, Quiet)"
| "lpush_step i q (After b) x =
     Some (q, if ldisposed q then ReturnPush (PushRes (Inl (ResourceUnavailable, x))) else EnqAlloc x, Quiet)"
| "lpush_step i q pt x = None"

fun lpush_timeout_step :: "tid \<Rightarrow> nat \<Rightarrow> 'a lbq \<Rightarrow> wait_point \<Rightarrow> 'a \<Rightarrow> nat \<Rightarrow> nat \<Rightarrow> 'a lbq_step" where
  "lpush_timeout_step i t q Enter x d st = lock_push i q (LPushAt Check1 x (Timed d st))"
| "lpush_timeout_step i t q Check1 x d st =
     Some (q, if ldisposed q then LPushAt (After False) x (Timed d st) else LPushAt Check2 x (Timed d st), Quiet)"
| "lpush_timeout_step i t q Check2 x d st =
     (if lis_full q
      then Some (q\<lparr>push_side_waiters := waiters_enter (push_side_waiters q)\<rparr>,
             LPushAt WaitDisposed x (Timed d t), Quiet)
      else Some (q, LPushAt (After False) x (Timed d st), Quiet))"
| "lpush_timeout_step i t q WaitDisposed x d st =
     Some (q, if ldisposed q then LPushAt (Leave False) x (Timed d st) else LPushAt WaitCond x (Timed d st), Quiet)"
| "lpush_timeout_step i t q WaitCond x d st =
     Some (q, if lis_full q then LPushAt WaitClock x (Timed d st) else LPushAt (Leave False) x (Timed d st), Quiet)"
| "lpush_timeout_step i t q WaitClock x d st =
     Some (q, if t - st > d then LPushAt (Leave True) x (Timed d st) else LPushAt Doze x (Timed d st), Quiet)"
| "lpush_timeout_step i t q Doze x d st = Some (q\<lparr>push_lock := None\<rparr>, LPushAt Asleep x (Timed d st), Quiet)"
| "lpush_timeout_step i t q Woken x d st = lock_push i q (LPushAt WaitDisposed x (Timed d st))"
| "lpush_timeout_step i t q (Leave b) x d st =
     Some (q\<lparr>push_side_waiters := waiters_leave (push_side_waiters q)\<rparr>, LPushAt (After b) x (Timed d st), Quiet)"
| "lpush_timeout_step i t q (After timed_out) x d st =
     Some (q,
       if timed_out then ReturnPush (PushRes (Inl (Timeout, x)))
       else if ldisposed q then ReturnPush (PushRes (Inl (ResourceUnavailable, x)))
       else EnqAlloc x, Quiet)"
| "lpush_timeout_step i t q pt x d st = None"

fun ltry_push_step :: "tid \<Rightarrow> 'a lbq \<Rightarrow> try_point \<Rightarrow> 'a \<Rightarrow> 'a lbq_step" where
  "ltry_push_step i q TryEnter x = lock_push i q (LTryPushAt Try1 x)"
| "ltry_push_step i q Try1 x =
     Some (q, if ldisposed q then ReturnPush (PushRes (Inl (ResourceUnavailable, x))) else LTryPushAt Try2 x, Quiet)"
| "ltry_push_step i q Try2 x =
     Some (q, if lis_full q then ReturnPush (PushRes (Inl (WouldBlock, x))) else EnqAlloc x, Quiet)"

section \<open>The pop methods\<close>

text \<open>\<open>After\<close> tests \<open>is_empty\<close>, \<open>After2\<close> is the \<open>debug_assert!\<close> (a panic, which drops the guard).\<close>

fun lpop_step :: "tid \<Rightarrow> 'a lbq \<Rightarrow> wait_point \<Rightarrow> 'a lbq_step" where
  "lpop_step i q Enter = lock_pop i q (LPopAt Check1 Untimed)"
| "lpop_step i q Check1 =
     Some (q, if ldisposed q then LPopAt (After False) Untimed else LPopAt Check2 Untimed, Quiet)"
| "lpop_step i q Check2 =
     (if lis_empty q
      then Some (q\<lparr>pop_side_waiters := waiters_enter (pop_side_waiters q)\<rparr>, LPopAt WaitDisposed Untimed, Quiet)
      else Some (q, LPopAt (After False) Untimed, Quiet))"
| "lpop_step i q WaitDisposed =
     Some (q, if ldisposed q then LPopAt (Leave False) Untimed else LPopAt WaitCond Untimed, Quiet)"
| "lpop_step i q WaitCond =
     Some (q, if lis_empty q then LPopAt Doze Untimed else LPopAt (Leave False) Untimed, Quiet)"
| "lpop_step i q WaitClock = None"
| "lpop_step i q Doze = Some (q\<lparr>pop_lock := None\<rparr>, LPopAt Asleep Untimed, Quiet)"
| "lpop_step i q Woken = lock_pop i q (LPopAt WaitDisposed Untimed)"
| "lpop_step i q (Leave b) =
     Some (q\<lparr>pop_side_waiters := waiters_leave (pop_side_waiters q)\<rparr>, LPopAt (After b) Untimed, Quiet)"
| "lpop_step i q (After b) = Some (q, if lis_empty q then LPopAt After2 Untimed else DeqUnlink, Quiet)"
| "lpop_step i q After2 =
     (if ldisposed q then Some (q, ReturnPop (PopRes (Inl ResourceUnavailable)), Quiet)
      else Some (q\<lparr>pop_lock := None\<rparr>, LPanicked, Quiet))"
| "lpop_step i q Asleep = None"

fun lpop_timeout_step :: "tid \<Rightarrow> nat \<Rightarrow> 'a lbq \<Rightarrow> wait_point \<Rightarrow> nat \<Rightarrow> nat \<Rightarrow> 'a lbq_step" where
  "lpop_timeout_step i t q Enter d st = lock_pop i q (LPopAt Check1 (Timed d st))"
| "lpop_timeout_step i t q Check1 d st =
     Some (q, if ldisposed q then LPopAt (After False) (Timed d st) else LPopAt Check2 (Timed d st), Quiet)"
| "lpop_timeout_step i t q Check2 d st =
     (if lis_empty q
      then Some (q\<lparr>pop_side_waiters := waiters_enter (pop_side_waiters q)\<rparr>, LPopAt WaitDisposed (Timed d t), Quiet)
      else Some (q, LPopAt (After False) (Timed d st), Quiet))"
| "lpop_timeout_step i t q WaitDisposed d st =
     Some (q, if ldisposed q then LPopAt (Leave False) (Timed d st) else LPopAt WaitCond (Timed d st), Quiet)"
| "lpop_timeout_step i t q WaitCond d st =
     Some (q, if lis_empty q then LPopAt WaitClock (Timed d st) else LPopAt (Leave False) (Timed d st), Quiet)"
| "lpop_timeout_step i t q WaitClock d st =
     Some (q, if t - st > d then LPopAt (Leave True) (Timed d st) else LPopAt Doze (Timed d st), Quiet)"
| "lpop_timeout_step i t q Doze d st = Some (q\<lparr>pop_lock := None\<rparr>, LPopAt Asleep (Timed d st), Quiet)"
| "lpop_timeout_step i t q Woken d st = lock_pop i q (LPopAt WaitDisposed (Timed d st))"
| "lpop_timeout_step i t q (Leave b) d st =
     Some (q\<lparr>pop_side_waiters := waiters_leave (pop_side_waiters q)\<rparr>, LPopAt (After b) (Timed d st), Quiet)"
| "lpop_timeout_step i t q (After timed_out) d st =
     Some (q,
       if timed_out then ReturnPop (PopRes (Inl Timeout))
       else if lis_empty q then LPopAt After2 (Timed d st)
       else DeqUnlink, Quiet)"
| "lpop_timeout_step i t q After2 d st =
     (if ldisposed q then Some (q, ReturnPop (PopRes (Inl ResourceUnavailable)), Quiet)
      else Some (q\<lparr>pop_lock := None\<rparr>, LPanicked, Quiet))"
| "lpop_timeout_step i t q Asleep d st = None"

fun ltry_pop_step :: "tid \<Rightarrow> 'a lbq \<Rightarrow> try_point \<Rightarrow> 'a lbq_step" where
  "ltry_pop_step i q TryEnter = lock_pop i q (LTryPopAt Try1)"
| "ltry_pop_step i q Try1 = Some (q, if lis_empty q then LTryPopAt Try2 else DeqUnlink, Quiet)"
| "ltry_pop_step i q Try2 =
     Some (q, ReturnPop (PopRes (Inl (if ldisposed q then ResourceUnavailable else WouldBlock))), Quiet)"

section \<open>Drain and dispose\<close>

text \<open>
  \<open>DrainLoop n out\<close> is the loop with \<open>n\<close> iterations to do in all, \<open>out\<close> already unlinked.
\<close>

definition drain_load :: "'a lbq \<Rightarrow> 'a lbq_pc" where
  "drain_load q = (if count q = 0 then DrainUnlock 0 [] else DrainLoop (count q) [])"

definition drain_loop :: "'a lbq \<Rightarrow> nat \<Rightarrow> 'a list \<Rightarrow> 'a lbq \<times> 'a lbq_pc" where
  "drain_loop q n out =
     (if length out < n
      then (case unlink_head q of
              Inl p \<Rightarrow> (q\<lparr>pop_lock := None\<rparr>, p)
            | Inr (x, q') \<Rightarrow> (q', DrainLoop n (out @ [x])))
      else (q, DrainCount n out))"

definition drain_count :: "'a lbq \<Rightarrow> nat \<Rightarrow> 'a list \<Rightarrow> 'a lbq \<times> 'a lbq_pc" where
  "drain_count q n out = (q\<lparr>count := wrap_sub usize_mod (count q) n\<rparr>, DrainUnlock n out)"

fun drain_wake_step :: "tid \<Rightarrow> 'a lbq \<Rightarrow> sig_point \<Rightarrow> 'a list \<Rightarrow> 'a lbq_step" where
  "drain_wake_step i q SigLock out = lock_push i q (DrainWake SigTest out)"
| "drain_wake_step i q SigTest out =
     Some (q, DrainWake SigUnlock out, if waiters_any (push_side_waiters q) then WakeAll NotFull else Quiet)"
| "drain_wake_step i q SigUnlock out = Some (q\<lparr>push_lock := None\<rparr>, LDone (DrainRes out), Quiet)"

fun ldispose_step :: "tid \<Rightarrow> 'a lbq \<Rightarrow> ldispose_point \<Rightarrow> 'a lbq_step" where
  "ldispose_step i q LDisposeCas =
     (if ldisposed q then Some (q, LDone DisposeRes, Quiet)
      else Some (q\<lparr>ldisposed := True\<rparr>, LDisposeAt PopSideLock, Quiet))"
| "ldispose_step i q PopSideLock = lock_pop i q (LDisposeAt PopSideNotify)"
| "ldispose_step i q PopSideNotify = Some (q, LDisposeAt PopSideUnlock, WakeAll NotEmpty)"
| "ldispose_step i q PopSideUnlock = Some (q\<lparr>pop_lock := None\<rparr>, LDisposeAt PushSideLock, Quiet)"
| "ldispose_step i q PushSideLock = lock_push i q (LDisposeAt PushSideNotify)"
| "ldispose_step i q PushSideNotify = Some (q, LDisposeAt PushSideUnlock, WakeAll NotFull)"
| "ldispose_step i q PushSideUnlock = Some (q\<lparr>push_lock := None\<rparr>, LDone DisposeRes, Quiet)"

section \<open>The machine\<close>

fun lbq_advance :: "tid \<Rightarrow> nat \<Rightarrow> 'a lbq \<Rightarrow> 'a lbq_pc \<Rightarrow> 'a lbq_step" where
  "lbq_advance i t q (LPushAt pt x Untimed) = lpush_step i q pt x"
| "lbq_advance i t q (LPushAt pt x (Timed d st)) = lpush_timeout_step i t q pt x d st"
| "lbq_advance i t q (LTryPushAt pt x) = ltry_push_step i q pt x"
| "lbq_advance i t q (EnqAlloc x) = (case en_q_alloc q x of (q', p) \<Rightarrow> Some (q', p, Quiet))"
| "lbq_advance i t q (EnqAssert x a) =
     (if count q < lcapacity q then Some (q, EnqLink x a, Quiet)
      else Some (q\<lparr>push_lock := None, heap := (heap q)(a := None)\<rparr>, LPanicked, Quiet))"
| "lbq_advance i t q (EnqLink x a) = (case en_q_link q x a of (q', p) \<Rightarrow> Some (q', p, Quiet))"
| "lbq_advance i t q (EnqCount x) = (case en_q_count q of (q', p) \<Rightarrow> Some (q', p, Quiet))"
| "lbq_advance i t q (EnqNotify prev) = Some (q, EnqUnlock prev, en_q_notify q prev)"
| "lbq_advance i t q (EnqUnlock prev) =
     Some (q\<lparr>push_lock := None\<rparr>, if prev = 0 then SigEmpty SigLock else LDone (PushRes (Inr ())), Quiet)"
| "lbq_advance i t q (SigEmpty pt) = signal_not_empty_step i q pt"
| "lbq_advance i t q (LPopAt pt Untimed) = lpop_step i q pt"
| "lbq_advance i t q (LPopAt pt (Timed d st)) = lpop_timeout_step i t q pt d st"
| "lbq_advance i t q (LTryPopAt pt) = ltry_pop_step i q pt"
| "lbq_advance i t q DeqUnlink =
     (case unlink_head q of
        Inl p \<Rightarrow> Some (q\<lparr>pop_lock := None\<rparr>, p, Quiet)
      | Inr (x, q') \<Rightarrow> Some (q', DeqCount x, Quiet))"
| "lbq_advance i t q (DeqCount x) = (case de_q_count q x of (q', p) \<Rightarrow> Some (q', p, Quiet))"
| "lbq_advance i t q (DeqNotify prev x) = Some (q, DeqUnlock prev x, de_q_notify q prev)"
| "lbq_advance i t q (DeqUnlock prev x) =
     Some (q\<lparr>pop_lock := None\<rparr>, if prev = lcapacity q then SigFull SigLock x else LDone (PopRes (Inr x)), Quiet)"
| "lbq_advance i t q (SigFull pt x) = signal_not_full_step i q pt x"
| "lbq_advance i t q DrainLock = lock_pop i q DrainLoad"
| "lbq_advance i t q DrainLoad = Some (q, drain_load q, Quiet)"
| "lbq_advance i t q (DrainLoop n out) = (case drain_loop q n out of (q', p) \<Rightarrow> Some (q', p, Quiet))"
| "lbq_advance i t q (DrainCount n out) = (case drain_count q n out of (q', p) \<Rightarrow> Some (q', p, Quiet))"
| "lbq_advance i t q (DrainUnlock n out) =
     Some (q\<lparr>pop_lock := None\<rparr>, if n > 0 then DrainWake SigLock out else LDone (DrainRes out), Quiet)"
| "lbq_advance i t q (DrainWake pt out) = drain_wake_step i q pt out"
| "lbq_advance i t q (LDisposeAt pt) = ldispose_step i q pt"
| "lbq_advance i t q LSizeAt = Some (q, LDone (SizeRes (count q)), Quiet)"
| "lbq_advance i t q LCapacityAt = Some (q, LDone (CapacityRes (lcapacity q)), Quiet)"
| "lbq_advance i t q LIsDisposedAt = Some (q, LDone (IsDisposedRes (ldisposed q)), Quiet)"
| "lbq_advance i t q (ReturnPush r) = Some (q\<lparr>push_lock := None\<rparr>, LDone r, Quiet)"
| "lbq_advance i t q (ReturnPop r) = Some (q\<lparr>pop_lock := None\<rparr>, LDone r, Quiet)"
| "lbq_advance i t q p = None"

fun lbq_entry :: "'a bq_op \<Rightarrow> 'a lbq_pc" where
  "lbq_entry (OpPush x) = LPushAt Enter x Untimed"
| "lbq_entry (OpTryPush x) = LTryPushAt TryEnter x"
| "lbq_entry (OpPushTimeout x d) = LPushAt Enter x (Timed d 0)"
| "lbq_entry OpPop = LPopAt Enter Untimed"
| "lbq_entry OpTryPop = LTryPopAt TryEnter"
| "lbq_entry (OpPopTimeout d) = LPopAt Enter (Timed d 0)"
| "lbq_entry OpDrain = DrainLock"
| "lbq_entry OpDispose = LDisposeAt LDisposeCas"
| "lbq_entry OpSize = LSizeAt"
| "lbq_entry OpCapacity = LCapacityAt"
| "lbq_entry OpIsDisposed = LIsDisposedAt"

fun lbq_resting :: "'a lbq_pc \<Rightarrow> bool" where
  "lbq_resting LIdle = True"
| "lbq_resting (LDone r) = True"
| "lbq_resting p = False"

fun lbq_dozing :: "'a lbq_pc \<Rightarrow> cv option" where
  "lbq_dozing (LPushAt Asleep x tm) = Some NotFull"
| "lbq_dozing (LPopAt Asleep tm) = Some NotEmpty"
| "lbq_dozing p = None"

fun lbq_rouse :: "'a lbq_pc \<Rightarrow> 'a lbq_pc" where
  "lbq_rouse (LPushAt pt x tm) = LPushAt Woken x tm"
| "lbq_rouse (LPopAt pt tm) = LPopAt Woken tm"
| "lbq_rouse p = p"

definition lbq_machine :: "('a bq_op, 'a lbq, 'a lbq_pc, cv) machine" where
  "lbq_machine = \<lparr>entry = lbq_entry, resting = lbq_resting, advance = lbq_advance,
     dozing = lbq_dozing, rouse = lbq_rouse\<rparr>"

lemma lbq_machine_simps [simp]:
  "entry lbq_machine = lbq_entry" "resting lbq_machine = lbq_resting"
  "advance lbq_machine = lbq_advance" "dozing lbq_machine = lbq_dozing"
  "rouse lbq_machine = lbq_rouse"
  by (simp_all add: lbq_machine_def)

definition lbq_start :: "nat \<Rightarrow> nat \<Rightarrow> ('a bq_op, 'a lbq, 'a lbq_pc) sys" where
  "lbq_start c n = boot (lbq_new c) LIdle n"

section \<open>Drop\<close>

text \<open>
  \<open>Drop::drop\<close>: frees the nodes from the head on, and drops the item that a node holds with it;
  the second result are these items. \<open>None\<close> when the walk does not end (a cycle) or follows a
  dangling pointer.
\<close>

definition node_items :: "'a Node \<Rightarrow> 'a list" where
  "node_items n = (case item n of None \<Rightarrow> [] | Some x \<Rightarrow> [x])"

partial_function (option) lbq_drop_from ::
    "nat option \<Rightarrow> (nat \<Rightarrow> 'a Node option) \<Rightarrow> ((nat \<Rightarrow> 'a Node option) \<times> 'a list) option" where
  "lbq_drop_from current h =
     (case current of
        None \<Rightarrow> Some (h, [])
      | Some a \<Rightarrow>
          (case h a of
             None \<Rightarrow> None
           | Some n \<Rightarrow>
               Option.bind (lbq_drop_from (next_node n) (h(a := None))) (\<lambda>(h', xs). Some (h', node_items n @ xs))))"

definition lbq_drop :: "'a lbq \<Rightarrow> ((nat \<Rightarrow> 'a Node option) \<times> 'a list) option" where
  "lbq_drop q = lbq_drop_from (Some (head q)) (heap q)"

end
