(* ===== verification/LinkedHeap.thy ===== *)
theory LinkedHeap
  imports LinkedBQ
begin

text \<open>
  The list in the heap: \<open>links h p as\<close> says that the nodes behind \<open>p\<close> are those of \<open>as\<close>, pairs
  of an address and an item, and \<open>list_ok\<close> adds that head, tail, the nodes that
  are allocated but not linked (\<open>N\<close>) and the fresh address fit, that no node is shared and
  that nothing else is in the heap. One lemma per operation on the list.
\<close>

section \<open>Links\<close>

fun links :: "(nat \<Rightarrow> 'a Node option) \<Rightarrow> nat \<Rightarrow> (nat \<times> 'a) list \<Rightarrow> bool" where
  "links h p [] = (case h p of None \<Rightarrow> False | Some n \<Rightarrow> next_node n = None)"
| "links h p ((a, x) # as) =
     ((case h p of None \<Rightarrow> False | Some n \<Rightarrow> next_node n = Some a)
      \<and> (case h a of None \<Rightarrow> False | Some m \<Rightarrow> item m = Some x) \<and> links h a as)"

text \<open>The first node, the dummy, holds no item.\<close>

definition dummy_at :: "(nat \<Rightarrow> 'a Node option) \<Rightarrow> nat \<Rightarrow> bool" where
  "dummy_at h p \<longleftrightarrow> (\<exists>n. h p = Some n \<and> item n = None)"

definition list_ok ::
    "(nat \<Rightarrow> 'a Node option) \<Rightarrow> nat \<Rightarrow> nat \<Rightarrow> nat \<Rightarrow> (nat \<times> 'a) list \<Rightarrow> (nat \<times> 'a) list \<Rightarrow> bool" where
  "list_ok h hp tp fr N as \<longleftrightarrow>
     links h hp as \<and> distinct (hp # map fst as @ map fst N) \<and> tp = last (hp # map fst as)
     \<and> dom h = set (hp # map fst as @ map fst N) \<and> (\<forall>a \<in> dom h. a < fr)
     \<and> (\<forall>(a, x) \<in> set N. h a = Some (new_node (Some x))) \<and> dummy_at h hp"

text \<open>The items of the first \<open>k\<close> nodes behind \<open>p\<close>.\<close>

fun contents :: "nat \<Rightarrow> (nat \<Rightarrow> 'a Node option) \<Rightarrow> nat \<Rightarrow> 'a list" where
  "contents 0 h p = []"
| "contents (Suc k) h p =
     (case h p of
        None \<Rightarrow> []
      | Some n \<Rightarrow>
          (case next_node n of
             None \<Rightarrow> []
           | Some a \<Rightarrow>
               (case h a of
                  None \<Rightarrow> []
                | Some m \<Rightarrow> (case item m of None \<Rightarrow> [] | Some x \<Rightarrow> x # contents k h a))))"

lemma contents_links: "links h p as \<Longrightarrow> contents k h p = map snd (take k as)"
proof (induction h p as arbitrary: k rule: links.induct)
  case (1 h p)
  then show ?case by (cases k) (auto split: option.splits)
next
  case (2 h p a x as)
  then show ?case by (cases k) (auto split: option.splits)
qed

lemma links_dom: "links h p as \<Longrightarrow> p \<in> dom h \<and> fst ` set as \<subseteq> dom h"
  by (induction h p as rule: links.induct) (auto split: option.splits)

lemma links_frame: "links h p as \<Longrightarrow> b \<notin> set (p # map fst as) \<Longrightarrow> links (h(b := v)) p as"
  by (induction h p as rule: links.induct) (auto split: option.splits)

text \<open>The item of the first node of a path does not matter to the path.\<close>

lemma links_item:
  "links h p as \<Longrightarrow> p \<notin> fst ` set as \<Longrightarrow> h p = Some n \<Longrightarrow> links (h(p := Some (n\<lparr>item := v\<rparr>))) p as"
  by (cases "(h, p, as)" rule: links.cases) (auto intro: links_frame)

text \<open>Appending a node at the end of a path.\<close>

lemma links_append:
  assumes "links h p as" and "distinct (p # map fst as)" and "h (last (p # map fst as)) = Some n"
    and "h a = Some (new_node (Some x))" and "a \<notin> set (p # map fst as)"
  shows "links (h(last (p # map fst as) := Some (n\<lparr>next_node := Some a\<rparr>))) p (as @ [(a, x)])"
  using assms
proof (induction as arbitrary: p)
  case Nil
  then show ?case by (auto simp: new_node_def)
next
  case (Cons e as)
  obtain b y where e: "e = (b, y)" by (cases e)
  let ?h = "h(last (b # map fst as) := Some (n\<lparr>next_node := Some a\<rparr>))"
  have b: "links ?h b (as @ [(a, x)])" by (rule Cons.IH) (use Cons.prems e in auto)
  have "last (b # map fst as) \<in> set (b # map fst as)" by (rule last_in_set) simp
  moreover have "p \<notin> set (b # map fst as)" using Cons.prems(2) e by auto
  ultimately have ne: "last (b # map fst as) \<noteq> p" by metis
  obtain m where m: "h b = Some m" "item m = Some y" using Cons.prems(1) e by (auto split: option.splits)
  have "\<exists>m'. ?h b = Some m' \<and> item m' = Some y"
    using m Cons.prems(3) e by (cases "last (b # map fst as) = b") auto
  moreover have "\<exists>m'. ?h p = Some m' \<and> next_node m' = Some b"
    using ne Cons.prems(1) e by (auto split: option.splits)
  ultimately have "links ?h p ((b, y) # as @ [(a, x)])" using b by auto
  moreover have "last (p # map fst (e # as)) = last (b # map fst as)" by (simp add: e)
  ultimately show ?case by (simp only: e append_Cons)
qed

section \<open>Allocating, linking, unlinking\<close>

lemma list_ok_alloc:
  assumes "list_ok h hp tp fr [] as"
  shows "list_ok (h(fr := Some (new_node (Some x)))) hp tp (fr + 1) [(fr, x)] as"
proof -
  have fr: "fr \<notin> set (hp # map fst as)" using assms by (auto simp: list_ok_def)
  have "links (h(fr := Some (new_node (Some x)))) hp as"
    using assms fr by (intro links_frame) (auto simp: list_ok_def)
  with assms fr show ?thesis by (auto simp: list_ok_def dummy_at_def less_Suc_eq)
qed

lemma list_ok_tail:
  assumes "list_ok h hp tp fr N as"
  shows "\<exists>n. h tp = Some n"
proof -
  have "last (hp # map fst as) \<in> set (hp # map fst as)" by (rule last_in_set) simp
  with assms show ?thesis by (auto simp: list_ok_def)
qed

lemma list_ok_link:
  assumes ok: "list_ok h hp tp fr [(a, x)] as" and n: "h tp = Some n"
  shows "list_ok (h(tp := Some (n\<lparr>next_node := Some a\<rparr>))) hp a fr [] (as @ [(a, x)])"
proof -
  have "links (h(last (hp # map fst as) := Some (n\<lparr>next_node := Some a\<rparr>))) hp (as @ [(a, x)])"
    using ok n by (intro links_append) (auto simp: list_ok_def)
  moreover have "tp \<in> dom h" using n by auto
  moreover have "dummy_at (h(tp := Some (n\<lparr>next_node := Some a\<rparr>))) hp" using ok n by (auto simp: list_ok_def dummy_at_def)
  ultimately show ?thesis using ok unfolding list_ok_def by (auto simp: insert_absorb)
qed

lemma unlink_some:
  assumes ok: "list_ok (heap q) (head q) (tail q) (fresh q) N ((a, x) # as)"
  obtains q' where "unlink_head q = Inr (x, q')"
    "list_ok (heap q') (head q') (tail q') (fresh q') N as"
    "heap q' (head q) = None" "q' = q\<lparr>heap := heap q', head := head q'\<rparr>"
proof -
  let ?p = "head q" and ?h = "heap q"
  from ok obtain old n where old: "?h ?p = Some old" "next_node old = Some a"
    and n: "?h a = Some n" "item n = Some x" and rest: "links ?h a as"
    by (auto simp: list_ok_def split: option.splits)
  let ?h' = "?h(a := Some (n\<lparr>item := None\<rparr>), ?p := None)"
  have dist: "distinct (?p # a # map fst as @ map fst N)" using ok by (simp add: list_ok_def)
  have "links (?h(a := Some (n\<lparr>item := None\<rparr>))) a as"
    by (rule links_item [OF rest _ n(1)]) (use dist in auto)
  then have "links ?h' a as" by (rule links_frame) (use dist in auto)
  moreover have dom: "dom ?h' = set (a # map fst as @ map fst N)"
  proof -
    have "dom ?h' = insert a (dom ?h) - {?p}" using dist by (simp add: insert_Diff_if)
    also have "insert a (dom ?h) = set (?p # a # map fst as @ map fst N)" using ok unfolding list_ok_def by auto
    finally have "dom ?h' = set (?p # a # map fst as @ map fst N) - {?p}" .
    also have "\<dots> = set (a # map fst as @ map fst N)" using dist by auto
    finally show ?thesis .
  qed
  moreover have N: "?h' b = Some (new_node (Some y))" if "(b, y) \<in> set N" for b y
  proof -
    from that have "b \<in> set (map fst N)" by force
    moreover have "a \<notin> set (map fst N)" "?p \<notin> set (map fst N)" using dist by simp_all
    ultimately have "b \<noteq> a" "b \<noteq> ?p" by metis+
    with ok that show ?thesis by (auto simp: list_ok_def)
  qed
  moreover have "\<forall>b \<in> dom ?h'. b < fresh q" using ok unfolding dom by (simp add: list_ok_def)
  moreover have "tail q = last (a # map fst as)" using ok by (simp add: list_ok_def)
  moreover have "dummy_at ?h' a" using dist by (simp add: dummy_at_def)
  ultimately have "list_ok ?h' a (tail q) (fresh q) N as"
    using dist unfolding list_ok_def by (intro conjI) (simp_all add: N case_prod_unfold)
  moreover have "unlink_head q = Inr (x, q\<lparr>heap := ?h', head := a\<rparr>)"
    using old n by (simp add: unlink_head_def)
  ultimately show thesis using that by simp
qed

section \<open>Dropping the list\<close>

text \<open>\<open>Drop\<close> ends, leaves only what was never linked, and drops the items in order.\<close>

lemma lbq_drop_links:
  assumes "links h p as" and "distinct (p # map fst as)" and "h p = Some n"
  shows "lbq_drop_from (Some p) h = Some (h |` (- set (p # map fst as)), node_items n @ map snd as)"
  using assms
proof (induction as arbitrary: h p n)
  case Nil
  then have "next_node n = None" by simp
  then have "lbq_drop_from (Some p) h = Some (h(p := None), node_items n)"
    using Nil by (simp add: lbq_drop_from.simps)
  moreover have "h(p := None) = h |` (- {p})" by (rule ext) (simp add: restrict_map_def)
  ultimately show ?case by simp
next
  case (Cons ax as)
  obtain a x where ax: "ax = (a, x)" by (cases ax)
  with Cons.prems have n: "next_node n = Some a" by simp
  obtain k where k: "h a = Some k" "item k = Some x" using Cons.prems ax by (auto split: option.splits)
  have "links (h(p := None)) a as" by (rule links_frame) (use Cons.prems ax in auto)
  then have "lbq_drop_from (Some a) (h(p := None)) = Some (h(p := None) |` (- set (a # map fst as)), node_items k @ map snd as)"
    by (rule Cons.IH) (use Cons.prems ax k in auto)
  moreover have "h(p := None) |` (- set (a # map fst as)) = h |` (- set (p # map fst (ax # as)))"
    by (rule ext) (auto simp: ax restrict_map_def)
  ultimately show ?case
    using Cons.prems(3) k(2) by (simp add: lbq_drop_from.simps [of "Some p"] n ax node_items_def [of k])
qed

end
