(* ===== verification/LinkedInv.thy ===== *)
theory LinkedInv
  imports LinkedHeap
begin

text \<open>
  Invariants of the linked queue under any schedule: the two locks, the waiter counters, what
  holds at each program point although the other end runs concurrently, and the list in
  the heap, counted exactly up to the node that is linked but not yet counted and the
  items that are unlinked but still counted.
\<close>

lemmas lbq_defs = lock_push_def lock_pop_def lis_empty_def lis_full_def en_q_alloc_def en_q_count_def
  en_q_notify_def de_q_count_def de_q_notify_def drain_load_def drain_count_def

fun_cases lpush_stepE: "lpush_step i q pt x = Some (q', p', nt)"
fun_cases lpush_timeout_stepE: "lpush_timeout_step i t q pt x d st = Some (q', p', nt)"
fun_cases ltry_push_stepE: "ltry_push_step i q pt x = Some (q', p', nt)"
fun_cases lpop_stepE: "lpop_step i q pt = Some (q', p', nt)"
fun_cases lpop_timeout_stepE: "lpop_timeout_step i t q pt d st = Some (q', p', nt)"
fun_cases ltry_pop_stepE: "ltry_pop_step i q pt = Some (q', p', nt)"
fun_cases signal_not_emptyE: "signal_not_empty_step i q pt = Some (q', p', nt)"
fun_cases signal_not_fullE: "signal_not_full_step i q pt x = Some (q', p', nt)"
fun_cases drain_wakeE: "drain_wake_step i q pt out = Some (q', p', nt)"
fun_cases ldispose_stepE: "ldispose_step i q pt = Some (q', p', nt)"

lemmas lbq_elims = lpush_stepE lpush_timeout_stepE ltry_push_stepE lpop_stepE lpop_timeout_stepE
  ltry_pop_stepE signal_not_emptyE signal_not_fullE drain_wakeE ldispose_stepE

text \<open>The outcomes of the operations that follow pointers.\<close>

lemma unlink_head_cases:
  obtains p where "unlink_head q = Inl p" "p = LFault \<or> p = LPanicked"
  | x h a where "unlink_head q = Inr (x, q\<lparr>heap := h, head := a\<rparr>)"
  by atomize_elim (auto simp: unlink_head_def split: option.splits)

lemma en_q_link_cases:
  obtains "en_q_link q x a = (q\<lparr>push_lock := None\<rparr>, LFault)"
  | h where "en_q_link q x a = (q\<lparr>heap := h, tail := a\<rparr>, EnqCount x)"
  by atomize_elim (auto simp: en_q_link_def split: option.splits)

section \<open>One action, by cases\<close>

lemma lbq_step_cases [consumes 1, case_names Push PushTimeout TryPush Alloc Assert AssertFail Link LinkFault
    Count Notify Unlock SigE Pop PopTimeout TryPop Unlink UnlinkStop DCount DNotify DUnlock SigF
    DrLock DrLoad DrDone DrStop DrNext DrCount DrUnlock DrWake Dispose Size Capacity Disposed RetPush RetPop]:
  assumes "lbq_advance i t q p = Some (q', p', nt)"
  obtains pt x where "p = LPushAt pt x Untimed" "lpush_step i q pt x = Some (q', p', nt)"
  | pt x d st where "p = LPushAt pt x (Timed d st)" "lpush_timeout_step i t q pt x d st = Some (q', p', nt)"
  | pt x where "p = LTryPushAt pt x" "ltry_push_step i q pt x = Some (q', p', nt)"
  | x where "p = EnqAlloc x" "(q', p') = en_q_alloc q x" "nt = Quiet"
  | x a where "p = EnqAssert x a" "\<not> lis_full q" "q' = q" "p' = EnqLink x a" "nt = Quiet"
  | x a where "p = EnqAssert x a" "lis_full q" "q' = q\<lparr>push_lock := None, heap := (heap q)(a := None)\<rparr>"
      "p' = LPanicked" "nt = Quiet"
  | x a h where "p = EnqLink x a" "en_q_link q x a = (q', p')" "q' = q\<lparr>heap := h, tail := a\<rparr>" "p' = EnqCount x" "nt = Quiet"
  | x a where "p = EnqLink x a" "en_q_link q x a = (q', p')" "q' = q\<lparr>push_lock := None\<rparr>" "p' = LFault" "nt = Quiet"
  | x where "p = EnqCount x" "(q', p') = en_q_count q" "nt = Quiet"
  | prev where "p = EnqNotify prev" "q' = q" "p' = EnqUnlock prev" "nt = en_q_notify q prev"
  | prev where "p = EnqUnlock prev" "q' = q\<lparr>push_lock := None\<rparr>" "nt = Quiet"
      "p' = (if prev = 0 then SigEmpty SigLock else LDone (PushRes (Inr ())))"
  | pt where "p = SigEmpty pt" "signal_not_empty_step i q pt = Some (q', p', nt)"
  | pt where "p = LPopAt pt Untimed" "lpop_step i q pt = Some (q', p', nt)"
  | pt d st where "p = LPopAt pt (Timed d st)" "lpop_timeout_step i t q pt d st = Some (q', p', nt)"
  | pt where "p = LTryPopAt pt" "ltry_pop_step i q pt = Some (q', p', nt)"
  | x h a where "p = DeqUnlink" "unlink_head q = Inr (x, q')" "q' = q\<lparr>heap := h, head := a\<rparr>"
      "p' = DeqCount x" "nt = Quiet"
  | "p = DeqUnlink" "unlink_head q = Inl p'" "q' = q\<lparr>pop_lock := None\<rparr>" "nt = Quiet" "p' = LFault \<or> p' = LPanicked"
  | x where "p = DeqCount x" "(q', p') = de_q_count q x" "nt = Quiet"
  | prev x where "p = DeqNotify prev x" "q' = q" "p' = DeqUnlock prev x" "nt = de_q_notify q prev"
  | prev x where "p = DeqUnlock prev x" "q' = q\<lparr>pop_lock := None\<rparr>" "nt = Quiet"
      "p' = (if prev = lcapacity q then SigFull SigLock x else LDone (PopRes (Inr x)))"
  | pt x where "p = SigFull pt x" "signal_not_full_step i q pt x = Some (q', p', nt)"
  | "p = DrainLock" "lock_pop i q DrainLoad = Some (q', p', nt)"
  | "p = DrainLoad" "q' = q" "p' = drain_load q" "nt = Quiet"
  | n out where "p = DrainLoop n out" "\<not> length out < n" "q' = q" "p' = DrainCount n out" "nt = Quiet"
  | n out where "p = DrainLoop n out" "length out < n" "unlink_head q = Inl p'"
      "q' = q\<lparr>pop_lock := None\<rparr>" "nt = Quiet" "p' = LFault \<or> p' = LPanicked"
  | n out x h a where "p = DrainLoop n out" "length out < n" "unlink_head q = Inr (x, q')"
      "q' = q\<lparr>heap := h, head := a\<rparr>" "p' = DrainLoop n (out @ [x])" "nt = Quiet"
  | n out where "p = DrainCount n out" "(q', p') = drain_count q n out" "nt = Quiet"
  | n out where "p = DrainUnlock n out" "q' = q\<lparr>pop_lock := None\<rparr>" "nt = Quiet"
      "p' = (if n > 0 then DrainWake SigLock out else LDone (DrainRes out))"
  | pt out where "p = DrainWake pt out" "drain_wake_step i q pt out = Some (q', p', nt)"
  | pt where "p = LDisposeAt pt" "ldispose_step i q pt = Some (q', p', nt)"
  | "p = LSizeAt" "q' = q" "p' = LDone (SizeRes (count q))" "nt = Quiet"
  | "p = LCapacityAt" "q' = q" "p' = LDone (CapacityRes (lcapacity q))" "nt = Quiet"
  | "p = LIsDisposedAt" "q' = q" "p' = LDone (IsDisposedRes (ldisposed q))" "nt = Quiet"
  | r where "p = ReturnPush r" "q' = q\<lparr>push_lock := None\<rparr>" "p' = LDone r" "nt = Quiet"
  | r where "p = ReturnPop r" "q' = q\<lparr>pop_lock := None\<rparr>" "p' = LDone r" "nt = Quiet"
proof (cases p)
  case (LPushAt pt x tm)
  then show thesis using assms that(1) [of pt x] that(2) [of pt x] by (cases tm) auto
next
  case (LTryPushAt pt x) then show thesis using assms that(3) [of pt x] by simp
next
  case (EnqAlloc x) then show thesis using assms that(4) [of x] by (auto split: prod.splits)
next
  case (EnqAssert x a)
  then show thesis using assms that(5) [of x a] that(6) [of x a] by (auto simp: lis_full_def split: if_splits)
next
  case (EnqLink x a)
  with assms have eq: "en_q_link q x a = (q', p')" "nt = Quiet" by (auto split: prod.splits)
  show thesis
  proof (cases rule: en_q_link_cases [of q x a])
    case 1
    with eq show thesis by (intro that(8) [OF EnqLink eq(1)]) auto
  next
    case (2 h)
    with eq show thesis by (intro that(7) [OF EnqLink eq(1), of h]) auto
  qed
next
  case (EnqCount x) then show thesis using assms that(9) [of x] by (auto split: prod.splits)
next
  case (EnqNotify prev) then show thesis using assms that(10) [of prev] by auto
next
  case (EnqUnlock prev) then show thesis using assms that(11) [of prev] by auto
next
  case (SigEmpty pt) then show thesis using assms that(12) [of pt] by simp
next
  case (LPopAt pt tm)
  then show thesis using assms that(13) [of pt] that(14) [of pt] by (cases tm) auto
next
  case (LTryPopAt pt) then show thesis using assms that(15) [of pt] by simp
next
  case DeqUnlink
  then show thesis using assms that(16) that(17) by (cases rule: unlink_head_cases [of q]) auto
next
  case (DeqCount x) then show thesis using assms that(18) [of x] by (auto split: prod.splits)
next
  case (DeqNotify prev x) then show thesis using assms that(19) [of prev x] by auto
next
  case (DeqUnlock prev x) then show thesis using assms that(20) [of prev x] by auto
next
  case (SigFull pt x) then show thesis using assms that(21) [of pt x] by simp
next
  case DrainLock then show thesis using assms that(22) by simp
next
  case DrainLoad then show thesis using assms that(23) by auto
next
  case (DrainLoop n out)
  then show thesis
    using assms that(24) [of n out] that(25) [of n out] that(26) [of n out]
    by (cases rule: unlink_head_cases [of q]) (auto simp: drain_loop_def split: if_splits)
next
  case (DrainCount n out) then show thesis using assms that(27) [of n out] by (auto split: prod.splits)
next
  case (DrainUnlock n out) then show thesis using assms that(28) [of n out] by auto
next
  case (DrainWake pt out) then show thesis using assms that(29) [of pt out] by simp
next
  case (LDisposeAt pt) then show thesis using assms that(30) [of pt] by simp
next
  case LSizeAt then show thesis using assms that(31) by auto
next
  case LCapacityAt then show thesis using assms that(32) by auto
next
  case LIsDisposedAt then show thesis using assms that(33) by auto
next
  case (ReturnPush r) then show thesis using assms that(34) [of r] by auto
next
  case (ReturnPop r) then show thesis using assms that(35) [of r] by auto
next
  case LIdle then show thesis using assms by simp
next
  case (LDone r) then show thesis using assms by simp
next
  case LPanicked then show thesis using assms by simp
next
  case LFault then show thesis using assms by simp
qed

section \<open>The machine rules and the two mutexes\<close>

fun holds_push :: "'a lbq_pc \<Rightarrow> bool" where
  "holds_push (LPushAt pt x tm) = wait_holds pt"
| "holds_push (LTryPushAt pt x) = (pt \<noteq> TryEnter)"
| "holds_push (EnqAlloc x) = True"
| "holds_push (EnqAssert x a) = True"
| "holds_push (EnqLink x a) = True"
| "holds_push (EnqCount x) = True"
| "holds_push (EnqNotify prev) = True"
| "holds_push (EnqUnlock prev) = True"
| "holds_push (SigFull pt x) = (pt \<noteq> SigLock)"
| "holds_push (DrainWake pt out) = (pt \<noteq> SigLock)"
| "holds_push (LDisposeAt pt) = (pt = PushSideNotify \<or> pt = PushSideUnlock)"
| "holds_push (ReturnPush r) = True"
| "holds_push p = False"

fun holds_pop :: "'a lbq_pc \<Rightarrow> bool" where
  "holds_pop (LPopAt pt tm) = wait_holds pt"
| "holds_pop (LTryPopAt pt) = (pt \<noteq> TryEnter)"
| "holds_pop DeqUnlink = True"
| "holds_pop (DeqCount x) = True"
| "holds_pop (DeqNotify prev x) = True"
| "holds_pop (DeqUnlock prev x) = True"
| "holds_pop (SigEmpty pt) = (pt \<noteq> SigLock)"
| "holds_pop DrainLoad = True"
| "holds_pop (DrainLoop n out) = True"
| "holds_pop (DrainCount n out) = True"
| "holds_pop (DrainUnlock n out) = True"
| "holds_pop (LDisposeAt pt) = (pt = PopSideNotify \<or> pt = PopSideUnlock)"
| "holds_pop (ReturnPop r) = True"
| "holds_pop p = False"

interpretation lbq: machine_rules lbq_machine
proof
  fix op :: "'a bq_op" and p p' :: "'a lbq_pc" and i t and q q' :: "'a lbq" and nt
  show "dozing lbq_machine (entry lbq_machine op) = None" by (cases op) auto
  show "resting lbq_machine p \<Longrightarrow> advance lbq_machine i t q p = None" by (auto elim!: lbq_resting.elims)
  show "resting lbq_machine p \<Longrightarrow> dozing lbq_machine p = None" by (auto elim!: lbq_resting.elims)
  show "dozing lbq_machine p \<noteq> None \<Longrightarrow> advance lbq_machine i t q p = None"
    by (auto elim!: lbq_dozing.elims) (rename_tac tm; case_tac tm; simp)+
  show "dozing lbq_machine p \<noteq> None \<Longrightarrow> dozing lbq_machine (rouse lbq_machine p) = None"
    by (auto elim!: lbq_dozing.elims)
  assume "advance lbq_machine i t q p = Some (q', p', nt)"
  then have "lbq_advance i t q p = Some (q', p', nt)" by simp
  then show "dozing lbq_machine p' \<noteq> None \<Longrightarrow> nt = Quiet"
    by (cases rule: lbq_step_cases; (elim lbq_elims)?; auto simp: lbq_defs split: if_splits)
qed

lemma push_lock_step:
  assumes "lbq_advance i t q p = Some (q', p', nt)" and "holds_push p \<longleftrightarrow> push_lock q = Some i"
  shows "(push_lock q' = push_lock q \<and> holds_push p' = holds_push p)
    \<or> (push_lock q = None \<and> push_lock q' = Some i \<and> holds_push p')
    \<or> (push_lock q = Some i \<and> push_lock q' = None \<and> \<not> holds_push p')"
  using assms
  by (cases rule: lbq_step_cases; (elim lbq_elims)?; auto simp: lbq_defs split: if_splits)

lemma pop_lock_step:
  assumes "lbq_advance i t q p = Some (q', p', nt)" and "holds_pop p \<longleftrightarrow> pop_lock q = Some i"
  shows "(pop_lock q' = pop_lock q \<and> holds_pop p' = holds_pop p)
    \<or> (pop_lock q = None \<and> pop_lock q' = Some i \<and> holds_pop p')
    \<or> (pop_lock q = Some i \<and> pop_lock q' = None \<and> \<not> holds_pop p')"
  using assms
  by (cases rule: lbq_step_cases; (elim lbq_elims)?; auto simp: lbq_defs split: if_splits)

interpretation lbq_push_lock: mutex lbq_machine push_lock holds_push
proof
  fix op :: "'a bq_op" and p :: "'a lbq_pc"
  show "\<not> holds_push (entry lbq_machine op)" by (cases op) auto
  show "resting lbq_machine p \<Longrightarrow> \<not> holds_push p" by (auto elim!: lbq_resting.elims)
  show "dozing lbq_machine p \<noteq> None \<Longrightarrow> \<not> holds_push p \<and> \<not> holds_push (rouse lbq_machine p)"
    by (auto elim!: lbq_dozing.elims)
qed (use push_lock_step in \<open>simp, blast\<close>)

interpretation lbq_pop_lock: mutex lbq_machine pop_lock holds_pop
proof
  fix op :: "'a bq_op" and p :: "'a lbq_pc"
  show "\<not> holds_pop (entry lbq_machine op)" by (cases op) auto
  show "resting lbq_machine p \<Longrightarrow> \<not> holds_pop p" by (auto elim!: lbq_resting.elims)
  show "dozing lbq_machine p \<noteq> None \<Longrightarrow> \<not> holds_pop p \<and> \<not> holds_pop (rouse lbq_machine p)"
    by (auto elim!: lbq_dozing.elims)
qed (use pop_lock_step in \<open>simp, blast\<close>)

section \<open>What holds at each program point\<close>

text \<open>
  The facts of a pusher survive the poppers, who only lower the count, and the other way
  round.
\<close>

definition lpush_point :: "'a lbq \<Rightarrow> wait_point \<Rightarrow> timing \<Rightarrow> bool" where
  "lpush_point q pt tm =
     (case pt of
        WaitClock \<Rightarrow> tm \<noteq> Untimed
      | Leave b \<Rightarrow> (if b then tm \<noteq> Untimed else ldisposed q \<or> \<not> lis_full q)
      | After b \<Rightarrow> (if b then tm \<noteq> Untimed else ldisposed q \<or> \<not> lis_full q)
      | After2 \<Rightarrow> False
      | _ \<Rightarrow> True)"

definition lpop_point :: "'a lbq \<Rightarrow> wait_point \<Rightarrow> timing \<Rightarrow> bool" where
  "lpop_point q pt tm =
     (case pt of
        WaitClock \<Rightarrow> tm \<noteq> Untimed
      | Leave b \<Rightarrow> (if b then tm \<noteq> Untimed else ldisposed q \<or> \<not> lis_empty q)
      | After b \<Rightarrow> (if b then tm \<noteq> Untimed else ldisposed q \<or> \<not> lis_empty q)
      | After2 \<Rightarrow> ldisposed q
      | _ \<Rightarrow> True)"

fun closed_res :: "'a bq_res \<Rightarrow> bool" where
  "closed_res (PushRes (Inl (e, x))) = (e = ResourceUnavailable)"
| "closed_res (PopRes (Inl e)) = (e = ResourceUnavailable)"
| "closed_res r = False"

fun lbq_point :: "'a lbq \<Rightarrow> 'a lbq_pc \<Rightarrow> bool" where
  "lbq_point q (LPushAt pt x tm) = lpush_point q pt tm"
| "lbq_point q (LPopAt pt tm) = lpop_point q pt tm"
| "lbq_point q (EnqAlloc x) = (\<not> lis_full q)"
| "lbq_point q (EnqAssert x a) = (\<not> lis_full q)"
| "lbq_point q (EnqLink x a) = (\<not> lis_full q)"
| "lbq_point q (EnqCount x) = (\<not> lis_full q)"
| "lbq_point q DeqUnlink = (\<not> lis_empty q)"
| "lbq_point q (DeqCount x) = (\<not> lis_empty q)"
| "lbq_point q (DrainLoop n out) = (0 < n \<and> n \<le> count q \<and> length out \<le> n)"
| "lbq_point q (DrainCount n out) = (0 < n \<and> n \<le> count q \<and> length out = n)"
| "lbq_point q (ReturnPush r) = (closed_res r \<longrightarrow> ldisposed q)"
| "lbq_point q (ReturnPop r) = (closed_res r \<longrightarrow> ldisposed q)"
| "lbq_point q (LDone r) = (closed_res r \<longrightarrow> ldisposed q)"
| "lbq_point q p = True"

definition lbq_shared_ok :: "'a lbq \<Rightarrow> bool" where
  "lbq_shared_ok q \<longleftrightarrow> 0 < lcapacity q \<and> lcapacity q \<le> usize_max \<and> count q \<le> lcapacity q"

definition lbq_safe :: "tid \<Rightarrow> nat \<Rightarrow> 'a lbq \<Rightarrow> ('op, 'a lbq_pc) thread \<Rightarrow> bool" where
  "lbq_safe i t q th \<longleftrightarrow> owns push_lock holds_push i t q th \<and> owns pop_lock holds_pop i t q th
     \<and> lbq_point q (pc th)"

lemmas lbq_points = lpush_point_def lpop_point_def lbq_shared_ok_def

lemma count_room:
  "\<not> lcapacity q \<le> count q \<Longrightarrow> lcapacity q \<le> usize_max \<Longrightarrow>
    wrap_add usize_mod (count q) (Suc 0) = Suc (count q)"
  using usize_max_less [of "Suc (count q)"] by (simp add: wrap_add_exact)

lemma count_less:
  "m \<le> count q \<Longrightarrow> count q \<le> lcapacity q \<Longrightarrow> lcapacity q \<le> usize_max \<Longrightarrow>
    wrap_sub usize_mod (count q) m = count q - m"
  using usize_max_less [of "count q"] by (simp add: wrap_sub_exact)

lemma lbq_point_step:
  assumes "lbq_advance i t q p = Some (q', p', nt)" and "lbq_shared_ok q" and "lbq_point q p"
  shows "lbq_shared_ok q' \<and> lbq_point q' p'"
  using assms
  by (cases rule: lbq_step_cases; (elim lbq_elims)?;
      auto simp: lbq_defs lbq_points count_room count_less split: if_splits)

text \<open>What no action changes, and what only the owner of a lock changes.\<close>

lemma lbq_frame:
  assumes "lbq_advance i t q p = Some (q', p', nt)"
  shows "lcapacity q' = lcapacity q" and "ldisposed q \<Longrightarrow> ldisposed q'"
    and "lbq_shared_ok q \<Longrightarrow> lbq_point q p \<Longrightarrow> \<not> holds_pop p \<Longrightarrow> count q \<le> count q'"
    and "lbq_shared_ok q \<Longrightarrow> lbq_point q p \<Longrightarrow> \<not> holds_push p \<Longrightarrow> count q' \<le> count q"
  using assms
  by (cases rule: lbq_step_cases; (elim lbq_elims)?;
      auto simp: lbq_defs lbq_points count_room count_less split: if_splits)+

lemma lbq_point_frame:
  assumes "lcapacity q' = lcapacity q" "ldisposed q \<Longrightarrow> ldisposed q'" "lbq_point q p"
    and "holds_push p \<Longrightarrow> count q' \<le> count q" and "holds_pop p \<Longrightarrow> count q \<le> count q'"
  shows "lbq_point q' p"
  using assms by (cases p) (auto simp: lbq_points lis_full_def lis_empty_def split: wait_point.splits)

interpretation lbq_safe: guarded lbq_machine lbq_shared_ok lbq_safe
proof
  fix q q' :: "'a lbq" and i j t d p nt op and th th' :: "('a bq_op, 'a lbq_pc) thread"
  show "lbq_shared_ok q \<Longrightarrow> lbq_safe i t q th \<Longrightarrow> resting lbq_machine (pc th) \<Longrightarrow>
      lbq_safe i t q \<lparr>cur = Some op, called = t, pc = entry lbq_machine op\<rparr>"
    using lbq_push_lock.entry_ok [of i t q th op] lbq_pop_lock.entry_ok [of i t q th op]
    by (cases op) (auto simp: lbq_safe_def lbq_points)
  show "lbq_safe i t q th \<Longrightarrow> dozing lbq_machine (pc th) \<noteq> None \<Longrightarrow>
      lbq_safe i t q (th\<lparr>pc := rouse lbq_machine (pc th)\<rparr>)"
    using lbq_push_lock.rouse_ok [of i t q th] lbq_pop_lock.rouse_ok [of i t q th]
    by (cases "pc th" rule: lbq_dozing.cases) (auto simp: lbq_safe_def lbq_points)
  show "lbq_safe i t q th \<Longrightarrow> lbq_safe i (t + d) q th"
    by (simp add: lbq_safe_def owns_def)
  assume ok: "lbq_shared_ok q" and safe: "lbq_safe i t q th"
    and adv: "advance lbq_machine i t q (pc th) = Some (q', p, nt)"
  from safe have own: "owns push_lock holds_push i t q th" "owns pop_lock holds_pop i t q th"
    and pt: "lbq_point q (pc th)" by (simp_all add: lbq_safe_def)
  have adv': "lbq_advance i t q (pc th) = Some (q', p, nt)" using adv by simp
  from lbq_point_step [OF adv' ok pt] lbq_push_lock.step_ok [OF _ own(1) adv] lbq_pop_lock.step_ok [OF _ own(2) adv]
  show "lbq_shared_ok q' \<and> lbq_safe i t q' (th\<lparr>pc := p\<rparr>)" by (auto simp: lbq_safe_def)
  assume ne: "j \<noteq> i" and other: "lbq_safe j t q th'"
  have "lbq_point q' (pc th')"
  proof (rule lbq_point_frame)
    show "lcapacity q' = lcapacity q" "ldisposed q \<Longrightarrow> ldisposed q'" by (fact lbq_frame [OF adv'])+
    show "lbq_point q (pc th')" using other by (simp add: lbq_safe_def)
    show "holds_push (pc th') \<Longrightarrow> count q' \<le> count q"
      using lbq_frame(4) [OF adv' ok pt] other own ne by (auto simp: lbq_safe_def owns_def)
    show "holds_pop (pc th') \<Longrightarrow> count q \<le> count q'"
      using lbq_frame(3) [OF adv' ok pt] other own ne by (auto simp: lbq_safe_def owns_def)
  qed
  with lbq_push_lock.frame_ok [OF _ own(1) adv ne] lbq_pop_lock.frame_ok [OF _ own(2) adv ne] other
  show "lbq_safe j t q' th'" by (simp add: lbq_safe_def)
qed

section \<open>Waiter counters\<close>

fun lpush_section :: "'a lbq_pc \<Rightarrow> bool" where
  "lpush_section (LPushAt pt x tm) = wait_section pt"
| "lpush_section p = False"

fun lpop_section :: "'a lbq_pc \<Rightarrow> bool" where
  "lpop_section (LPopAt pt tm) = wait_section pt"
| "lpop_section p = False"

lemma lbq_push_count:
  assumes "lbq_advance i t q p = Some (q', p', nt)"
  shows "(lpush_section p' = lpush_section p \<and> push_side_waiters q' = push_side_waiters q)
    \<or> (\<not> lpush_section p \<and> lpush_section p' \<and> push_side_waiters q' = wrap_add usize_mod (push_side_waiters q) 1)
    \<or> (lpush_section p \<and> \<not> lpush_section p' \<and> push_side_waiters q' = wrap_sub usize_mod (push_side_waiters q) 1)"
  using assms
  by (cases rule: lbq_step_cases; (elim lbq_elims)?;
      auto simp: lbq_defs waiters_enter_def waiters_leave_def split: if_splits)

lemma lbq_pop_count:
  assumes "lbq_advance i t q p = Some (q', p', nt)"
  shows "(lpop_section p' = lpop_section p \<and> pop_side_waiters q' = pop_side_waiters q)
    \<or> (\<not> lpop_section p \<and> lpop_section p' \<and> pop_side_waiters q' = wrap_add usize_mod (pop_side_waiters q) 1)
    \<or> (lpop_section p \<and> \<not> lpop_section p' \<and> pop_side_waiters q' = wrap_sub usize_mod (pop_side_waiters q) 1)"
  using assms
  by (cases rule: lbq_step_cases; (elim lbq_elims)?;
      auto simp: lbq_defs waiters_enter_def waiters_leave_def split: if_splits)

interpretation lbq_push_count: counter lbq_machine usize_mod push_side_waiters lpush_section
proof
  fix op :: "'a bq_op" and p :: "'a lbq_pc"
  show "\<not> lpush_section (entry lbq_machine op)" by (cases op) auto
  show "resting lbq_machine p \<Longrightarrow> \<not> lpush_section p" by (auto elim!: lbq_resting.elims)
  show "dozing lbq_machine p \<noteq> None \<Longrightarrow> lpush_section (rouse lbq_machine p) = lpush_section p"
    by (auto elim!: lbq_dozing.elims)
qed (use lbq_push_count in \<open>simp, blast\<close>)

interpretation lbq_pop_count: counter lbq_machine usize_mod pop_side_waiters lpop_section
proof
  fix op :: "'a bq_op" and p :: "'a lbq_pc"
  show "\<not> lpop_section (entry lbq_machine op)" by (cases op) auto
  show "resting lbq_machine p \<Longrightarrow> \<not> lpop_section p" by (auto elim!: lbq_resting.elims)
  show "dozing lbq_machine p \<noteq> None \<Longrightarrow> lpop_section (rouse lbq_machine p) = lpop_section p"
    by (auto elim!: lbq_dozing.elims)
qed (use lbq_pop_count in \<open>simp, blast\<close>)

section \<open>The list in the heap\<close>

text \<open>
  What a thread carries: a node that is allocated but not linked, the item of a node that is
  linked but not counted, and the items that are unlinked but still counted.
\<close>

fun unlinked_node :: "'a lbq_pc \<Rightarrow> (nat \<times> 'a) list" where
  "unlinked_node (EnqAssert x a) = [(a, x)]"
| "unlinked_node (EnqLink x a) = [(a, x)]"
| "unlinked_node p = []"

fun uncounted :: "'a lbq_pc \<Rightarrow> 'a list" where
  "uncounted (EnqCount x) = [x]"
| "uncounted p = []"

fun unsubtracted :: "'a lbq_pc \<Rightarrow> 'a list" where
  "unsubtracted (DeqCount x) = [x]"
| "unsubtracted (DrainLoop n out) = out"
| "unsubtracted (DrainCount n out) = out"
| "unsubtracted p = []"

lemma carried_free:
  "\<not> holds_push p \<Longrightarrow> unlinked_node p = []" "\<not> holds_push p \<Longrightarrow> uncounted p = []"
  "\<not> holds_pop p \<Longrightarrow> unsubtracted p = []"
  by (cases p; simp)+

definition heap_ok :: "'a lbq \<Rightarrow> (nat \<times> 'a) list \<Rightarrow> 'a list \<Rightarrow> 'a list \<Rightarrow> (nat \<times> 'a) list \<Rightarrow> bool" where
  "heap_ok q N U G as \<longleftrightarrow> list_ok (heap q) (head q) (tail q) (fresh q) N as
     \<and> length G + length as = count q + length U \<and> (\<exists>xs. map snd as = xs @ U)"

text \<open>The queued items: unlinked but still counted ones, then those in counted nodes.\<close>

definition queued :: "'a lbq \<Rightarrow> 'a list \<Rightarrow> 'a list" where
  "queued q G = G @ contents (count q - length G) (heap q) (head q)"

lemma queued_list:
  assumes "heap_ok q N U G as"
  shows "queued q G @ U = G @ map snd as" and "length (queued q G) = count q"
proof -
  obtain xs where xs: "map snd as = xs @ U" using assms by (auto simp: heap_ok_def)
  then have len: "length as = length xs + length U" by (metis length_append length_map)
  with assms have eq: "length G + length xs = count q" by (simp add: heap_ok_def)
  have "links (heap q) (head q) as" using assms by (simp add: heap_ok_def list_ok_def)
  then have "contents (length xs) (heap q) (head q) = take (length xs) (map snd as)"
    by (simp add: contents_links take_map)
  moreover have "count q - length G = length xs" using eq by simp
  ultimately have "contents (count q - length G) (heap q) (head q) = take (length xs) (map snd as)" by simp
  with xs have *: "queued q G = G @ xs" by (simp add: queued_def)
  show "queued q G @ U = G @ map snd as" using * xs by simp
  show "length (queued q G) = count q" using * eq by simp
qed

lemma queued_same:
  assumes "heap_ok q N U G as" and "heap_ok q' N' U G' as'" and "G' @ map snd as' = G @ map snd as"
  shows "queued q' G' = queued q G"
  using queued_list(1) [OF assms(1)] queued_list(1) [OF assms(2)] assms(3) by (metis append_same_eq)

text \<open>What an action does to them.\<close>

definition queue_effect :: "'a lbq_pc \<Rightarrow> 'a list \<Rightarrow> 'a list \<Rightarrow> bool" where
  "queue_effect p A A' \<longleftrightarrow>
     (case p of
        EnqCount x \<Rightarrow> A' = A @ [x]
      | DeqCount x \<Rightarrow> A = x # A'
      | DrainCount n out \<Rightarrow> A = out @ A'
      | _ \<Rightarrow> A' = A)"

definition sound_pc :: "'a lbq_pc \<Rightarrow> bool" where
  "sound_pc p \<longleftrightarrow> p \<noteq> LPanicked \<and> p \<noteq> LFault"

fun subtracting :: "'a lbq_pc \<Rightarrow> bool" where
  "subtracting (DeqCount x) = True"
| "subtracting (DrainCount n out) = True"
| "subtracting p = False"

text \<open>The actions that do not touch the list.\<close>

fun plain_pc :: "'a lbq_pc \<Rightarrow> bool" where
  "plain_pc (EnqAlloc x) = False"
| "plain_pc (EnqLink x a) = False"
| "plain_pc (EnqCount x) = False"
| "plain_pc DeqUnlink = False"
| "plain_pc (DrainLoop n out) = (length out \<ge> n)"
| "plain_pc p = True"

lemma heap_step_plain:
  assumes "lbq_advance i t q p = Some (q', p', nt)" and "lbq_shared_ok q" and "lbq_point q p" and "plain_pc p"
  shows "sound_pc p' \<and> heap q' = heap q \<and> head q' = head q \<and> tail q' = tail q \<and> fresh q' = fresh q
    \<and> unlinked_node p' = unlinked_node p \<and> uncounted p' = uncounted p
    \<and> count q' + length (unsubtracted p) = count q + length (unsubtracted p')
    \<and> unsubtracted p' = (case p of DeqCount x \<Rightarrow> [] | DrainCount n out \<Rightarrow> [] | _ \<Rightarrow> unsubtracted p)
    \<and> (\<not> holds_pop p \<longrightarrow> \<not> holds_pop p' \<longrightarrow> count q' = count q)"
  using assms
  by (cases rule: lbq_step_cases; (elim lbq_elims)?;
      auto simp: lbq_defs lbq_points sound_pc_def count_less split: if_splits)

text \<open>
  One action on the list. The carried lists are those of the mover when it is inside the
  lock that they belong to, on either side of the action, and do not change otherwise.
\<close>

lemma heap_step:
  assumes adv: "lbq_advance i t q p = Some (q', p', nt)" and ok: "lbq_shared_ok q" and pt: "lbq_point q p"
    and hp: "heap_ok q N U G as"
    and pushin: "holds_push p \<or> holds_push p' \<Longrightarrow>
      N = unlinked_node p \<and> N' = unlinked_node p' \<and> U = uncounted p \<and> U' = uncounted p'"
    and pushout: "\<not> holds_push p \<Longrightarrow> \<not> holds_push p' \<Longrightarrow> N' = N \<and> U' = U"
    and popin: "holds_pop p \<or> holds_pop p' \<Longrightarrow> G = unsubtracted p \<and> G' = unsubtracted p'"
    and popout: "\<not> holds_pop p \<Longrightarrow> \<not> holds_pop p' \<Longrightarrow> G' = G"
  shows "sound_pc p' \<and> (\<exists>as'. heap_ok q' N' U' G' as' \<and> queue_effect p (queued q G) (queued q' G'))"
proof (cases "plain_pc p")
  case True
  note step = heap_step_plain [OF adv ok pt True]
  have NU: "N' = N" "U' = U"
    using step pushin pushout by (cases "holds_push p \<or> holds_push p'"; simp)+
  moreover have "count q' + length G = count q + length G'"
    using step popin popout by (cases "holds_pop p \<or> holds_pop p'") auto
  ultimately have hp': "heap_ok q' N' U' G' as" using hp step by (auto simp: heap_ok_def)
  have "queue_effect p (queued q G) (queued q' G')"
  proof (cases "subtracting p")
    case True
    then have G: "G = unsubtracted p" "G' = []" using popin step by (cases p; simp)+
    then have "queued q G @ U = (G @ queued q' G') @ U"
      using queued_list(1) [OF hp] queued_list(1) [OF hp'] NU by simp
    then have "queued q G = G @ queued q' G'" by (simp only: append_same_eq)
    with True G show ?thesis by (cases p) (auto simp: queue_effect_def)
  next
    case False
    then have "unsubtracted p' = unsubtracted p" using step by (cases p) auto
    then have "G' = G" using popin popout by (cases "holds_pop p \<or> holds_pop p'") auto
    with queued_same [OF hp] hp' NU have "queued q' G' = queued q G" by simp
    with False True show ?thesis by (cases p) (auto simp: queue_effect_def)
  qed
  with hp' step show ?thesis by blast
next
  case False
  have cons: "\<exists>b y bs. as = (b, y) # bs \<and> list_ok (heap q) (head q) (tail q) (fresh q) N ((b, y) # bs)
      \<and> (\<exists>xs. map snd bs = xs @ U)" if "length G < count q"
  proof -
    from hp obtain xs where xs: "map snd as = xs @ U" by (auto simp: heap_ok_def)
    then have "length as = length xs + length U" by (metis length_append length_map)
    with hp that obtain y ys where "xs = y # ys" by (cases xs) (auto simp: heap_ok_def)
    with xs hp show ?thesis by (cases as) (auto simp: heap_ok_def)
  qed
  show ?thesis
    using adv
  proof (cases rule: lbq_step_cases)
    case (Alloc x)
    then have *: "N = []" "U = []" "U' = []" "N' = [(fresh q, x)]" "G' = G"
      using pushin popout by (auto simp: en_q_alloc_def)
    with Alloc hp list_ok_alloc [of "heap q" "head q" "tail q" "fresh q" as x]
    have hp': "heap_ok q' N' U' G' as" and "sound_pc p'" by (auto simp: heap_ok_def en_q_alloc_def sound_pc_def)
    with queued_list(1) [OF hp] queued_list(1) [OF hp'] * Alloc(1) show ?thesis by (auto simp: queue_effect_def)
  next
    case (Link x a h)
    then have *: "N = [(a, x)]" "U = []" "U' = [x]" "N' = []" "G' = G" using pushin popout by auto
    with hp have lo: "list_ok (heap q) (head q) (tail q) (fresh q) [(a, x)] as" by (simp add: heap_ok_def)
    obtain n where n: "heap q (tail q) = Some n" using list_ok_tail [OF lo] by blast
    with Link(2) have "q' = q\<lparr>heap := (heap q)(tail q := Some (n\<lparr>next_node := Some a\<rparr>)), tail := a\<rparr>"
      by (simp add: en_q_link_def)
    with list_ok_link [OF lo n] * hp have hp': "heap_ok q' N' U' G' (as @ [(a, x)])"
      by (auto simp: heap_ok_def)
    with queued_list(1) [OF hp] queued_list(1) [OF hp'] * Link(1,4) show ?thesis
      by (auto simp: queue_effect_def sound_pc_def)
  next
    case (LinkFault x a)
    with pushin hp have "list_ok (heap q) (head q) (tail q) (fresh q) [(a, x)] as" by (simp add: heap_ok_def)
    then have False using LinkFault list_ok_tail by (fastforce simp: en_q_link_def)
    then show ?thesis ..
  next
    case (Count x)
    then have *: "N' = N" "U = [x]" "U' = []" "G' = G" using pushin popout by (auto simp: en_q_count_def)
    with Count hp ok pt have hp': "heap_ok q' N' U' G' as" and "sound_pc p'"
      by (auto simp: heap_ok_def en_q_count_def sound_pc_def lbq_shared_ok_def lis_full_def count_room)
    with queued_list(1) [OF hp] queued_list(1) [OF hp'] * Count(1) show ?thesis by (auto simp: queue_effect_def)
  next
    case (Unlink x h a)
    with popin pushout pt have *: "G = []" "G' = [x]" "N' = N" "U' = U" "length G < count q"
      by (auto simp: lis_empty_def)
    from cons [OF *(5)] obtain b y bs where as: "as = (b, y) # bs" "\<exists>xs. map snd bs = xs @ U"
      and "list_ok (heap q) (head q) (tail q) (fresh q) N ((b, y) # bs)" by blast
    with Unlink * hp have hp': "heap_ok q' N' U' G' bs" and "x = y"
      by (elim unlink_some; auto simp: heap_ok_def)+
    with queued_same [OF hp, of q' N' G' bs] * as(1) Unlink(1,4) show ?thesis
      by (auto simp: queue_effect_def sound_pc_def)
  next
    case UnlinkStop
    with popin pt have "length G < count q" by (auto simp: lis_empty_def)
    from cons [OF this] obtain b y bs where "list_ok (heap q) (head q) (tail q) (fresh q) N ((b, y) # bs)" by blast
    with UnlinkStop have False by (elim unlink_some) auto
    then show ?thesis ..
  next
    case (DrStop n out)
    with popin pt have "length G < count q" by auto
    from cons [OF this] obtain b y bs where "list_ok (heap q) (head q) (tail q) (fresh q) N ((b, y) # bs)" by blast
    with DrStop have False by (elim unlink_some) auto
    then show ?thesis ..
  next
    case (DrNext n out x h a)
    with popin pushout pt have *: "G = out" "G' = out @ [x]" "N' = N" "U' = U" "length G < count q" by auto
    from cons [OF *(5)] obtain b y bs where as: "as = (b, y) # bs" "\<exists>xs. map snd bs = xs @ U"
      and "list_ok (heap q) (head q) (tail q) (fresh q) N ((b, y) # bs)" by blast
    with DrNext * hp have hp': "heap_ok q' N' U' G' bs" and "x = y"
      by (elim unlink_some; auto simp: heap_ok_def)+
    with queued_same [OF hp, of q' N' G' bs] * as(1) DrNext(1,5) show ?thesis
      by (auto simp: queue_effect_def sound_pc_def)
  qed (use False in auto)
qed

end
