(* ===== verification/LinkedLin.thy ===== *)
theory LinkedLin
  imports LinkedInv
begin

text \<open>
  The linked queue is linearizable to \<open>lbq_spec\<close>. A push takes effect when it counts its
  node, a pop or a drain when it subtracts what it unlinked, a refused call when it reads the
  count (or the flag) that refuses it. Compared with the array queue the specification is
  weaker in three places, because the ends run concurrently: a push that has read the flag
  as false may still take effect after a disposal, a drain hands out the items that were
  there when it started and may leave later ones, and a timeout says nothing about the
  queue.
\<close>

section \<open>The specification\<close>

definition lpush_spec :: "'a \<Rightarrow> (HioLastError \<Rightarrow> bool) \<Rightarrow> 'a bq_res \<Rightarrow> 'a bq_abs \<Rightarrow> 'a bq_abs option" where
  "lpush_spec x refusal r A =
     (case r of
        PushRes (Inr _) \<Rightarrow> ensure (has_room A) (A\<lparr>items := items A @ [x]\<rparr>)
      | PushRes (Inl (e, y)) \<Rightarrow> ensure (y = x \<and> refusal e) A
      | _ \<Rightarrow> None)"

definition lpop_spec :: "(HioLastError \<Rightarrow> bool) \<Rightarrow> 'a bq_res \<Rightarrow> 'a bq_abs \<Rightarrow> 'a bq_abs option" where
  "lpop_spec refusal r A =
     (case r of
        PopRes (Inr x) \<Rightarrow> (case items A of [] \<Rightarrow> None | y # ys \<Rightarrow> ensure (y = x) (A\<lparr>items := ys\<rparr>))
      | PopRes (Inl e) \<Rightarrow> ensure (refusal e) A
      | _ \<Rightarrow> None)"

text \<open>
  \<open>try_pop\<close> finds the queue empty first and picks its error by the flag afterwards: its
  refusal is linearized with the canonical error \<open>ResourceUnavailable\<close> (\<open>lin_res\<close>).
\<close>

fun lin_res :: "'a bq_res \<Rightarrow> 'a bq_res" where
  "lin_res (PopRes (Inl e)) = PopRes (Inl (if e = WouldBlock then ResourceUnavailable else e))"
| "lin_res r = r"

fun lbq_spec :: "'a bq_op \<Rightarrow> 'a bq_res \<Rightarrow> 'a bq_abs \<Rightarrow> 'a bq_abs option" where
  "lbq_spec (OpPush x) r A = lpush_spec x (\<lambda>e. e = ResourceUnavailable \<and> closed A) r A"
| "lbq_spec (OpTryPush x) r A =
     lpush_spec x (\<lambda>e. e = ResourceUnavailable \<and> closed A \<or> e = WouldBlock \<and> \<not> has_room A) r A"
| "lbq_spec (OpPushTimeout x d) r A =
     lpush_spec x (\<lambda>e. e = ResourceUnavailable \<and> closed A \<or> e = Timeout) r A"
| "lbq_spec OpPop r A = lpop_spec (\<lambda>e. e = ResourceUnavailable \<and> closed A \<and> items A = []) r A"
| "lbq_spec OpTryPop r A = lpop_spec (\<lambda>e. e = ResourceUnavailable \<and> items A = []) r A"
| "lbq_spec (OpPopTimeout d) r A =
     lpop_spec (\<lambda>e. e = ResourceUnavailable \<and> closed A \<and> items A = [] \<or> e = Timeout) r A"
| "lbq_spec OpDrain r A =
     (case r of
        DrainRes xs \<Rightarrow>
          ensure (xs = take (length xs) (items A)) (A\<lparr>items := drop (length xs) (items A)\<rparr>)
      | _ \<Rightarrow> None)"
| "lbq_spec OpDispose r A = (case r of DisposeRes \<Rightarrow> Some (A\<lparr>closed := True\<rparr>) | _ \<Rightarrow> None)"
| "lbq_spec OpSize r A = (case r of SizeRes n \<Rightarrow> ensure (n = length (items A)) A | _ \<Rightarrow> None)"
| "lbq_spec OpCapacity r A = (case r of CapacityRes n \<Rightarrow> ensure (n = bound A) A | _ \<Rightarrow> None)"
| "lbq_spec OpIsDisposed r A = (case r of IsDisposedRes b \<Rightarrow> ensure (b = closed A) A | _ \<Rightarrow> None)"

interpretation lbq: item_spec lbq_spec
proof
  fix op :: "'a bq_op" and r A B i
  assume "lbq_spec op r A = Some B"
  then show "items A @ pushed [EvLin i op r] = taken [EvLin i op r] @ items B \<and> bound B = bound A
      \<and> (closed A \<longrightarrow> closed B) \<and> (length (items A) \<le> bound A \<longrightarrow> length (items B) \<le> bound B)"
    by (cases op; cases r)
      (auto simp: lpush_spec_def lpop_spec_def has_room_def split: sum.splits prod.splits list.splits,
        metis append_take_drop_id)
qed

section \<open>The call a program point belongs to\<close>

fun pushes :: "'a bq_op \<Rightarrow> 'a \<Rightarrow> bool" where
  "pushes (OpPush y) x = (y = x)"
| "pushes (OpTryPush y) x = (y = x)"
| "pushes (OpPushTimeout y d) x = (y = x)"
| "pushes op x = False"

fun pops :: "'a bq_op \<Rightarrow> bool" where
  "pops OpPop = True"
| "pops OpTryPop = True"
| "pops (OpPopTimeout d) = True"
| "pops op = False"

fun lbq_fits :: "'a bq_op \<Rightarrow> 'a lbq_pc \<Rightarrow> bool" where
  "lbq_fits op (LPushAt pt x tm) =
     (case tm of Untimed \<Rightarrow> op = OpPush x | Timed d st \<Rightarrow> op = OpPushTimeout x d)"
| "lbq_fits op (LTryPushAt pt x) = (op = OpTryPush x)"
| "lbq_fits op (EnqAlloc x) = pushes op x"
| "lbq_fits op (EnqAssert x a) = pushes op x"
| "lbq_fits op (EnqLink x a) = pushes op x"
| "lbq_fits op (EnqCount x) = pushes op x"
| "lbq_fits op (EnqNotify prev) = (\<exists>x. pushes op x)"
| "lbq_fits op (EnqUnlock prev) = (\<exists>x. pushes op x)"
| "lbq_fits op (SigEmpty pt) = (\<exists>x. pushes op x)"
| "lbq_fits op (LPopAt pt tm) = (case tm of Untimed \<Rightarrow> op = OpPop | Timed d st \<Rightarrow> op = OpPopTimeout d)"
| "lbq_fits op (LTryPopAt pt) = (op = OpTryPop)"
| "lbq_fits op DeqUnlink = pops op"
| "lbq_fits op (DeqCount x) = pops op"
| "lbq_fits op (DeqNotify prev x) = pops op"
| "lbq_fits op (DeqUnlock prev x) = pops op"
| "lbq_fits op (SigFull pt x) = pops op"
| "lbq_fits op DrainLock = (op = OpDrain)"
| "lbq_fits op DrainLoad = (op = OpDrain)"
| "lbq_fits op (DrainLoop n out) = (op = OpDrain)"
| "lbq_fits op (DrainCount n out) = (op = OpDrain)"
| "lbq_fits op (DrainUnlock n out) = (op = OpDrain)"
| "lbq_fits op (DrainWake pt out) = (op = OpDrain)"
| "lbq_fits op (LDisposeAt pt) = (op = OpDispose)"
| "lbq_fits op LSizeAt = (op = OpSize)"
| "lbq_fits op LCapacityAt = (op = OpCapacity)"
| "lbq_fits op LIsDisposedAt = (op = OpIsDisposed)"
| "lbq_fits op p = True"

fun lbq_clock :: "'a bq_op \<Rightarrow> nat \<Rightarrow> nat \<Rightarrow> 'a lbq_pc \<Rightarrow> bool" where
  "lbq_clock op c t (LPushAt pt x tm) = wait_clock c t pt tm"
| "lbq_clock op c t (LPopAt pt tm) = wait_clock c t pt tm"
| "lbq_clock op c t (ReturnPush r) = expired op c t r"
| "lbq_clock op c t (ReturnPop r) = expired op c t r"
| "lbq_clock op c t (LDone r) = expired op c t r"
| "lbq_clock op c t p = True"

definition lbq_call :: "tid \<Rightarrow> nat \<Rightarrow> 'a lbq \<Rightarrow> ('a bq_op, 'a lbq_pc) thread \<Rightarrow> bool" where
  "lbq_call i t q th \<longleftrightarrow> called th \<le> t \<and>
     (pc th = LIdle \<or> (\<exists>op. cur th = Some op \<and> lbq_fits op (pc th) \<and> lbq_clock op (called th) t (pc th)))"

lemma pushes_elim: "pushes op x \<Longrightarrow> bq_answers op (PushRes (Inr ()))"
  by (cases op) auto

lemma pops_elim: "pops op \<Longrightarrow> bq_answers op (PopRes (Inr x))"
  by (cases op) auto

lemma lbq_call_step:
  assumes "lbq_advance i t q p = Some (q', p', nt)"
    and "c \<le> t" and "lbq_fits op p" and "lbq_clock op c t p"
  shows "lbq_fits op p' \<and> lbq_clock op c t p'"
  using assms
  by (cases rule: lbq_step_cases; (elim lbq_elims)?;
      auto simp: lbq_defs expired_def pops_elim split: if_splits dest: pushes_elim)

lemma lbq_clock_tick: "lbq_clock op c t p \<Longrightarrow> lbq_clock op c (t + d) p"
  by (cases p) (auto simp: wait_clock_tick expired_tick)

interpretation lbq_call: guarded lbq_machine "\<lambda>_. True" lbq_call
proof
  fix q q' :: "'a lbq" and i j t d p nt op and th th' :: "('a bq_op, 'a lbq_pc) thread"
  show "lbq_call i t q \<lparr>cur = Some op, called = t, pc = entry lbq_machine op\<rparr>"
    by (cases op) (auto simp: lbq_call_def)
  show "lbq_call i t q th \<Longrightarrow> dozing lbq_machine (pc th) \<noteq> None \<Longrightarrow>
      lbq_call i t q (th\<lparr>pc := rouse lbq_machine (pc th)\<rparr>)"
    by (cases "pc th" rule: lbq_dozing.cases) (auto simp: lbq_call_def elim!: wait_clock.elims)
  show "lbq_call i t q th \<Longrightarrow> lbq_call i (t + d) q th"
    by (auto simp: lbq_call_def lbq_clock_tick)
  assume call: "lbq_call i t q th" and adv: "advance lbq_machine i t q (pc th) = Some (q', p, nt)"
  from adv have adv': "lbq_advance i t q (pc th) = Some (q', p, nt)" by simp
  then have "pc th \<noteq> LIdle" by auto
  with call lbq_call_step [OF adv']
  show "True \<and> lbq_call i t q' (th\<lparr>pc := p\<rparr>)" by (auto simp: lbq_call_def)
qed (simp add: lbq_call_def)

section \<open>The invariant of the system\<close>

definition lbq_inv :: "('a bq_op, 'a lbq, 'a lbq_pc) sys \<Rightarrow> bool" where
  "lbq_inv s \<longleftrightarrow> lbq_shared_ok (shared s) \<and> all_threads lbq_safe s \<and> all_threads lbq_call s
     \<and> (\<exists>as. heap_ok (shared s) (held unlinked_node (threads s)) (held uncounted (threads s))
           (held unsubtracted (threads s)) as)
     \<and> (\<forall>i < length (threads s). sound_pc (pc (threads s ! i)))"

definition lbq_items :: "('a bq_op, 'a lbq, 'a lbq_pc) sys \<Rightarrow> 'a list" where
  "lbq_items s = queued (shared s) (held unsubtracted (threads s))"

definition lbq_view :: "'a lbq \<Rightarrow> 'a list \<Rightarrow> 'a bq_abs" where
  "lbq_view q xs = \<lparr>items = xs, closed = ldisposed q, bound = lcapacity q\<rparr>"

definition lbq_abs :: "('a bq_op, 'a lbq, 'a lbq_pc) sys \<Rightarrow> 'a bq_abs" where
  "lbq_abs s = lbq_view (shared s) (lbq_items s)"

lemma lbq_inv_owns:
  "lbq_inv s \<Longrightarrow> all_threads (owns push_lock holds_push) s"
  "lbq_inv s \<Longrightarrow> all_threads (owns pop_lock holds_pop) s"
  by (simp_all add: lbq_inv_def all_threads_def lbq_safe_def)

lemma lbq_inv_at:
  assumes "lbq_inv s" and "i < length (threads s)"
  shows "lbq_shared_ok (shared s)" and "lbq_point (shared s) (pc (threads s ! i))"
    and "lbq_call i (now s) (shared s) (threads s ! i)" and "sound_pc (pc (threads s ! i))"
  using assms by (auto simp: lbq_inv_def all_threads_def lbq_safe_def)

lemma lbq_size_items: "lbq_inv s \<Longrightarrow> length (lbq_items s) = count (shared s)"
  using queued_list(2) by (auto simp: lbq_inv_def lbq_items_def)

text \<open>An action of thread \<open>i\<close>, on the list and on the queued items.\<close>

lemma lbq_run_heap:
  assumes inv: "lbq_inv s" and ex: "exec lbq_machine (Run i ks) s = Some t"
  shows "sound_pc (pc (threads t ! i)) \<and> (\<exists>as. heap_ok (shared t) (held unlinked_node (threads t))
      (held uncounted (threads t)) (held unsubtracted (threads t)) as)
    \<and> queue_effect (pc (threads s ! i)) (lbq_items s) (lbq_items t)"
  using ex
proof (rule lbq.run_mover)
  fix q p nt
  assume i: "i < length (threads s)"
    and adv: "advance lbq_machine i (now s) (shared s) (pc (threads s ! i)) = Some (q, p, nt)"
    and t: "shared t = q" "threads t ! i = (threads s ! i)\<lparr>pc := p\<rparr>"
  from inv obtain as where hp: "heap_ok (shared s) (held unlinked_node (threads s)) (held uncounted (threads s))
      (held unsubtracted (threads s)) as" by (auto simp: lbq_inv_def)
  note held = lbq_push_lock.run_held [OF lbq_inv_owns(1) [OF inv] ex, of unlinked_node]
    lbq_push_lock.run_held [OF lbq_inv_owns(1) [OF inv] ex, of uncounted]
    lbq_pop_lock.run_held [OF lbq_inv_owns(2) [OF inv] ex, of unsubtracted]
  show ?thesis
    using heap_step [OF _ lbq_inv_at(1,2) [OF inv i] hp, of i "now s" q p nt
        "held unlinked_node (threads t)" "held uncounted (threads t)" "held unsubtracted (threads t)"]
      adv held carried_free t by (auto simp: lbq_items_def)
qed

text \<open>The other labels leave the list and what the threads carry alone.\<close>

lemma lbq_exec_other:
  assumes "exec lbq_machine l s = Some t" and "\<And>i ks. l \<noteq> Run i ks"
  shows "shared t = shared s \<and> held unlinked_node (threads t) = held unlinked_node (threads s)
    \<and> held uncounted (threads t) = held uncounted (threads s)
    \<and> held unsubtracted (threads t) = held unsubtracted (threads s)"
  using lbq_push_lock.exec_held [OF assms, of unlinked_node] lbq_push_lock.exec_held [OF assms, of uncounted]
    lbq_pop_lock.exec_held [OF assms, of unsubtracted] carried_free assms
  by (cases l) (auto split: if_splits)

lemma sound_rouse: "lbq_dozing p \<noteq> None \<Longrightarrow> sound_pc (lbq_rouse p)"
  by (auto simp: sound_pc_def elim!: lbq_dozing.elims)

lemma lbq_exec_sound:
  assumes "lbq_inv s" and ex: "exec lbq_machine l s = Some t" and "i < length (threads s)"
  shows "sound_pc (pc (threads t ! i))"
proof (cases "\<exists>j ks. l = Run j ks")
  case True
  then obtain j ks where l: "l = Run j ks" by blast
  show ?thesis
    using ex unfolding l
  proof (rule lbq.run_mover)
    assume others: "\<And>k. k < length (threads s) \<Longrightarrow> k \<noteq> j \<Longrightarrow> threads t ! k = threads s ! k \<or>
        (dozing lbq_machine (pc (threads s ! k)) \<noteq> None
          \<and> threads t ! k = (threads s ! k)\<lparr>pc := rouse lbq_machine (pc (threads s ! k))\<rparr>)"
    show ?thesis
    proof (cases "i = j")
      case True
      with lbq_run_heap [OF assms(1), of j ks t] ex l show ?thesis by simp
    next
      case False
      with others [OF assms(3)] lbq_inv_at(4) [OF assms(1,3)] sound_rouse [of "pc (threads s ! i)"]
      show ?thesis by auto
    qed
  qed
next
  case False
  with ex lbq_inv_at(4) [OF assms(1,3)] show ?thesis
  proof (cases l)
    case (Call j op)
    have "sound_pc (lbq_entry op)" by (cases op) (auto simp: sound_pc_def)
    with Call ex lbq_inv_at(4) [OF assms(1,3)] show ?thesis
      by (auto simp: nth_list_update split: if_splits)
  next
    case (Spurious j)
    with ex lbq_inv_at(4) [OF assms(1,3)] show ?thesis
      by (auto simp: nth_list_update sound_pc_def split: if_splits elim!: lbq_dozing.elims)
  qed auto
qed

lemma lbq_inv_exec:
  assumes inv: "lbq_inv s" and ex: "exec lbq_machine l s = Some t"
  shows "lbq_inv t"
proof -
  have "\<exists>as. heap_ok (shared t) (held unlinked_node (threads t)) (held uncounted (threads t))
      (held unsubtracted (threads t)) as"
  proof (cases "\<exists>j ks. l = Run j ks")
    case True
    with lbq_run_heap [OF inv] ex show ?thesis by blast
  next
    case False
    with lbq_exec_other [OF ex] inv show ?thesis by (auto simp: lbq_inv_def)
  qed
  with lbq_safe.exec_guarded [OF ex] lbq_call.exec_guarded [OF ex] inv lbq_exec_sound [OF inv ex] exec_length [OF ex]
  show ?thesis by (simp add: lbq_inv_def)
qed

lemma lbq_inv_start:
  assumes "c \<le> usize_max" and "s = lbq_start c n"
  shows "lbq_inv s"
proof -
  have held: "held f (replicate n th) = []" if "f (pc th) = []" for f and th :: "('a bq_op, 'a lbq_pc) thread"
    using that by (simp add: held_def)
  have "list_ok (heap (lbq_new c)) 0 0 1 [] []"
    by (auto simp: list_ok_def dummy_at_def lbq_new_def dummy_node_def new_node_def split: if_splits)
  then have "heap_ok (lbq_new c) [] [] [] []" by (simp add: heap_ok_def lbq_new_def)
  with assms show ?thesis
    by (auto simp: lbq_inv_def lbq_start_def held all_threads_def lbq_safe_def owns_def lbq_call_def sound_pc_def
        lbq_shared_ok_def lbq_new_def ensure_capacity_def usize_max_def usize_mod_def)
qed

lemma lbq_inv_run:
  "run lbq_machine ls (lbq_start c n) = Some s \<Longrightarrow> c \<le> usize_max \<Longrightarrow> lbq_inv s"
  using run_invariant [of lbq_inv lbq_machine ls] lbq_inv_exec lbq_inv_start by blast

section \<open>Linearization\<close>

fun lbq_decided :: "'a lbq_pc \<Rightarrow> 'a bq_res option" where
  "lbq_decided (EnqNotify prev) = Some (PushRes (Inr ()))"
| "lbq_decided (EnqUnlock prev) = Some (PushRes (Inr ()))"
| "lbq_decided (SigEmpty pt) = Some (PushRes (Inr ()))"
| "lbq_decided (LPopAt pt tm) = (if pt = After2 then Some (PopRes (Inl ResourceUnavailable)) else None)"
| "lbq_decided (LTryPopAt pt) = (if pt = Try2 then Some (PopRes (Inl ResourceUnavailable)) else None)"
| "lbq_decided (DeqNotify prev x) = Some (PopRes (Inr x))"
| "lbq_decided (DeqUnlock prev x) = Some (PopRes (Inr x))"
| "lbq_decided (SigFull pt x) = Some (PopRes (Inr x))"
| "lbq_decided (DrainUnlock n out) = Some (DrainRes out)"
| "lbq_decided (DrainWake pt out) = Some (DrainRes out)"
| "lbq_decided (LDisposeAt pt) = (if pt = LDisposeCas then None else Some DisposeRes)"
| "lbq_decided (ReturnPush r) = Some (lin_res r)"
| "lbq_decided (ReturnPop r) = Some (lin_res r)"
| "lbq_decided (LDone r) = Some (lin_res r)"
| "lbq_decided p = None"

lemma lpush_spec_push: "pushes op x \<Longrightarrow> has_room A \<Longrightarrow>
    lbq_spec op (PushRes (Inr u)) A = Some (A\<lparr>items := items A @ [x]\<rparr>)"
  by (cases op) (auto simp: lpush_spec_def)

lemma lpop_spec_pop: "pops op \<Longrightarrow> items A = x # ys \<Longrightarrow>
    lbq_spec op (PopRes (Inr x)) A = Some (A\<lparr>items := ys\<rparr>)"
  by (cases op) (auto simp: lpop_spec_def)

lemma lbq_lin_step:
  assumes "lbq_advance i t q p = Some (q', p', nt)" and "lbq_point q p" and "lbq_fits op p" and "sound_pc p'"
    and "queue_effect p A A'" and "length A = count q"
  shows "case lbq_decided p of
      Some r \<Rightarrow> lbq_decided p' = Some r \<and> lbq_view q' A' = lbq_view q A
    | None \<Rightarrow>
        (case lbq_decided p' of
           None \<Rightarrow> lbq_view q' A' = lbq_view q A
         | Some r \<Rightarrow> lbq_spec op r (lbq_view q A) = Some (lbq_view q' A'))"
  using assms
  by (cases rule: lbq_step_cases; (elim lbq_elims)?;
      auto simp: lbq_defs lbq_points lbq_view_def lpush_spec_def lpop_spec_def has_room_def queue_effect_def
        sound_pc_def lpush_spec_push lpop_spec_pop split: if_splits)

lemma lbq_abs_other:
  assumes "exec lbq_machine l s = Some t" and "\<And>i ks. l \<noteq> Run i ks"
  shows "lbq_abs t = lbq_abs s"
  using lbq_exec_other [OF assms] by (simp add: lbq_abs_def lbq_items_def)

interpretation lbq_lin: linearizable lbq_machine lbq_inv "\<lambda>_. lbq_decided" lbq_abs lbq_spec
proof
  fix s t :: "('a bq_op, 'a lbq, 'a lbq_pc) sys" and q :: "'a lbq" and op :: "'a bq_op"
    and p :: "'a lbq_pc" and i ks n l
  show "lbq_inv s \<Longrightarrow> exec lbq_machine l s = Some t \<Longrightarrow> lbq_inv t" by (rule lbq_inv_exec)
  show "lbq_decided (entry lbq_machine op) = None" by (cases op) auto
  show "lbq_inv s \<Longrightarrow> exec lbq_machine (Call i op) s = Some t \<Longrightarrow> lbq_abs t = lbq_abs s"
    by (erule lbq_abs_other) simp
  show "lbq_inv s \<Longrightarrow> exec lbq_machine (Spurious i) s = Some t \<Longrightarrow> lbq_abs t = lbq_abs s"
    by (erule lbq_abs_other) simp
  show "lbq_inv s \<Longrightarrow> lbq_abs (s\<lparr>now := n\<rparr>) = lbq_abs s" by (simp add: lbq_abs_def lbq_items_def)
  show "dozing lbq_machine p \<noteq> None \<Longrightarrow> lbq_decided (rouse lbq_machine p) = lbq_decided p"
    by (auto elim!: lbq_dozing.elims)
  assume inv: "lbq_inv s" and ex: "exec lbq_machine (Run i ks) s = Some t"
  show "case lbq_decided (pc (threads s ! i)) of
      Some r \<Rightarrow> lbq_decided (pc (threads t ! i)) = Some r \<and> lbq_abs t = lbq_abs s
    | None \<Rightarrow>
        (case lbq_decided (pc (threads t ! i)) of
           None \<Rightarrow> lbq_abs t = lbq_abs s
         | Some r \<Rightarrow> \<exists>op. cur (threads s ! i) = Some op \<and> lbq_spec op r (lbq_abs s) = Some (lbq_abs t))"
    using ex
  proof (rule lbq.run_mover)
    fix q p nt
    assume i: "i < length (threads s)"
      and adv: "advance lbq_machine i (now s) (shared s) (pc (threads s ! i)) = Some (q, p, nt)"
      and t: "shared t = q" "threads t ! i = (threads s ! i)\<lparr>pc := p\<rparr>"
    from adv have adv': "lbq_advance i (now s) (shared s) (pc (threads s ! i)) = Some (q, p, nt)" by simp
    then have "pc (threads s ! i) \<noteq> LIdle" by auto
    with lbq_inv_at(3) [OF inv i] obtain op
      where op: "cur (threads s ! i) = Some op" "lbq_fits op (pc (threads s ! i))" by (auto simp: lbq_call_def)
    from lbq_run_heap [OF inv ex] t have "sound_pc p"
      and "queue_effect (pc (threads s ! i)) (lbq_items s) (lbq_items t)" by auto
    from lbq_lin_step [OF adv' lbq_inv_at(2) [OF inv i] op(2) this lbq_size_items [OF inv]] op(1) t
    show ?thesis by (simp add: lbq_abs_def split: option.splits)
  qed
qed simp

lemma lbq_abs_start: "c \<le> usize_max \<Longrightarrow>
    lbq_abs (lbq_start c n) = \<lparr>items = [], closed = False, bound = ensure_capacity c\<rparr>"
  using lbq_size_items [OF lbq_inv_start, of c "lbq_start c n" n]
  by (simp add: lbq_abs_def lbq_view_def) (simp add: lbq_start_def lbq_new_def)

section \<open>Pushes after a disposal\<close>

text \<open>The pushes that have read the flag as false and not yet taken effect.\<close>

fun committing :: "'a lbq_pc \<Rightarrow> bool" where
  "committing (EnqAlloc x) = True"
| "committing (LTryPushAt pt x) = (pt = Try2)"
| "committing (EnqAssert x a) = True"
| "committing (EnqLink x a) = True"
| "committing (EnqCount x) = True"
| "committing p = False"

lemma committing_holds: "committing p \<Longrightarrow> holds_push p"
  by (cases p) auto

lemma lbq_commit_step:
  assumes "lbq_advance i t q p = Some (q', p', nt)" and "ldisposed q" and "lbq_fits op p"
  shows "(committing p' \<longrightarrow> committing p)
    \<and> (\<forall>r. lbq_decided p = None \<longrightarrow> lbq_decided p' = Some r \<longrightarrow> pushed [EvLin i op r] \<noteq> [] \<longrightarrow>
        committing p \<and> \<not> committing p' \<and> length (pushed [EvLin i op r]) = 1)"
  using assms
  by (cases rule: lbq_step_cases; (elim lbq_elims)?;
      auto simp: lbq_defs split: if_splits bq_op.splits bq_res.splits sum.splits)

lemma lbq_late_exec:
  assumes inv: "lbq_inv s" and ex: "exec lbq_machine l s = Some t" and dis: "ldisposed (shared s)"
  shows "ldisposed (shared t) \<and>
    length (pushed (lin_event (\<lambda>_. lbq_decided) l s t)) + inside committing (threads t) \<le> inside committing (threads s)"
proof -
  have rouse: "of_bool (committing (lbq_rouse p)) = (of_bool (committing p) :: nat)" if "lbq_dozing p \<noteq> None" for p :: "'a lbq_pc"
    using that by (auto elim!: lbq_dozing.elims)
  show ?thesis
    using ex
  proof (cases rule: exec_cases)
    case (Call i op)
    have "\<not> committing (lbq_entry op)" by (cases op) auto
    with Call dis show ?thesis
      by (auto simp: inside_def lin_event_def intro!: eq_refl weight_update_same elim!: lbq_resting.elims)
  next
    case (Run i ks q p nt us)
    let ?o = "pc (threads s ! i)" and ?f = "\<lambda>p. of_bool (committing p) :: nat"
    let ?mid = "(threads s)[i := (threads s ! i)\<lparr>pc := p\<rparr>]"
    have adv: "lbq_advance i (now s) (shared s) ?o = Some (q, p, nt)" using Run(3) by simp
    then have "?o \<noteq> LIdle" by auto
    with lbq_inv_at(3) [OF inv Run(2)] obtain op
      where op: "cur (threads s ! i) = Some op" "lbq_fits op ?o" by (auto simp: lbq_call_def)
    have us: "weight ?f us = weight ?f ?mid"
      using Run(4) by (rule weight_deliver_same) (simp add: rouse)
    have upd: "weight ?f ?mid + ?f ?o = weight ?f (threads s) + ?f p"
      using weight_update [OF Run(2), of ?f "(threads s ! i)\<lparr>pc := p\<rparr>"] by simp
    have me: "pc (us ! i) = p"
      using deliver_nth [OF Run(4), of i] Run(2) lbq.doze_quiet [OF Run(3)] by (cases nt) auto
    have "length (pushed (lin_event (\<lambda>_. lbq_decided) l s t)) + ?f p \<le> ?f ?o"
    proof (cases "lbq_decided ?o = None \<and> lbq_decided p \<noteq> None")
      case True
      then obtain r where r: "lbq_decided ?o = None" "lbq_decided p = Some r" by auto
      then have "lin_event (\<lambda>_. lbq_decided) l s t = [EvLin i op r]"
        using op(1) me Run(1,5) by (simp add: lin_event_def)
      with lbq_commit_step [OF adv dis op(2)] r show ?thesis
        by (cases "pushed [EvLin i op r] = []") (simp_all del: pushed.simps)
    next
      case False
      then have "lin_event (\<lambda>_. lbq_decided) l s t = []"
        using me Run(1,5) by (auto simp: lin_event_def split: option.splits)
      with lbq_commit_step [OF adv dis op(2)] show ?thesis by simp
    qed
    with us upd Run(5) lbq_frame(2) [OF adv dis] show ?thesis by (simp add: inside_def)
  next
    case (Spurious i)
    then show ?thesis
      using dis by (auto simp: inside_def lin_event_def rouse intro!: eq_refl weight_update_same)
  qed (use dis in \<open>simp add: lin_event_def\<close>)
qed

lemma pushed_append: "pushed (es @ fs) = pushed es @ pushed fs"
proof (induction es)
  case (Cons e es)
  have "pushed ((e # es) @ fs) = pushed [e] @ pushed (es @ fs)"
    by (simp only: append_Cons pushed_Cons [of e "es @ fs"])
  also have "\<dots> = (pushed [e] @ pushed es) @ pushed fs" by (simp only: Cons.IH append_assoc)
  also have "\<dots> = pushed (e # es) @ pushed fs" by (simp only: pushed_Cons [of e es])
  finally show ?case .
qed simp

lemma lbq_late_run:
  assumes "lbq_inv s" and "run lbq_machine ls s = Some t" and "ldisposed (shared s)"
  shows "ldisposed (shared t) \<and>
    length (pushed (history lbq_machine (\<lambda>_. lbq_decided) ls s)) + inside committing (threads t)
      \<le> inside committing (threads s)"
  using assms
proof (induction ls arbitrary: s)
  case (Cons l ls)
  then obtain u where u: "exec lbq_machine l s = Some u" "run lbq_machine ls u = Some t"
    by (auto split: option.splits)
  with Cons.IH [OF lbq_inv_exec [OF Cons.prems(1) u(1)] u(2)] lbq_late_exec [OF Cons.prems(1) u(1) Cons.prems(3)]
  show ?case by (simp add: pushed_append)
qed simp

lemma length_concat_tally:
  "length (concat (map (\<lambda>th. if P (pc th) then [()] else []) ts)) = tally (\<lambda>th. of_bool (P (pc th))) ts"
  by (induction ts) auto

text \<open>At most one push is between its test of the flag and its commit: it holds the lock.\<close>

lemma lbq_committing_one:
  assumes "lbq_inv s"
  shows "inside committing (threads s) \<le> 1"
proof -
  let ?f = "\<lambda>p :: 'a lbq_pc. if committing p then [()] else []"
  have len: "length (held ?f (threads s)) = inside committing (threads s)"
    unfolding held_def inside_def weight_def by (rule length_concat_tally)
  show ?thesis
  proof (cases "\<exists>i < length (threads s). committing (pc (threads s ! i))")
    case True
    then obtain i where i: "i < length (threads s)" "committing (pc (threads s ! i))" by blast
    with lbq_inv_owns(1) [OF assms] committing_holds have "push_lock (shared s) = Some i"
      by (auto simp: all_threads_def owns_def)
    then have "held ?f (threads s) = ?f (pc (threads s ! i))"
      using lbq_inv_owns(1) [OF assms] i(1) committing_holds by (intro lbq_push_lock.held_at) auto
    then have "length (held ?f (threads s)) = 1" using i(2) by simp
    then show ?thesis unfolding len by simp
  next
    case False
    then have "\<not> 0 < inside committing (threads s)" by (simp add: inside_pos)
    then show ?thesis by simp
  qed
qed

end
