(* ===== verification/LinkedWake.thy ===== *)
theory LinkedWake
  imports LinkedLin
begin

text \<open>
  The notifications of the linked queue suffice. A popper decides to sleep on a count it read
  under its own lock while pushers count under theirs, so the invariant also follows
  the thread that changed the count from there to the sleeper's lock (\<open>presleep\<close>).
\<close>

section \<open>Needs, tokens and the threads on their way to the lock\<close>

definition lpush_need :: "'a lbq \<Rightarrow> nat" where
  "lpush_need q = of_bool (\<not> ldisposed q \<and> \<not> lis_full q)"

definition lpop_need :: "'a lbq \<Rightarrow> nat" where
  "lpop_need q = of_bool (\<not> ldisposed q \<and> \<not> lis_empty q)"

definition lclosed_need :: "'a lbq \<Rightarrow> nat" where
  "lclosed_need q = of_bool (ldisposed q)"

lemmas lbq_needs = lpush_need_def lpop_need_def lclosed_need_def

text \<open>Who takes care of a sleeping pusher; \<open>c\<close> is the capacity.\<close>

fun lpush_token :: "nat \<Rightarrow> 'a lbq_pc \<Rightarrow> nat" where
  "lpush_token c (LPushAt pt x tm) = wait_token pt"
| "lpush_token c (EnqAlloc x) = 1"
| "lpush_token c (EnqAssert x a) = 1"
| "lpush_token c (EnqLink x a) = 1"
| "lpush_token c (EnqCount x) = 1"
| "lpush_token c (EnqNotify prev) = of_bool (prev + 1 < c)"
| "lpush_token c (DeqNotify prev x) = of_bool (prev = c)"
| "lpush_token c (DeqUnlock prev x) = of_bool (prev = c)"
| "lpush_token c (SigFull pt x) = of_bool (pt \<noteq> SigUnlock)"
| "lpush_token c (DrainUnlock n out) = of_bool (n > 0)"
| "lpush_token c (DrainWake pt out) = of_bool (pt \<noteq> SigUnlock)"
| "lpush_token c p = 0"

fun lpush_pre :: "nat \<Rightarrow> 'a lbq_pc \<Rightarrow> nat" where
  "lpush_pre c (DeqNotify prev x) = of_bool (prev = c)"
| "lpush_pre c (DeqUnlock prev x) = of_bool (prev = c)"
| "lpush_pre c (SigFull pt x) = of_bool (pt = SigLock)"
| "lpush_pre c (DrainUnlock n out) = of_bool (n > 0)"
| "lpush_pre c (DrainWake pt out) = of_bool (pt = SigLock)"
| "lpush_pre c p = 0"

text \<open>Who takes care of a sleeping popper.\<close>

fun lpop_token :: "'a lbq_pc \<Rightarrow> nat" where
  "lpop_token (LPopAt pt tm) = wait_token pt"
| "lpop_token DeqUnlink = 1"
| "lpop_token (DeqCount x) = 1"
| "lpop_token (DeqNotify prev x) = of_bool (prev > 1)"
| "lpop_token (EnqNotify prev) = of_bool (prev = 0)"
| "lpop_token (EnqUnlock prev) = of_bool (prev = 0)"
| "lpop_token (SigEmpty pt) = of_bool (pt \<noteq> SigUnlock)"
| "lpop_token p = 0"

fun lpop_pre :: "'a lbq_pc \<Rightarrow> nat" where
  "lpop_pre (EnqNotify prev) = of_bool (prev = 0)"
| "lpop_pre (EnqUnlock prev) = of_bool (prev = 0)"
| "lpop_pre (SigEmpty pt) = of_bool (pt = SigLock)"
| "lpop_pre p = 0"

text \<open>The disposer, before and after it has the lock of each side.\<close>

fun close_pop_token :: "'a lbq_pc \<Rightarrow> nat" where
  "close_pop_token (LDisposeAt pt) = of_bool (pt = PopSideLock \<or> pt = PopSideNotify)"
| "close_pop_token p = 0"

fun close_pop_pre :: "'a lbq_pc \<Rightarrow> nat" where
  "close_pop_pre (LDisposeAt pt) = of_bool (pt = PopSideLock)"
| "close_pop_pre p = 0"

fun close_push_token :: "'a lbq_pc \<Rightarrow> nat" where
  "close_push_token (LDisposeAt pt) = of_bool (pt \<noteq> LDisposeCas \<and> pt \<noteq> PushSideUnlock)"
| "close_push_token p = 0"

fun close_push_pre :: "'a lbq_pc \<Rightarrow> nat" where
  "close_push_pre (LDisposeAt pt) =
     of_bool (pt = PopSideLock \<or> pt = PopSideNotify \<or> pt = PopSideUnlock \<or> pt = PushSideLock)"
| "close_push_pre p = 0"

text \<open>The threads about to sleep on what they have read.\<close>

fun push_flag_read :: "'a lbq_pc \<Rightarrow> bool" where
  "push_flag_read (LPushAt pt x tm) = flag_read pt"
| "push_flag_read p = False"

fun push_cond_read :: "'a lbq_pc \<Rightarrow> bool" where
  "push_cond_read (LPushAt pt x tm) = cond_read pt"
| "push_cond_read p = False"

fun pop_flag_read :: "'a lbq_pc \<Rightarrow> bool" where
  "pop_flag_read (LPopAt pt tm) = flag_read pt"
| "pop_flag_read p = False"

fun pop_cond_read :: "'a lbq_pc \<Rightarrow> bool" where
  "pop_cond_read (LPopAt pt tm) = cond_read pt"
| "pop_cond_read p = False"

section \<open>Between the test and the sleep\<close>

lemma push_race_step:
  assumes "lbq_advance i t q p = Some (q', p', nt)" and "lbq_shared_ok q" and "lbq_point q p"
    and "lpush_need q' \<noteq> 0"
  shows "(push_cond_read p' \<longrightarrow> push_cond_read p) \<and> (push_lock q \<noteq> None \<longrightarrow>
    lpush_need q' + lpush_pre (lcapacity q) p \<le> lpush_need q + lpush_pre (lcapacity q) p')"
  using assms
  by (cases rule: lbq_step_cases; (elim lbq_elims)?;
      auto simp: lbq_defs lbq_points lbq_needs count_room count_less split: if_splits)

lemma pop_race_step:
  assumes "lbq_advance i t q p = Some (q', p', nt)" and "lbq_shared_ok q" and "lbq_point q p"
    and "lpop_need q' \<noteq> 0"
  shows "(pop_cond_read p' \<longrightarrow> pop_cond_read p)
    \<and> (pop_lock q \<noteq> None \<longrightarrow> lpop_need q' + lpop_pre p \<le> lpop_need q + lpop_pre p')"
  using assms
  by (cases rule: lbq_step_cases; (elim lbq_elims)?;
      auto simp: lbq_defs lbq_points lbq_needs count_room count_less split: if_splits)

lemma close_race_step:
  assumes "lbq_advance i t q p = Some (q', p', nt)" and "ldisposed q'"
  shows "(push_flag_read p' \<longrightarrow> push_flag_read p) \<and> (pop_flag_read p' \<longrightarrow> pop_flag_read p)
    \<and> (push_lock q \<noteq> None \<longrightarrow> lclosed_need q' + close_push_pre p \<le> lclosed_need q + close_push_pre p')
    \<and> (pop_lock q \<noteq> None \<longrightarrow> lclosed_need q' + close_pop_pre p \<le> lclosed_need q + close_pop_pre p')"
  using assms
  by (cases rule: lbq_step_cases; (elim lbq_elims)?; auto simp: lbq_defs lclosed_need_def split: if_splits)

lemma stale_in_lock:
  "push_flag_read p \<Longrightarrow> holds_push p \<and> close_push_pre p = 0"
  "push_cond_read p \<Longrightarrow> holds_push p \<and> lpush_pre c p = 0 \<and> push_flag_read p"
  "pop_flag_read p \<Longrightarrow> holds_pop p \<and> close_pop_pre p = 0"
  "pop_cond_read p \<Longrightarrow> holds_pop p \<and> lpop_pre p = 0 \<and> pop_flag_read p"
  by (cases p; auto elim: cond_read.elims)+

text \<open>Outside a call, at its entry and asleep nobody has a token; a woken thread has one.\<close>

lemma entry_tokens [simp]:
  "lpush_pre c (lbq_entry op) = 0" "lpop_pre (lbq_entry op) = 0"
  "close_push_pre (lbq_entry op) = 0" "close_pop_pre (lbq_entry op) = 0"
  by (cases op; simp)+

lemma rest_tokens:
  assumes "lbq_resting p"
  shows "lpush_pre c p = 0 \<and> lpop_pre p = 0 \<and> close_push_pre p = 0 \<and> close_pop_pre p = 0
    \<and> lpush_token c p = 0 \<and> lpop_token p = 0 \<and> close_push_token p = 0 \<and> close_pop_token p = 0"
  using assms by (auto elim!: lbq_resting.elims)

lemma rouse_tokens:
  assumes "lbq_dozing p \<noteq> None"
  shows "lpush_pre c (lbq_rouse p) = lpush_pre c p \<and> lpop_pre (lbq_rouse p) = lpop_pre p
    \<and> close_push_pre (lbq_rouse p) = close_push_pre p \<and> close_pop_pre (lbq_rouse p) = close_pop_pre p
    \<and> close_push_token (lbq_rouse p) = close_push_token p \<and> close_pop_token (lbq_rouse p) = close_pop_token p
    \<and> lpush_token c (lbq_rouse p) = lpush_token c p + of_bool (lbq_dozing p = Some NotFull)
    \<and> lpop_token (lbq_rouse p) = lpop_token p + of_bool (lbq_dozing p = Some NotEmpty)"
  using assms by (auto elim!: lbq_dozing.elims)

definition lbq_sized :: "nat \<Rightarrow> ('a bq_op, 'a lbq, 'a lbq_pc) sys \<Rightarrow> bool" where
  "lbq_sized c s \<longleftrightarrow> lbq_inv s \<and> lcapacity (shared s) = c"

lemma lbq_capacity_exec: "exec lbq_machine l s = Some t \<Longrightarrow> lcapacity (shared t) = lcapacity (shared s)"
  by (auto elim!: exec_cases dest: lbq_frame(1))

lemma lbq_sized_exec: "lbq_sized c s \<Longrightarrow> exec lbq_machine l s = Some t \<Longrightarrow> lbq_sized c t"
  using lbq_inv_exec lbq_capacity_exec by (simp add: lbq_sized_def) blast

lemma lbq_sized_at:
  assumes "lbq_sized c s" and "i < length (threads s)"
  shows "lbq_shared_ok (shared s)" and "lbq_point (shared s) (pc (threads s ! i))" and "lcapacity (shared s) = c"
  using assms lbq_inv_at by (auto simp: lbq_sized_def)

interpretation push_race: presleep lbq_machine push_lock holds_push "lbq_sized c" push_cond_read "lpush_pre c" lpush_need for c
proof
  fix p p' :: "'a lbq_pc" and op :: "'a bq_op" and s :: "('a bq_op, 'a lbq, 'a lbq_pc) sys" and i q' nt
  show "lbq_sized c s \<Longrightarrow> all_threads (owns push_lock holds_push) s"
    by (simp add: lbq_sized_def lbq_inv_owns)
  show "push_cond_read p \<Longrightarrow> holds_push p \<and> lpush_pre c p = 0" using stale_in_lock(2) by blast
  show "lpush_pre c (entry lbq_machine op) = 0" by simp
  show "resting lbq_machine p \<Longrightarrow> lpush_pre c p = 0" by (simp add: rest_tokens)
  show "dozing lbq_machine p \<noteq> None \<Longrightarrow> lpush_pre c (rouse lbq_machine p) = lpush_pre c p" by (simp add: rouse_tokens)
  assume "lbq_sized c s" "i < length (threads s)"
    "advance lbq_machine i (now s) (shared s) (pc (threads s ! i)) = Some (q', p', nt)" "lpush_need q' \<noteq> 0"
  with push_race_step [of i "now s" "shared s" "pc (threads s ! i)" q' p' nt] lbq_sized_at [of c s i]
  show "push_cond_read p' \<Longrightarrow> push_cond_read (pc (threads s ! i))"
    and "push_lock (shared s) \<noteq> None \<Longrightarrow>
      lpush_need q' + lpush_pre c (pc (threads s ! i)) \<le> lpush_need (shared s) + lpush_pre c p'"
    by (simp_all)
qed

interpretation pop_race: presleep lbq_machine pop_lock holds_pop "lbq_sized c" pop_cond_read lpop_pre lpop_need for c
proof
  fix p p' :: "'a lbq_pc" and op :: "'a bq_op" and s :: "('a bq_op, 'a lbq, 'a lbq_pc) sys" and i q' nt
  show "lbq_sized c s \<Longrightarrow> all_threads (owns pop_lock holds_pop) s"
    by (simp add: lbq_sized_def lbq_inv_owns)
  show "pop_cond_read p \<Longrightarrow> holds_pop p \<and> lpop_pre p = 0" using stale_in_lock(4) by blast
  show "lpop_pre (entry lbq_machine op) = 0" by simp
  show "resting lbq_machine p \<Longrightarrow> lpop_pre p = 0" by (simp add: rest_tokens)
  show "dozing lbq_machine p \<noteq> None \<Longrightarrow> lpop_pre (rouse lbq_machine p) = lpop_pre p" by (simp add: rouse_tokens)
  assume "lbq_sized c s" "i < length (threads s)"
    "advance lbq_machine i (now s) (shared s) (pc (threads s ! i)) = Some (q', p', nt)" "lpop_need q' \<noteq> 0"
  with pop_race_step [of i "now s" "shared s" "pc (threads s ! i)" q' p' nt] lbq_sized_at [of c s i]
  show "pop_cond_read p' \<Longrightarrow> pop_cond_read (pc (threads s ! i))"
    and "pop_lock (shared s) \<noteq> None \<Longrightarrow>
      lpop_need q' + lpop_pre (pc (threads s ! i)) \<le> lpop_need (shared s) + lpop_pre p'"
    by (simp_all)
qed

interpretation close_push_race: presleep lbq_machine push_lock holds_push "lbq_sized c" push_flag_read close_push_pre lclosed_need for c
proof
  fix p p' :: "'a lbq_pc" and op :: "'a bq_op" and s :: "('a bq_op, 'a lbq, 'a lbq_pc) sys" and i q' nt
  show "lbq_sized c s \<Longrightarrow> all_threads (owns push_lock holds_push) s"
    by (simp add: lbq_sized_def lbq_inv_owns)
  show "push_flag_read p \<Longrightarrow> holds_push p \<and> close_push_pre p = 0" by (rule stale_in_lock(1))
  show "close_push_pre (entry lbq_machine op) = 0" by simp
  show "resting lbq_machine p \<Longrightarrow> close_push_pre p = 0" by (simp add: rest_tokens)
  show "dozing lbq_machine p \<noteq> None \<Longrightarrow> close_push_pre (rouse lbq_machine p) = close_push_pre p"
    by (simp add: rouse_tokens)
  assume "advance lbq_machine i (now s) (shared s) (pc (threads s ! i)) = Some (q', p', nt)" "lclosed_need q' \<noteq> 0"
  with close_race_step [of i "now s" "shared s" "pc (threads s ! i)" q' p' nt]
  show "push_flag_read p' \<Longrightarrow> push_flag_read (pc (threads s ! i))"
    and "push_lock (shared s) \<noteq> None \<Longrightarrow>
      lclosed_need q' + close_push_pre (pc (threads s ! i)) \<le> lclosed_need (shared s) + close_push_pre p'"
    by (simp_all add: lclosed_need_def)
qed

interpretation close_pop_race: presleep lbq_machine pop_lock holds_pop "lbq_sized c" pop_flag_read close_pop_pre lclosed_need for c
proof
  fix p p' :: "'a lbq_pc" and op :: "'a bq_op" and s :: "('a bq_op, 'a lbq, 'a lbq_pc) sys" and i q' nt
  show "lbq_sized c s \<Longrightarrow> all_threads (owns pop_lock holds_pop) s"
    by (simp add: lbq_sized_def lbq_inv_owns)
  show "pop_flag_read p \<Longrightarrow> holds_pop p \<and> close_pop_pre p = 0" by (rule stale_in_lock(3))
  show "close_pop_pre (entry lbq_machine op) = 0" by simp
  show "resting lbq_machine p \<Longrightarrow> close_pop_pre p = 0" by (simp add: rest_tokens)
  show "dozing lbq_machine p \<noteq> None \<Longrightarrow> close_pop_pre (rouse lbq_machine p) = close_pop_pre p"
    by (simp add: rouse_tokens)
  assume "advance lbq_machine i (now s) (shared s) (pc (threads s ! i)) = Some (q', p', nt)" "lclosed_need q' \<noteq> 0"
  with close_race_step [of i "now s" "shared s" "pc (threads s ! i)" q' p' nt]
  show "pop_flag_read p' \<Longrightarrow> pop_flag_read (pc (threads s ! i))"
    and "pop_lock (shared s) \<noteq> None \<Longrightarrow>
      lclosed_need q' + close_pop_pre (pc (threads s ! i)) \<le> lclosed_need (shared s) + close_pop_pre p'"
    by (simp_all add: lclosed_need_def)
qed

definition lbq_live_inv :: "nat \<Rightarrow> ('a bq_op, 'a lbq, 'a lbq_pc) sys \<Rightarrow> bool" where
  "lbq_live_inv c s \<longleftrightarrow> lbq_sized c s \<and> length (threads s) < usize_mod
     \<and> push_side_waiters (shared s) = inside lpush_section (threads s)
     \<and> pop_side_waiters (shared s) = inside lpop_section (threads s)
     \<and> (\<forall>j. push_lock (shared s) = Some j \<longrightarrow> j < length (threads s))
     \<and> (\<forall>j. pop_lock (shared s) = Some j \<longrightarrow> j < length (threads s))
     \<and> unmissed push_cond_read (lpush_pre c) lpush_need s \<and> unmissed pop_cond_read lpop_pre lpop_need s
     \<and> unmissed push_flag_read close_push_pre lclosed_need s \<and> unmissed pop_flag_read close_pop_pre lclosed_need s"

lemma lbq_live_inv_exec:
  assumes inv: "lbq_live_inv c s" and ex: "exec lbq_machine l s = Some t"
  shows "lbq_live_inv c t"
proof -
  from inv have sized: "lbq_sized c s" by (simp add: lbq_live_inv_def)
  then have owns: "all_threads (owns push_lock holds_push) s" "all_threads (owns pop_lock holds_pop) s"
    by (simp_all add: lbq_sized_def lbq_inv_owns)
  show ?thesis
    using lbq_sized_exec [OF sized ex] lbq_push_count.exec_counter [OF ex] lbq_pop_count.exec_counter [OF ex]
      lbq_push_lock.exec_owner_range [OF ex owns(1)] lbq_pop_lock.exec_owner_range [OF ex owns(2)]
      push_race.exec_unmissed [OF sized ex] pop_race.exec_unmissed [OF sized ex]
      close_push_race.exec_unmissed [OF sized ex] close_pop_race.exec_unmissed [OF sized ex] inv
    by (simp add: lbq_live_inv_def)
qed

lemma lbq_live_inv_start:
  assumes "c \<le> usize_max" and "n < usize_mod" and "s = lbq_start c n"
  shows "lbq_live_inv (ensure_capacity c) s"
  using lbq_inv_start [OF assms(1,3)] assms(2,3)
  by (simp add: lbq_live_inv_def lbq_sized_def unmissed_def inside_def lbq_start_def lbq_new_def waiters_new_def)

section \<open>The four wake-up contracts\<close>

lemma lbq_sleeping_section:
  "sleeping lbq_machine NotFull ts \<le> inside lpush_section ts"
  "sleeping lbq_machine NotEmpty ts \<le> inside lpop_section ts"
  unfolding sleeping_def inside_def by (rule weight_mono, auto elim!: lbq_dozing.elims)+

lemma lpush_need_step:
  assumes "lbq_advance i t q p = Some (q', p', nt)" and "lbq_shared_ok q" and "lbq_point q p"
    and "sound_pc p'" and "push_side_waiters q > 0" and "nt \<noteq> WakeAll NotFull" and "lpush_need q' \<noteq> 0"
  shows "lpush_need q' + lpush_token (lcapacity q) p
    \<le> lpush_need q + lpush_token (lcapacity q) p' + woken_by NotFull nt"
  using assms
  by (cases rule: lbq_step_cases; (elim lbq_elims)?;
      auto simp: lbq_defs lbq_points lbq_needs count_room count_less waiters_any_def sound_pc_def split: if_splits)

lemma lpop_need_step:
  assumes "lbq_advance i t q p = Some (q', p', nt)" and "lbq_shared_ok q" and "lbq_point q p"
    and "sound_pc p'" and "pop_side_waiters q > 0" and "nt \<noteq> WakeAll NotEmpty" and "lpop_need q' \<noteq> 0"
  shows "lpop_need q' + lpop_token p \<le> lpop_need q + lpop_token p' + woken_by NotEmpty nt"
  using assms
  by (cases rule: lbq_step_cases; (elim lbq_elims)?;
      auto simp: lbq_defs lbq_points lbq_needs count_room count_less waiters_any_def sound_pc_def split: if_splits)

lemma lclosed_need_step:
  assumes "lbq_advance i t q p = Some (q', p', nt)"
  shows "nt \<noteq> WakeAll NotEmpty \<Longrightarrow> lclosed_need q' + close_pop_token p \<le> lclosed_need q + close_pop_token p'"
    and "nt \<noteq> WakeAll NotFull \<Longrightarrow> lclosed_need q' + close_push_token p \<le> lclosed_need q + close_push_token p'"
  using assms
  by (cases rule: lbq_step_cases; (elim lbq_elims)?; auto simp: lbq_defs lbq_needs split: if_splits)+

text \<open>A thread falls asleep from the point \<open>Doze\<close>, and that changes nothing but the lock.\<close>

lemma lbq_doze_step:
  assumes "lbq_advance i t q p = Some (q', p', nt)"
  shows "lbq_dozing p' = Some NotFull \<Longrightarrow> push_cond_read p \<and> count q' = count q \<and> lcapacity q' = lcapacity q
      \<and> ldisposed q' = ldisposed q"
    and "lbq_dozing p' = Some NotEmpty \<Longrightarrow> pop_cond_read p \<and> count q' = count q \<and> ldisposed q' = ldisposed q"
  using assms
  by (cases rule: lbq_step_cases; (elim lbq_elims)?; auto simp: lbq_defs split: if_splits)+

lemma pre_below_token:
  "lpush_pre c p \<le> lpush_token c p" "lpop_pre p \<le> lpop_token p"
  "close_push_pre p \<le> close_push_token p" "close_pop_pre p \<le> close_pop_token p"
  by (cases p; auto)+

lemma lbq_live_at:
  assumes "lbq_live_inv c s" and "i < length (threads s)"
  shows "lbq_shared_ok (shared s)" and "lbq_point (shared s) (pc (threads s ! i))" and "lcapacity (shared s) = c"
  using assms lbq_sized_at by (auto simp: lbq_live_inv_def)

lemma lbq_live_step:
  assumes inv: "lbq_live_inv c s" and i: "i < length (threads s)"
    and adv: "advance lbq_machine i (now s) (shared s) (pc (threads s ! i)) = Some (q', p', nt)"
  shows "sound_pc p'"
proof -
  obtain ks t where ex: "exec lbq_machine (Run i ks) s = Some t"
    using run_possible [OF i, of lbq_machine] adv by auto
  have "pc (threads t ! i) = p'" using ex by (rule lbq.run_mover) (use adv in auto)
  then show ?thesis using lbq_run_heap [OF _ ex] inv by (simp add: lbq_live_inv_def lbq_sized_def)
qed

interpretation lbq_not_full: wakeups lbq_machine "lbq_live_inv c" NotFull 1 "lpush_token c" lpush_need for c
proof
  fix p p' :: "'a lbq_pc" and s :: "('a bq_op, 'a lbq, 'a lbq_pc) sys" and i q' nt
  show "resting lbq_machine p \<Longrightarrow> lpush_token c p = 0" by (simp add: rest_tokens)
  show "dozing lbq_machine p = Some NotFull \<Longrightarrow> lpush_token c (rouse lbq_machine p) = lpush_token c p + 1"
    using rouse_tokens [of p] by simp
  show "dozing lbq_machine p \<noteq> None \<Longrightarrow> dozing lbq_machine p \<noteq> Some NotFull \<Longrightarrow>
      lpush_token c (rouse lbq_machine p) = lpush_token c p"
    using rouse_tokens [of p] by simp
  assume inv: "lbq_live_inv c s" and i: "i < length (threads s)"
    and adv: "advance lbq_machine i (now s) (shared s) (pc (threads s ! i)) = Some (q', p', nt)"
  then have adv': "lbq_advance i (now s) (shared s) (pc (threads s ! i)) = Some (q', p', nt)" by simp
  { assume "sleeping lbq_machine NotFull (threads s) > 0"
    then have "push_side_waiters (shared s) > 0"
      using inv lbq_sleeping_section(1) [of "threads s"] by (simp add: lbq_live_inv_def)
    moreover assume "nt \<noteq> WakeAll NotFull" and "lpush_need q' \<noteq> 0"
    ultimately show "lpush_need q' + lpush_token c (pc (threads s ! i))
        \<le> lpush_need (shared s) + lpush_token c p' + 1 * woken_by NotFull nt"
      using lpush_need_step [OF adv'] lbq_live_at [OF inv i] lbq_live_step [OF inv i adv] by simp }
  assume "dozing lbq_machine p' = Some NotFull"
  then have doze: "push_cond_read (pc (threads s ! i))" "lpush_need q' = lpush_need (shared s)"
    using lbq_doze_step(1) [OF adv'] by (simp_all add: lpush_need_def lis_full_def)
  show "lpush_need q' \<le> weight (lpush_token c) ((threads s)[i := (threads s ! i)\<lparr>pc := p'\<rparr>])"
    using push_race.doze_ready [OF _ i doze(1) pre_below_token(1), of c p'] inv doze(2)
    by (simp add: lbq_live_inv_def)
qed

interpretation lbq_not_empty: wakeups lbq_machine "lbq_live_inv c" NotEmpty 1 lpop_token lpop_need for c
proof
  fix p p' :: "'a lbq_pc" and s :: "('a bq_op, 'a lbq, 'a lbq_pc) sys" and i q' nt
  show "resting lbq_machine p \<Longrightarrow> lpop_token p = 0" by (simp add: rest_tokens)
  show "dozing lbq_machine p = Some NotEmpty \<Longrightarrow> lpop_token (rouse lbq_machine p) = lpop_token p + 1"
    using rouse_tokens [of p] by simp
  show "dozing lbq_machine p \<noteq> None \<Longrightarrow> dozing lbq_machine p \<noteq> Some NotEmpty \<Longrightarrow>
      lpop_token (rouse lbq_machine p) = lpop_token p"
    using rouse_tokens [of p] by simp
  assume inv: "lbq_live_inv c s" and i: "i < length (threads s)"
    and adv: "advance lbq_machine i (now s) (shared s) (pc (threads s ! i)) = Some (q', p', nt)"
  then have adv': "lbq_advance i (now s) (shared s) (pc (threads s ! i)) = Some (q', p', nt)" by simp
  { assume "sleeping lbq_machine NotEmpty (threads s) > 0"
    then have "pop_side_waiters (shared s) > 0"
      using inv lbq_sleeping_section(2) [of "threads s"] by (simp add: lbq_live_inv_def)
    moreover assume "nt \<noteq> WakeAll NotEmpty" and "lpop_need q' \<noteq> 0"
    ultimately show "lpop_need q' + lpop_token (pc (threads s ! i))
        \<le> lpop_need (shared s) + lpop_token p' + 1 * woken_by NotEmpty nt"
      using lpop_need_step [OF adv'] lbq_live_at [OF inv i] lbq_live_step [OF inv i adv] by simp }
  assume "dozing lbq_machine p' = Some NotEmpty"
  then have doze: "pop_cond_read (pc (threads s ! i))" "lpop_need q' = lpop_need (shared s)"
    using lbq_doze_step(2) [OF adv'] by (simp_all add: lpop_need_def lis_empty_def)
  show "lpop_need q' \<le> weight lpop_token ((threads s)[i := (threads s ! i)\<lparr>pc := p'\<rparr>])"
    using pop_race.doze_ready [OF _ i doze(1) pre_below_token(2), of p'] inv doze(2)
    by (simp add: lbq_live_inv_def)
qed

interpretation lbq_close_push: wakeups lbq_machine "lbq_live_inv c" NotFull 0 close_push_token lclosed_need for c
proof
  fix p p' :: "'a lbq_pc" and s :: "('a bq_op, 'a lbq, 'a lbq_pc) sys" and i q' nt
  show "resting lbq_machine p \<Longrightarrow> close_push_token p = 0" by (simp add: rest_tokens)
  show "dozing lbq_machine p = Some NotFull \<Longrightarrow> close_push_token (rouse lbq_machine p) = close_push_token p + 0"
    using rouse_tokens [of p] by simp
  show "dozing lbq_machine p \<noteq> None \<Longrightarrow> dozing lbq_machine p \<noteq> Some NotFull \<Longrightarrow>
      close_push_token (rouse lbq_machine p) = close_push_token p"
    using rouse_tokens [of p] by simp
  assume inv: "lbq_live_inv c s" and i: "i < length (threads s)"
    and adv: "advance lbq_machine i (now s) (shared s) (pc (threads s ! i)) = Some (q', p', nt)"
  then have adv': "lbq_advance i (now s) (shared s) (pc (threads s ! i)) = Some (q', p', nt)" by simp
  show "nt \<noteq> WakeAll NotFull \<Longrightarrow> lclosed_need q' + close_push_token (pc (threads s ! i))
      \<le> lclosed_need (shared s) + close_push_token p' + 0 * woken_by NotFull nt"
    using lclosed_need_step(2) [OF adv'] by simp
  assume "dozing lbq_machine p' = Some NotFull"
  then have doze: "push_flag_read (pc (threads s ! i))" "lclosed_need q' = lclosed_need (shared s)"
    using lbq_doze_step(1) [OF adv'] by (simp_all add: lclosed_need_def stale_in_lock)
  show "lclosed_need q' \<le> weight close_push_token ((threads s)[i := (threads s ! i)\<lparr>pc := p'\<rparr>])"
    using close_push_race.doze_ready [OF _ i doze(1) pre_below_token(3), of p'] inv doze(2)
    by (simp add: lbq_live_inv_def)
qed

interpretation lbq_close_pop: wakeups lbq_machine "lbq_live_inv c" NotEmpty 0 close_pop_token lclosed_need for c
proof
  fix p p' :: "'a lbq_pc" and s :: "('a bq_op, 'a lbq, 'a lbq_pc) sys" and i q' nt
  show "resting lbq_machine p \<Longrightarrow> close_pop_token p = 0" by (simp add: rest_tokens)
  show "dozing lbq_machine p = Some NotEmpty \<Longrightarrow> close_pop_token (rouse lbq_machine p) = close_pop_token p + 0"
    using rouse_tokens [of p] by simp
  show "dozing lbq_machine p \<noteq> None \<Longrightarrow> dozing lbq_machine p \<noteq> Some NotEmpty \<Longrightarrow>
      close_pop_token (rouse lbq_machine p) = close_pop_token p"
    using rouse_tokens [of p] by simp
  assume inv: "lbq_live_inv c s" and i: "i < length (threads s)"
    and adv: "advance lbq_machine i (now s) (shared s) (pc (threads s ! i)) = Some (q', p', nt)"
  then have adv': "lbq_advance i (now s) (shared s) (pc (threads s ! i)) = Some (q', p', nt)" by simp
  show "nt \<noteq> WakeAll NotEmpty \<Longrightarrow> lclosed_need q' + close_pop_token (pc (threads s ! i))
      \<le> lclosed_need (shared s) + close_pop_token p' + 0 * woken_by NotEmpty nt"
    using lclosed_need_step(1) [OF adv'] by simp
  assume "dozing lbq_machine p' = Some NotEmpty"
  then have doze: "pop_flag_read (pc (threads s ! i))" "lclosed_need q' = lclosed_need (shared s)"
    using lbq_doze_step(2) [OF adv'] by (simp_all add: lclosed_need_def stale_in_lock)
  show "lclosed_need q' \<le> weight close_pop_token ((threads s)[i := (threads s ! i)\<lparr>pc := p'\<rparr>])"
    using close_pop_race.doze_ready [OF _ i doze(1) pre_below_token(4), of p'] inv doze(2)
    by (simp add: lbq_live_inv_def)
qed

section \<open>No thread is stuck\<close>

definition lbq_rightly_asleep :: "'a lbq \<Rightarrow> 'a lbq_pc \<Rightarrow> bool" where
  "lbq_rightly_asleep q p \<longleftrightarrow>
     (lbq_dozing p = Some NotFull \<and> \<not> ldisposed q \<and> lis_full q)
     \<or> (lbq_dozing p = Some NotEmpty \<and> \<not> ldisposed q \<and> lis_empty q)"

text \<open>
  No thread waits for one lock while it holds the other, so a holder can always act.
\<close>

lemma lbq_advance_enabled:
  assumes "lbq_point q p" and "sound_pc p"
    and "holds_push p \<or> holds_pop p \<or> push_lock q = None \<and> pop_lock q = None"
    and "\<not> lbq_resting p" and "lbq_dozing p = None"
  shows "lbq_advance i t q p \<noteq> None"
proof (cases p)
  case (LPushAt pt x tm)
  then show ?thesis using assms by (cases tm; cases pt) (auto simp: lbq_defs lbq_points)
next
  case (LPopAt pt tm)
  then show ?thesis using assms by (cases tm; cases pt) (auto simp: lbq_defs lbq_points)
next
  case (LTryPushAt pt x) then show ?thesis using assms by (cases pt) (auto simp: lbq_defs)
next
  case (LTryPopAt pt) then show ?thesis using assms by (cases pt) (auto simp: lbq_defs)
next
  case (SigEmpty pt) then show ?thesis using assms by (cases pt) (auto simp: lbq_defs)
next
  case (SigFull pt x) then show ?thesis using assms by (cases pt) (auto simp: lbq_defs)
next
  case (DrainWake pt out) then show ?thesis using assms by (cases pt) (auto simp: lbq_defs)
next
  case (LDisposeAt pt) then show ?thesis using assms by (cases pt) (auto simp: lbq_defs)
qed (use assms in \<open>auto simp: sound_pc_def lbq_defs split: prod.splits sum.splits\<close>)

lemma lbq_live_sound: "lbq_live_inv c s \<Longrightarrow> i < length (threads s) \<Longrightarrow> sound_pc (pc (threads s ! i))"
  using lbq_inv_at(4) by (auto simp: lbq_live_inv_def lbq_sized_def)

lemma lbq_stuck_threads:
  assumes inv: "lbq_live_inv c s" and stuck: "\<And>i ks. exec lbq_machine (Run i ks) s = None"
    and i: "i < length (threads s)"
  shows "lbq_resting (pc (threads s ! i)) \<or> lbq_dozing (pc (threads s ! i)) \<noteq> None"
proof (rule ccontr)
  assume active: "\<not> ?thesis"
  have none: "lbq_advance j (now s) (shared s) (pc (threads s ! j)) = None" if "j < length (threads s)" for j
    using stuck_blocked [OF stuck that] by simp
  have idle: "\<not> holds_push (pc (threads s ! j)) \<and> \<not> holds_pop (pc (threads s ! j))" if j: "j < length (threads s)" for j
  proof (rule ccontr)
    assume holds: "\<not> ?thesis"
    then have "\<not> lbq_resting (pc (threads s ! j))" "lbq_dozing (pc (threads s ! j)) = None"
      using lbq_push_lock.holds_active [of "pc (threads s ! j)"] lbq_pop_lock.holds_active [of "pc (threads s ! j)"] by auto
    with holds lbq_advance_enabled [OF lbq_live_at(2) [OF inv j] lbq_live_sound [OF inv j]] none [OF j]
    show False by blast
  qed
  from inv have own: "all_threads (owns push_lock holds_push) s" "all_threads (owns pop_lock holds_pop) s"
    by (simp_all add: lbq_live_inv_def lbq_sized_def lbq_inv_owns)
  have "push_lock (shared s) = None"
    using own(1) idle inv by (cases "push_lock (shared s)") (auto simp: lbq_live_inv_def all_threads_def owns_def)
  moreover have "pop_lock (shared s) = None"
    using own(2) idle inv by (cases "pop_lock (shared s)") (auto simp: lbq_live_inv_def all_threads_def owns_def)
  ultimately show False
    using lbq_advance_enabled [OF lbq_live_at(2) [OF inv i] lbq_live_sound [OF inv i]] active none [OF i] by blast
qed

definition lbq_covered :: "nat \<Rightarrow> ('a bq_op, 'a lbq, 'a lbq_pc) sys \<Rightarrow> bool" where
  "lbq_covered c s \<longleftrightarrow> lbq_live_inv c s
     \<and> covered lbq_machine NotFull (lpush_token c) lpush_need s
     \<and> covered lbq_machine NotEmpty lpop_token lpop_need s
     \<and> covered lbq_machine NotEmpty close_pop_token lclosed_need s
     \<and> covered lbq_machine NotFull close_push_token lclosed_need s"

lemma lbq_covered_exec: "lbq_covered c s \<Longrightarrow> exec lbq_machine l s = Some t \<Longrightarrow> lbq_covered c t"
  unfolding lbq_covered_def
  using lbq_live_inv_exec lbq_not_full.exec_covered lbq_not_empty.exec_covered
    lbq_close_push.exec_covered lbq_close_pop.exec_covered by blast

lemma lbq_covered_start:
  assumes "c \<le> usize_max" and "n < usize_mod" and "s = lbq_start c n"
  shows "lbq_covered (ensure_capacity c) s"
  using lbq_live_inv_start [OF assms] assms(3)
  by (simp add: lbq_covered_def covered_def sleeping_def lbq_start_def)

lemma lbq_covered_run:
  "run lbq_machine ls (lbq_start c n) = Some s \<Longrightarrow> c \<le> usize_max \<Longrightarrow> n < usize_mod \<Longrightarrow>
    lbq_covered (ensure_capacity c) s"
  using run_invariant [of "lbq_covered (ensure_capacity c)" lbq_machine ls] lbq_covered_exec lbq_covered_start
  by blast

lemma quiet_tokens:
  assumes "lbq_resting p \<or> lbq_dozing p \<noteq> None"
  shows "lpush_token c p = 0 \<and> lpop_token p = 0 \<and> close_push_token p = 0 \<and> close_pop_token p = 0"
  using assms by (auto elim!: lbq_dozing.elims lbq_resting.elims)

lemma lbq_quiet_asleep:
  assumes cov: "lbq_covered c s" and i: "i < length (threads s)"
    and quiet: "\<And>j. j < length (threads s) \<Longrightarrow>
      lbq_resting (pc (threads s ! j)) \<or> lbq_dozing (pc (threads s ! j)) \<noteq> None"
  shows "lbq_resting (pc (threads s ! i)) \<or> lbq_rightly_asleep (shared s) (pc (threads s ! i))"
proof (cases "lbq_dozing (pc (threads s ! i))")
  case None
  then show ?thesis using quiet [OF i] by simp
next
  case (Some cv)
  have asleep: "sleeping lbq_machine cv (threads s) > 0"
    unfolding sleeping_def weight_pos_iff using i Some by auto
  have "weight (lpush_token c) (threads s) = 0" "weight lpop_token (threads s) = 0"
    "weight close_push_token (threads s) = 0" "weight close_pop_token (threads s) = 0"
    using quiet_tokens [OF quiet] by (auto intro!: weight_zero)
  with cov asleep have "lclosed_need (shared s) = 0"
    and "cv = NotFull \<Longrightarrow> lpush_need (shared s) = 0" and "cv = NotEmpty \<Longrightarrow> lpop_need (shared s) = 0"
    by (cases cv; auto simp: lbq_covered_def covered_def)+
  with Some show ?thesis
    by (cases cv) (auto simp: lbq_rightly_asleep_def lbq_needs)
qed

end
