(* ===== verification/LinkedProps.thy ===== *)
theory LinkedProps
  imports LinkedWake
begin

text \<open>
  The properties of the linked queue, each over an arbitrary schedule of \<open>n\<close> threads around
  a new queue, with a concrete schedule as its witness, and the two schedules on which it
  departs from a queue that is closed in one step.
\<close>

section \<open>The rank of a program point\<close>

fun sig_rank :: "sig_point \<Rightarrow> nat" where
  "sig_rank SigLock = 3"
| "sig_rank SigTest = 2"
| "sig_rank SigUnlock = 1"

fun lbq_rank :: "nat \<Rightarrow> 'a lbq_pc \<Rightarrow> nat" where
  "lbq_rank c (LPushAt pt x tm) = wait_rank pt + 10"
| "lbq_rank c (LTryPushAt pt x) = (case pt of TryEnter \<Rightarrow> 12 | Try1 \<Rightarrow> 11 | Try2 \<Rightarrow> 10)"
| "lbq_rank c (EnqAlloc x) = 9"
| "lbq_rank c (EnqAssert x a) = 8"
| "lbq_rank c (EnqLink x a) = 7"
| "lbq_rank c (EnqCount x) = 6"
| "lbq_rank c (EnqNotify prev) = 5"
| "lbq_rank c (EnqUnlock prev) = 4"
| "lbq_rank c (SigEmpty pt) = sig_rank pt"
| "lbq_rank c (LPopAt pt tm) = wait_rank pt + 10"
| "lbq_rank c (LTryPopAt pt) = (case pt of TryEnter \<Rightarrow> 10 | Try1 \<Rightarrow> 9 | Try2 \<Rightarrow> 8)"
| "lbq_rank c DeqUnlink = 7"
| "lbq_rank c (DeqCount x) = 6"
| "lbq_rank c (DeqNotify prev x) = 5"
| "lbq_rank c (DeqUnlock prev x) = 4"
| "lbq_rank c (SigFull pt x) = sig_rank pt"
| "lbq_rank c DrainLock = c + 8"
| "lbq_rank c DrainLoad = c + 7"
| "lbq_rank c (DrainLoop n out) = (n - length out) + 6"
| "lbq_rank c (DrainCount n out) = 5"
| "lbq_rank c (DrainUnlock n out) = 4"
| "lbq_rank c (DrainWake pt out) = sig_rank pt"
| "lbq_rank c (LDisposeAt pt) =
     (case pt of LDisposeCas \<Rightarrow> 7 | PopSideLock \<Rightarrow> 6 | PopSideNotify \<Rightarrow> 5 | PopSideUnlock \<Rightarrow> 4
       | PushSideLock \<Rightarrow> 3 | PushSideNotify \<Rightarrow> 2 | PushSideUnlock \<Rightarrow> 1)"
| "lbq_rank c LSizeAt = 1"
| "lbq_rank c LCapacityAt = 1"
| "lbq_rank c LIsDisposedAt = 1"
| "lbq_rank c (ReturnPush r) = 1"
| "lbq_rank c (ReturnPop r) = 1"
| "lbq_rank c p = 0"

lemma lbq_rank_step:
  assumes "lbq_advance i t q p = Some (q', p', nt)" and "lbq_shared_ok q" and "lbq_point q p"
  shows "lbq_rank (lcapacity q) p' < lbq_rank (lcapacity q) p"
  using assms
  by (cases rule: lbq_step_cases; (elim lbq_elims)?; auto simp: lbq_defs lbq_points split: if_splits)

interpretation lbq_rank: ranked lbq_machine "lbq_sized c" "lbq_rank c" 17 for c
proof
  fix s t :: "('a bq_op, 'a lbq, 'a lbq_pc) sys" and l i p' nt and q' :: "'a lbq"
  show "lbq_sized c s \<Longrightarrow> exec lbq_machine l s = Some t \<Longrightarrow> lbq_sized c t" by (rule lbq_sized_exec)
  show "lbq_sized c s \<Longrightarrow> i < length (threads s) \<Longrightarrow>
      advance lbq_machine i (now s) (shared s) (pc (threads s ! i)) = Some (q', p', nt) \<Longrightarrow>
      lbq_rank c p' < lbq_rank c (pc (threads s ! i))"
    using lbq_rank_step [of i "now s" "shared s" "pc (threads s ! i)" q' p' nt] lbq_sized_at [of c s i] by simp
next
  fix p :: "'a lbq_pc"
  show "dozing lbq_machine p \<noteq> None \<Longrightarrow> lbq_rank c (rouse lbq_machine p) \<le> 17"
    by (auto elim!: lbq_dozing.elims)
qed

lemma lbq_entry_rank: "lbq_rank c (lbq_entry op) \<le> (if op = OpDrain then c + 8 else 20)"
  by (cases op) auto

section \<open>Schedules for the witnesses\<close>

lemmas lbq_eval = acts_def lbq_start_def lbq_new_def boot_def ensure_capacity_def lbq_defs
  new_node_def dummy_node_def en_q_link_def unlink_head_def drain_loop_def
  waiters_new_def waiters_enter_def waiters_leave_def waiters_any_def wrap_add_def wrap_sub_def
  usize_mod_def usize_max_def sleepers_def rouse_all_def replicate_numeral upt_rec

text \<open>
  A full queue of capacity one: thread 0 pushes 5 (ten actions on an open queue with room,
  then the signal of the first item), thread 1 sleeps pushing 6, thread 2 pops, takes the
  push lock and wakes it.
\<close>

definition lbq_push_steps :: "tid \<Rightarrow> 'a \<Rightarrow> 'a bq_op label list" where
  "lbq_push_steps i x = Call i (OpPush x) # acts i 13"

definition lbq_blocked :: "nat bq_op label list" where
  "lbq_blocked = lbq_push_steps 0 5 @ Call 1 (OpPush 6) # acts 1 6"

definition lbq_handed_over :: "nat bq_op label list" where
  "lbq_handed_over = lbq_blocked @ Call 2 OpPop # acts 2 9 @ Run 2 [1] # Run 2 [] # acts 1 14"

definition lbq_expired :: "nat bq_op label list" where
  "lbq_expired = Call 0 (OpPopTimeout 5) # acts 0 7 @ Tick 6 # Spurious 0 # acts 0 7"

lemma lbq_blocked_run:
  "\<exists>s. run lbq_machine lbq_blocked (lbq_start 1 3) = Some s
    \<and> map pc (threads s) = [LDone (PushRes (Inr ())), LPushAt Asleep 6 Untimed, LIdle]"
  by (simp add: lbq_eval lbq_blocked_def lbq_push_steps_def)

lemma lbq_handed_over_run:
  "\<exists>s. run lbq_machine lbq_handed_over (lbq_start 1 3) = Some s
    \<and> map pc (threads s) = [LDone (PushRes (Inr ())), LDone (PushRes (Inr ())), LDone (PopRes (Inr 5))]"
  by (simp add: lbq_eval lbq_blocked_def lbq_push_steps_def lbq_handed_over_def)

lemma lbq_expired_run:
  "\<exists>s. run lbq_machine lbq_expired (lbq_start 1 1) = Some s
    \<and> map pc (threads s) = [LDone (PopRes (Inl Timeout))]"
  by (simp add: lbq_eval lbq_expired_def)

text \<open>
  A push passes its test of the flag; the queue is disposed; a pop finds it empty and closed and
  gives up; the push then commits its item and reports success.
\<close>

definition lbq_closing :: "nat bq_op label list" where
  "lbq_closing = Call 0 (OpPush 5) # acts 0 4 @ Call 1 OpDispose # acts 1 1"

definition lbq_late :: "nat bq_op label list" where
  "lbq_late = Call 2 OpPop # acts 2 5 @ acts 0 9 @ acts 1 6"

lemma lbq_closing_run:
  "\<exists>s t. run lbq_machine lbq_closing (lbq_start 0 3) = Some s \<and> ldisposed (shared s)
    \<and> run lbq_machine lbq_late s = Some t
    \<and> map pc (threads t) = [LDone (PushRes (Inr ())), LDone DisposeRes, LDone (PopRes (Inl ResourceUnavailable))]
    \<and> count (shared t) = 1 \<and> ldisposed (shared t)"
  by (simp add: lbq_eval lbq_closing_def lbq_late_def)

section \<open>Linearizability\<close>

text \<open>
  C7. The linked queue is linearizable to \<open>lbq_spec\<close>: in any run the linearization points of
  the calls, in order, are a run of that queue from the empty open one to the current
  one, every thread's events alternate between a call and at most one linearization of that
  operation, and the result a call returns is the one it was linearized with.
\<close>

theorem lbq_linearizable:
  assumes "run lbq_machine ls (lbq_start c n) = Some s" and "c \<le> usize_max"
  defines "h \<equiv> history lbq_machine (\<lambda>_. lbq_decided) ls (lbq_start c n)"
  shows "replay lbq_spec h \<lparr>items = [], closed = False, bound = ensure_capacity c\<rparr> = Some (lbq_abs s)
    \<and> (\<forall>i < n. thread_phase i h (None, None) = Some (cur (threads s ! i), lbq_decided (pc (threads s ! i))))"
proof -
  have inv: "lbq_inv (lbq_start c n :: ('a bq_op, 'a lbq, 'a lbq_pc) sys)" using assms(2) lbq_inv_start by blast
  have "replay lbq_spec h \<lparr>items = [], closed = False, bound = ensure_capacity c\<rparr> = Some (lbq_abs s)"
    using lbq_lin.replay_run [OF inv assms(1)] by (simp add: h_def lbq_abs_start assms(2))
  moreover have "thread_phase i h (None, None) = Some (cur (threads s ! i), lbq_decided (pc (threads s ! i)))"
    if "i < n" for i
    using lbq_lin.phase_run [OF inv assms(1), of i] that by (simp add: h_def lbq_start_def)
  ultimately show ?thesis by blast
qed

theorem lbq_linearizable_witness:
  "\<exists>s. run lbq_machine lbq_handed_over (lbq_start 1 3) = Some s
    \<and> map pc (threads s) = [LDone (PushRes (Inr ())), LDone (PushRes (Inr ())), LDone (PopRes (Inr 5))]
    \<and> replay lbq_spec (history lbq_machine (\<lambda>_. lbq_decided) lbq_handed_over (lbq_start 1 3))
        \<lparr>items = [], closed = False, bound = 1\<rparr> = Some (lbq_abs s)"
  using lbq_handed_over_run lbq_linearizable [of lbq_handed_over 1 3]
  by (auto simp: ensure_capacity_def usize_max_def usize_mod_def)

text \<open>
  C10. First in, first out, nothing lost and nothing duplicated: the items pushed so far, in
  the order the pushes took effect, are the items taken so far followed by those the queue holds,
  of which there are exactly \<open>count\<close> and never more than the capacity.
\<close>

theorem lbq_fifo:
  assumes "run lbq_machine ls (lbq_start c n) = Some s" and "c \<le> usize_max"
  defines "h \<equiv> history lbq_machine (\<lambda>_. lbq_decided) ls (lbq_start c n)"
  shows "pushed h = taken h @ lbq_items s \<and> length (lbq_items s) = count (shared s)
    \<and> count (shared s) \<le> ensure_capacity c"
proof -
  have inv: "lbq_inv (lbq_start c n :: ('a bq_op, 'a lbq, 'a lbq_pc) sys)" using assms(2) lbq_inv_start by blast
  have "lbq_inv s" using assms(1,2) by (rule lbq_inv_run)
  with lbq.replay_items [OF lbq_lin.replay_run [OF inv assms(1)]] lbq_size_items [of s] show ?thesis
    by (simp add: h_def lbq_abs_start assms(2)) (simp add: lbq_abs_def lbq_view_def)
qed

theorem lbq_fifo_witness:
  "\<exists>s. run lbq_machine lbq_handed_over (lbq_start 1 3) = Some s
    \<and> pushed (history lbq_machine (\<lambda>_. lbq_decided) lbq_handed_over (lbq_start 1 3))
      = taken (history lbq_machine (\<lambda>_. lbq_decided) lbq_handed_over (lbq_start 1 3)) @ lbq_items s"
  using lbq_handed_over_run lbq_fifo [of lbq_handed_over 1 3] by (auto simp: usize_max_def usize_mod_def)

section \<open>Memory safety\<close>

text \<open>
  C9. No call follows a null or dangling pointer, finds a node without its item or fails an
  assertion; the heap holds exactly the dummy node, the linked nodes and the node a push is
  about to link; and each end's lock excludes.
\<close>

theorem lbq_memory_safe:
  assumes "run lbq_machine ls (lbq_start c n) = Some s" and "c \<le> usize_max"
  shows "(\<forall>i < n. pc (threads s ! i) \<noteq> LFault \<and> pc (threads s ! i) \<noteq> LPanicked)
    \<and> (\<exists>as. links (heap (shared s)) (head (shared s)) as
        \<and> tail (shared s) = last (head (shared s) # map fst as)
        \<and> distinct (head (shared s) # map fst as)
        \<and> dom (heap (shared s))
            = set (head (shared s) # map fst as) \<union> fst ` set (held unlinked_node (threads s)))
    \<and> (\<forall>i < n. \<forall>j < n. holds_push (pc (threads s ! i)) \<and> holds_push (pc (threads s ! j)) \<longrightarrow> i = j)
    \<and> (\<forall>i < n. \<forall>j < n. holds_pop (pc (threads s ! i)) \<and> holds_pop (pc (threads s ! j)) \<longrightarrow> i = j)"
proof -
  have len: "length (threads s) = n" using run_length [OF assms(1)] by (simp add: lbq_start_def)
  have inv: "lbq_inv s" using assms by (rule lbq_inv_run)
  then obtain as where "heap_ok (shared s) (held unlinked_node (threads s)) (held uncounted (threads s))
      (held unsubtracted (threads s)) as" by (auto simp: lbq_inv_def)
  then have list: "links (heap (shared s)) (head (shared s)) as
      \<and> tail (shared s) = last (head (shared s) # map fst as)
      \<and> distinct (head (shared s) # map fst as)
      \<and> dom (heap (shared s)) = set (head (shared s) # map fst as) \<union> fst ` set (held unlinked_node (threads s))"
    by (auto simp: heap_ok_def list_ok_def)
  have "pc (threads s ! i) \<noteq> LFault \<and> pc (threads s ! i) \<noteq> LPanicked" if "i < n" for i
    using inv that len by (auto simp: lbq_inv_def sound_pc_def)
  with list lbq_push_lock.mutual_exclusion [OF lbq_inv_owns(1) [OF inv]]
    lbq_pop_lock.mutual_exclusion [OF lbq_inv_owns(2) [OF inv]] len
  show ?thesis by blast
qed

theorem lbq_memory_safe_witness:
  "\<exists>s. run lbq_machine lbq_handed_over (lbq_start 1 3) = Some s
    \<and> (\<exists>as. links (heap (shared s)) (head (shared s)) as \<and> tail (shared s) = last (head (shared s) # map fst as))"
proof -
  obtain s where s: "run lbq_machine lbq_handed_over (lbq_start 1 3) = Some s"
    using lbq_handed_over_run by (elim exE conjE)
  have "1 \<le> usize_max" by (simp add: usize_max_def usize_mod_def)
  from lbq_memory_safe [OF s this] s show ?thesis by (intro exI [of _ s] conjI) (assumption, elim conjE exE, blast)
qed

text \<open>Nobody at rest has a node or an item of the list in hand.\<close>

lemma rest_empty_handed: "lbq_resting p \<Longrightarrow> unlinked_node p = [] \<and> uncounted p = [] \<and> unsubtracted p = []"
  by (auto elim!: lbq_resting.elims)

lemma lbq_drop_quiescent:
  assumes inv: "lbq_inv s" and rest: "\<And>i. i < length (threads s) \<Longrightarrow> lbq_resting (pc (threads s ! i))"
  shows "lbq_drop (shared s) = Some (\<lambda>_. None, items (lbq_abs s))"
proof -
  let ?q = "shared s"
  have "pc th \<in> {p. lbq_resting p}" if "th \<in> set (threads s)" for th
    using rest that by (auto simp: in_set_conv_nth)
  then have none: "held unlinked_node (threads s) = []" "held uncounted (threads s) = []" "held unsubtracted (threads s) = []"
    using rest_empty_handed by (auto simp: held_def)
  with inv obtain as where hp: "heap_ok ?q [] [] [] as" by (auto simp: lbq_inv_def)
  then have ok: "list_ok (heap ?q) (head ?q) (tail ?q) (fresh ?q) [] as" by (simp add: heap_ok_def)
  then obtain n where n: "heap ?q (head ?q) = Some n" "item n = None" by (auto simp: list_ok_def dummy_at_def)
  have "lbq_drop ?q = Some (heap ?q |` (- set (head ?q # map fst as)), node_items n @ map snd as)"
    unfolding lbq_drop_def using ok n(1) by (intro lbq_drop_links) (simp_all add: list_ok_def)
  moreover have "heap ?q |` (- set (head ?q # map fst as)) = (\<lambda>_. None)"
  proof
    fix a
    show "(heap ?q |` (- set (head ?q # map fst as))) a = None"
      using ok by (cases "a \<in> dom (heap ?q)") (auto simp: list_ok_def restrict_map_def)
  qed
  moreover have "items (lbq_abs s) = map snd as"
    using queued_list(1) [OF hp] none by (simp add: lbq_abs_def lbq_view_def lbq_items_def)
  ultimately show ?thesis using n(2) by (simp add: node_items_def)
qed

text \<open>
  C12. No leak and no double free: once no call is in progress, \<open>Drop\<close> ends, having freed every
  node of the heap and dropped the items that were queued, each once and in their order.
\<close>

theorem lbq_drop_frees_all:
  assumes "run lbq_machine ls (lbq_start c n) = Some s" and "c \<le> usize_max"
    and "\<forall>i < n. lbq_resting (pc (threads s ! i))"
  shows "lbq_drop (shared s) = Some (\<lambda>_. None, items (lbq_abs s))"
proof -
  have "length (threads s) = n" using run_length [OF assms(1)] by (simp add: lbq_start_def)
  moreover have "lbq_inv s" using assms(1,2) by (rule lbq_inv_run)
  ultimately show ?thesis using assms(3) by (intro lbq_drop_quiescent) simp_all
qed

theorem lbq_drop_frees_all_witness:
  "\<exists>s t. run lbq_machine (lbq_closing @ lbq_late) (lbq_start 0 3) = Some t \<and> count (shared t) = 1
    \<and> lbq_drop (shared t) = Some (\<lambda>_. None, items (lbq_abs t))"
proof -
  obtain s t where st: "run lbq_machine lbq_closing (lbq_start 0 3) = Some s" "run lbq_machine lbq_late s = Some t"
    "map pc (threads t) = [LDone (PushRes (Inr ())), LDone DisposeRes, LDone (PopRes (Inl ResourceUnavailable))]"
    "count (shared t) = 1"
    using lbq_closing_run by (elim exE conjE)
  then have run: "run lbq_machine (lbq_closing @ lbq_late) (lbq_start 0 3) = Some t" by (simp add: run_append)
  have "lbq_resting (pc (threads t ! i))" if "i < 3" for i
    using pcs_nth [OF st(3), of i] that by (auto simp: less_Suc_eq numeral_3_eq_3)
  with lbq_drop_frees_all [OF run] run st(4) show ?thesis by (auto simp: usize_max_def usize_mod_def)
qed

section \<open>Progress\<close>

text \<open>
  C8. No wake-up is lost and there is no deadlock, although the two ends have different locks:
  when no thread can take any action, every thread is outside the queue or rightly
  asleep, a pusher on a full open queue or a popper on an empty open queue.
\<close>

theorem lbq_no_lost_wakeup:
  assumes "run lbq_machine ls (lbq_start c n) = Some s" and "c \<le> usize_max" and "n < usize_mod"
    and stuck: "\<And>i ks. exec lbq_machine (Run i ks) s = None" and i: "i < n"
  shows "lbq_resting (pc (threads s ! i)) \<or> lbq_rightly_asleep (shared s) (pc (threads s ! i))"
proof (rule lbq_quiet_asleep)
  have len: "length (threads s) = n" using run_length [OF assms(1)] by (simp add: lbq_start_def)
  show cov: "lbq_covered (ensure_capacity c) s" using assms(1,2,3) by (rule lbq_covered_run)
  then have live: "lbq_live_inv (ensure_capacity c) s" by (simp add: lbq_covered_def)
  show "i < length (threads s)" using i len by simp
  fix j assume "j < length (threads s)"
  with lbq_stuck_threads [OF live stuck] show
    "lbq_resting (pc (threads s ! j)) \<or> lbq_dozing (pc (threads s ! j)) \<noteq> None" by blast
qed

theorem lbq_no_lost_wakeup_witness:
  "\<exists>s. run lbq_machine lbq_blocked (lbq_start 1 3) = Some s
    \<and> lbq_rightly_asleep (shared s) (LPushAt Asleep 6 Untimed)"
proof -
  obtain s where s: "run lbq_machine lbq_blocked (lbq_start 1 3) = Some s"
    "map pc (threads s) = [LDone (PushRes (Inr ())), LPushAt Asleep 6 Untimed, LIdle]"
    using lbq_blocked_run by (elim exE conjE)
  from arg_cong [OF s(2), of length] pcs_nth [OF s(2), of 0] pcs_nth [OF s(2), of 1] pcs_nth [OF s(2), of 2]
  have pcs: "length (threads s) = 3" "pc (threads s ! 0) = LDone (PushRes (Inr ()))"
    "pc (threads s ! 1) = LPushAt Asleep 6 Untimed" "pc (threads s ! 2) = LIdle"
    by simp_all
  have "exec lbq_machine (Run i ks) s = None" for i ks
  proof (cases "i < 3")
    case True
    then have "i = 0 \<or> i = 1 \<or> i = 2" by auto
    then have "advance lbq_machine i (now s) (shared s) (pc (threads s ! i)) = None" using pcs by auto
    then show ?thesis by simp
  qed (simp add: pcs(1))
  moreover have "(3::nat) < usize_mod" "1 \<le> usize_max" by (simp_all add: usize_mod_def usize_max_def)
  ultimately have "lbq_rightly_asleep (shared s) (pc (threads s ! 1))"
    using lbq_no_lost_wakeup [OF s(1), of 1] pcs(3) by simp
  with s(1) pcs(3) show ?thesis by auto
qed

text \<open>
  C13. Every call is short: between two calls of a thread its actions number at most twenty
  (for a drain, eight more than the capacity), plus seventeen for each time it is woken.
\<close>

theorem lbq_call_bounded:
  assumes "run lbq_machine ls (lbq_start c n) = Some s" and "c \<le> usize_max"
    and "exec lbq_machine (Call i op) s = Some t"
    and "run lbq_machine ms t = Some u" and "\<forall>l \<in> set ms. \<not> calls i l"
  shows "own_steps i ms \<le> (if op = OpDrain then ensure_capacity c + 8 else 20) + 17 * wakes lbq_machine i ms t"
proof -
  have "lbq_inv (lbq_start c n :: ('a bq_op, 'a lbq, 'a lbq_pc) sys)" using assms(2) lbq_inv_start by blast
  then have "lbq_sized (ensure_capacity c) (lbq_start c n :: ('a bq_op, 'a lbq, 'a lbq_pc) sys)"
    by (simp add: lbq_sized_def) (simp add: lbq_start_def lbq_new_def)
  then have "lbq_sized (ensure_capacity c) s"
    using run_invariant [of "lbq_sized (ensure_capacity c)" lbq_machine ls] lbq_sized_exec assms(1) by blast
  then have sized: "lbq_sized (ensure_capacity c) t" using assms(3) by (rule lbq_sized_exec)
  have "i < length (threads t)" "pc (threads t ! i) = lbq_entry op"
    using assms(3) by (auto split: if_splits)
  with lbq_rank.run_ranked [OF assms(4) sized _ assms(5)] lbq_entry_rank [of "ensure_capacity c" op]
  show ?thesis by fastforce
qed

definition lbq_push_begun :: "(nat bq_op, nat lbq, nat lbq_pc) sys" where
  "lbq_push_begun = (lbq_start 1 1)\<lparr>threads := [\<lparr>cur = Some (OpPush 5), called = 0, pc = LPushAt Enter 5 Untimed\<rparr>]\<rparr>"

text \<open>A push into an empty queue: thirteen actions, no wake-up, and the call has returned.\<close>

theorem lbq_call_bounded_witness:
  "\<exists>t u :: (nat bq_op, nat lbq, nat lbq_pc) sys.
    exec lbq_machine (Call 0 (OpPush 5)) (lbq_start 1 1) = Some t
    \<and> run lbq_machine (acts 0 13) t = Some u
    \<and> pc (threads u ! 0) = LDone (PushRes (Inr ())) \<and> count (shared u) = 1
    \<and> own_steps 0 (acts 0 13 :: nat bq_op label list) = 13
    \<and> own_steps 0 (acts 0 13 :: nat bq_op label list) \<le> 20 + 17 * wakes lbq_machine 0 (acts 0 13) t"
proof -
  let ?ms = "acts 0 13 :: nat bq_op label list"
  have start: "run lbq_machine [] (lbq_start 1 1) = Some (lbq_start 1 1 :: (nat bq_op, nat lbq, nat lbq_pc) sys)"
    by simp
  have cap: "1 \<le> usize_max" by (simp add: usize_max_def usize_mod_def)
  have begun: "exec lbq_machine (Call 0 (OpPush 5)) (lbq_start 1 1) = Some lbq_push_begun"
    by (simp add: lbq_eval lbq_push_begun_def)
  obtain u where u: "run lbq_machine ?ms lbq_push_begun = Some u"
    "pc (threads u ! 0) = LDone (PushRes (Inr ()))" "count (shared u) = 1"
    by (simp add: lbq_eval lbq_push_begun_def)
  have "\<forall>l \<in> set ?ms. \<not> calls 0 l" by (simp add: acts_def calls_def)
  then have "own_steps 0 ?ms
      \<le> (if OpPush (5 :: nat) = OpDrain then ensure_capacity 1 + 8 else 20) + 17 * wakes lbq_machine 0 ?ms lbq_push_begun"
    by (rule lbq_call_bounded [OF start cap begun u(1)])
  moreover have "own_steps 0 ?ms = 13" by (simp add: own_steps_def acts_def replicate_numeral)
  ultimately show ?thesis using begun u by (intro exI [of _ lbq_push_begun] exI [of _ u]) simp
qed

section \<open>Disposal, results and waiter counters\<close>

text \<open>
  C11. Disposal: from a state where the queue is disposed, it stays disposed and at most one
  more push ever takes effect, the one that holds the push lock and has already read the flag as
  false; if there is none (as after \<open>dispose\<close> has taken that lock), no push does.
\<close>

theorem lbq_dispose_late:
  assumes "run lbq_machine ls (lbq_start c n) = Some s" and "c \<le> usize_max" and "ldisposed (shared s)"
    and "run lbq_machine ms s = Some t"
  defines "h \<equiv> history lbq_machine (\<lambda>_. lbq_decided) ms s"
  shows "ldisposed (shared t) \<and> length (pushed h) \<le> inside committing (threads s)
    \<and> inside committing (threads s) \<le> 1 \<and> lbq_items s @ pushed h = taken h @ lbq_items t"
proof -
  have inv: "lbq_inv s" using assms(1,2) by (rule lbq_inv_run)
  have "lbq_items s @ pushed h = taken h @ lbq_items t"
    using lbq.replay_items [OF lbq_lin.replay_run [OF inv assms(4)]] by (simp add: h_def lbq_abs_def lbq_view_def)
  with lbq_late_run [OF inv assms(4,3)] lbq_committing_one [OF inv] show ?thesis by (simp add: h_def)
qed

theorem lbq_dispose_late_witness:
  "\<exists>s t. run lbq_machine lbq_closing (lbq_start 0 3) = Some s \<and> run lbq_machine lbq_late s = Some t
    \<and> ldisposed (shared t) \<and> length (pushed (history lbq_machine (\<lambda>_. lbq_decided) lbq_late s)) \<le> 1"
  using lbq_closing_run lbq_dispose_late [of lbq_closing 0 3 _ lbq_late] by fastforce

text \<open>
  Disposal is not a single step for the consumers: in this run a pop is told
  \<open>ResourceUnavailable\<close> (empty and closed) and yet a concurrent push then reports success, so its item
  stays behind when the consumers have gone.
\<close>

lemma lbq_accepts_after_refusing:
  "\<exists>t. run lbq_machine (lbq_closing @ lbq_late) (lbq_start 0 3) = Some t
    \<and> map pc (threads t) = [LDone (PushRes (Inr ())), LDone DisposeRes, LDone (PopRes (Inl ResourceUnavailable))]
    \<and> count (shared t) = 1 \<and> ldisposed (shared t)"
  using lbq_closing_run by (auto simp: run_append)

text \<open>
  Results: a returned call answers with a result of its own operation; a refused push
  hands back exactly its item; \<open>ResourceUnavailable\<close> is reported only on a disposed queue;
  \<open>Timeout\<close> only by the timed operations, after more than the duration since the call.
\<close>

lemma lbq_results:
  assumes "run lbq_machine ls (lbq_start c n) = Some s" and "c \<le> usize_max"
    and "i < n" and "pc (threads s ! i) = LDone r"
  shows "\<exists>op. cur (threads s ! i) = Some op \<and> bq_answers op r \<and> (closed_res r \<longrightarrow> ldisposed (shared s))
    \<and> (timed_out_res r \<longrightarrow> (\<exists>d. op_limit op = Some d \<and> called (threads s ! i) + d < now s))"
proof -
  have "length (threads s) = n" using run_length [OF assms(1)] by (simp add: lbq_start_def)
  with lbq_inv_at(2,3) [OF lbq_inv_run [OF assms(1,2)], of i] assms(3,4)
  show ?thesis by (auto simp: lbq_call_def expired_def)
qed

lemma lbq_results_witness:
  "\<exists>s d. run lbq_machine lbq_expired (lbq_start 1 1) = Some s \<and> cur (threads s ! 0) = Some (OpPopTimeout d)
    \<and> called (threads s ! 0) + d < now s"
proof -
  obtain s where s: "run lbq_machine lbq_expired (lbq_start 1 1) = Some s"
    "map pc (threads s) = [LDone (PopRes (Inl Timeout))]"
    using lbq_expired_run by (elim exE conjE)
  from pcs_nth [OF s(2), of 0] have "pc (threads s ! 0) = LDone (PopRes (Inl Timeout))" by simp
  moreover have "1 \<le> usize_max" by (simp add: usize_max_def usize_mod_def)
  ultimately obtain op where "cur (threads s ! 0) = Some op"
    "bq_answers op (PopRes (Inl Timeout))" "\<exists>d. op_limit op = Some d \<and> called (threads s ! 0) + d < now s"
    using lbq_results [OF s(1), of 0 "PopRes (Inl Timeout)"] by auto
  with s(1) show ?thesis by (cases op) auto
qed

text \<open>
  The waiter counters of both ends never wrap: each is exactly the number of threads inside
  the wait of a push (of a pop).
\<close>

lemma lbq_waiters_exact:
  assumes "run lbq_machine ls (lbq_start c n) = Some s" and "c \<le> usize_max" and "n < usize_mod"
  shows "waiters_count (push_side_waiters (shared s)) = inside lpush_section (threads s)
    \<and> waiters_count (pop_side_waiters (shared s)) = inside lpop_section (threads s)"
  using lbq_covered_run [OF assms] by (simp add: lbq_covered_def lbq_live_inv_def waiters_count_def)

end
