(* ===== verification/Futex.thy ===== *)
theory Futex
  imports Threads "HOL-Library.Word"
begin

text \<open>
  The futex word (\<open>crates/hio-concurrent/src/futex.rs\<close>) and its two platform layers
  (\<open>futex/linux.rs\<close>, \<open>futex/mswin.rs\<close>). The word is an \<open>AtomicU32\<close>, a number below
  \<open>u32_mod\<close>; each operation takes the word and gives its result and the new word. Waiting and
  waking are what the operating system does with the threads: the layers are modelled by the
  arguments they pass to it. The kernel and the Windows API are not part of the repository; the
  number of waiters \<open>FUTEX_WAKE\<close> wakes for a signed count is the parameter \<open>krn\<close>, its
  documented behaviour (the comment of \<open>linux.rs\<close>) the predicate \<open>kernel_contract\<close>.
\<close>

section \<open>The word\<close>

definition fw_new :: "nat \<Rightarrow> nat" where
  "fw_new n = n"

definition fw_load :: "nat \<Rightarrow> nat" where
  "fw_load w = w"

definition fw_fetch_add :: "nat \<Rightarrow> nat \<Rightarrow> nat \<times> nat" where
  "fw_fetch_add val w = (w, wrap_add u32_mod w val)"

definition fw_fetch_sub :: "nat \<Rightarrow> nat \<Rightarrow> nat \<times> nat" where
  "fw_fetch_sub val w = (w, wrap_sub u32_mod w val)"

definition fw_compare_exchange :: "nat \<Rightarrow> nat \<Rightarrow> nat \<Rightarrow> (nat + nat) \<times> nat" where
  "fw_compare_exchange expected new w = (if w = expected then (Inr w, new) else (Inl w, w))"

text \<open>The weak form may also fail (\<open>flaky\<close>) when the comparison succeeds.\<close>

definition fw_compare_exchange_weak :: "bool \<Rightarrow> nat \<Rightarrow> nat \<Rightarrow> nat \<Rightarrow> (nat + nat) \<times> nat" where
  "fw_compare_exchange_weak flaky expected new w =
     (if w = expected \<and> \<not> flaky then (Inr w, new) else (Inl w, w))"

section \<open>The platform layers\<close>

text \<open>
  \<open>Linux a krn\<close>: \<open>a\<close> is the address of the function \<open>i32::max\<close>, which \<open>wake_all\<close>
  casts to \<open>u32\<close> where the constant \<open>i32::MAX\<close> was meant. The kernel reads the count as a
  signed 32-bit integer.
\<close>

datatype platform = Linux "64 word" "int \<Rightarrow> nat" | Windows

definition kernel_contract :: "(int \<Rightarrow> nat) \<Rightarrow> bool" where
  "kernel_contract krn \<longleftrightarrow> (\<forall>n. krn n = (if n > 0 then nat n else 1))"

definition sys_futex_wake :: "(int \<Rightarrow> nat) \<Rightarrow> 32 word \<Rightarrow> 'cv \<Rightarrow> 'cv notice" where
  "sys_futex_wake krn val cv = Wake (krn (sint val)) cv"

definition linux_wake_one :: "(int \<Rightarrow> nat) \<Rightarrow> 'cv \<Rightarrow> 'cv notice" where
  "linux_wake_one krn cv = sys_futex_wake krn 1 cv"

definition linux_wake_all :: "64 word \<Rightarrow> (int \<Rightarrow> nat) \<Rightarrow> 'cv \<Rightarrow> 'cv notice" where
  "linux_wake_all i32_max_fn krn cv = sys_futex_wake krn (ucast i32_max_fn) cv"

definition mswin_wake_one :: "'cv \<Rightarrow> 'cv notice" where
  "mswin_wake_one cv = Wake 1 cv"

definition mswin_wake_all :: "'cv \<Rightarrow> 'cv notice" where
  "mswin_wake_all cv = WakeAll cv"

fun fw_wake_one :: "platform \<Rightarrow> 'cv \<Rightarrow> 'cv notice" where
  "fw_wake_one (Linux a krn) cv = linux_wake_one krn cv"
| "fw_wake_one Windows cv = mswin_wake_one cv"

fun fw_wake_all :: "platform \<Rightarrow> 'cv \<Rightarrow> 'cv notice" where
  "fw_wake_all (Linux a krn) cv = linux_wake_all a krn cv"
| "fw_wake_all Windows cv = mswin_wake_all cv"

section \<open>Waiting\<close>

text \<open>
  A \<open>Duration\<close> is seconds below \<open>2 ^ 64\<close> and nanoseconds below \<open>10 ^ 9\<close>. On Linux it
  becomes a \<open>timespec\<close> whose seconds are a signed 64-bit \<open>time_t\<close>, on Windows a number of
  milliseconds in which \<open>INFINITE\<close> is reserved.
\<close>

record duration =
  secs :: nat
  nanos :: nat

definition duration_ok :: "duration \<Rightarrow> bool" where
  "duration_ok d \<longleftrightarrow> secs d < 2 ^ 64 \<and> nanos d < 10 ^ 9"

definition as_nanos :: "duration \<Rightarrow> nat" where
  "as_nanos d = secs d * 10 ^ 9 + nanos d"

definition time_t_max :: nat where
  "time_t_max = 2 ^ 63 - 1"

record timespec =
  tv_sec :: "64 word"
  tv_nsec :: "64 word"

definition linux_timespec :: "duration \<Rightarrow> timespec" where
  "linux_timespec timeout =
     \<lparr>tv_sec = word_of_nat (min (secs timeout) time_t_max), tv_nsec = word_of_nat (nanos timeout)\<rparr>"

definition INFINITE :: nat where
  "INFINITE = 2 ^ 32 - 1"

definition div_ceil :: "nat \<Rightarrow> nat \<Rightarrow> nat" where
  "div_ceil a b = (if a mod b = 0 then a div b else a div b + 1)"

definition clamp :: "nat \<Rightarrow> nat \<Rightarrow> nat \<Rightarrow> nat" where
  "clamp lo hi x = (if x < lo then lo else if x > hi then hi else x)"

definition mswin_millis :: "duration \<Rightarrow> nat" where
  "mswin_millis timeout = clamp 1 (INFINITE - 1) (div_ceil (as_nanos timeout) 1000000) mod u32_mod"

text \<open>
  A wait compares the word with the expected value and sleeps, in one action: \<open>Some\<close> when the
  caller goes to sleep, with the limit it hands to the system.
\<close>

datatype sleep_limit = Forever | Relative timespec | Millis nat

definition sys_futex_wait :: "nat \<Rightarrow> sleep_limit \<Rightarrow> nat \<Rightarrow> sleep_limit option" where
  "sys_futex_wait val ts w = (if w = val then Some ts else None)"

definition linux_wait :: "nat \<Rightarrow> nat \<Rightarrow> sleep_limit option" where
  "linux_wait expected w = sys_futex_wait expected Forever w"

definition linux_wait_timeout :: "nat \<Rightarrow> duration \<Rightarrow> nat \<Rightarrow> sleep_limit option" where
  "linux_wait_timeout expected timeout w = sys_futex_wait expected (Relative (linux_timespec timeout)) w"

definition mswin_wait_ms :: "nat \<Rightarrow> nat \<Rightarrow> nat \<Rightarrow> sleep_limit option" where
  "mswin_wait_ms expected ms w =
     (if w = expected then Some (if ms = INFINITE then Forever else Millis ms) else None)"

definition mswin_wait :: "nat \<Rightarrow> nat \<Rightarrow> sleep_limit option" where
  "mswin_wait expected w = mswin_wait_ms expected INFINITE w"

definition mswin_wait_timeout :: "nat \<Rightarrow> duration \<Rightarrow> nat \<Rightarrow> sleep_limit option" where
  "mswin_wait_timeout expected timeout w = mswin_wait_ms expected (mswin_millis timeout) w"

fun fw_wait :: "platform \<Rightarrow> nat \<Rightarrow> nat \<Rightarrow> sleep_limit option" where
  "fw_wait (Linux a krn) expected w = linux_wait expected w"
| "fw_wait Windows expected w = mswin_wait expected w"

fun fw_wait_timeout :: "platform \<Rightarrow> nat \<Rightarrow> duration \<Rightarrow> nat \<Rightarrow> sleep_limit option" where
  "fw_wait_timeout (Linux a krn) expected timeout w = linux_wait_timeout expected timeout w"
| "fw_wait_timeout Windows expected timeout w = mswin_wait_timeout expected timeout w"

text \<open>Without a timeout both platforms sleep for ever exactly on the expected value.\<close>

lemma fw_wait_iff [simp]: "fw_wait P expected w = (if w = expected then Some Forever else None)"
  by (cases P) (simp_all add: linux_wait_def sys_futex_wait_def mswin_wait_def mswin_wait_ms_def)

section \<open>Facts about the words\<close>

lemma kernel_contract_wake_one: "kernel_contract krn \<Longrightarrow> linux_wake_one krn cv = Wake 1 cv"
  by (simp add: kernel_contract_def linux_wake_one_def sys_futex_wake_def)

text \<open>What the platform promises: \<open>wake_one\<close> wakes one sleeper, \<open>wake_all\<close> at least \<open>m\<close>.\<close>

fun platform_ok :: "platform \<Rightarrow> bool" where
  "platform_ok (Linux a krn) = kernel_contract krn"
| "platform_ok Windows = True"

fun wakes_up_to :: "platform \<Rightarrow> nat \<Rightarrow> bool" where
  "wakes_up_to (Linux a krn) m = (m \<le> krn (sint (ucast a :: 32 word)))"
| "wakes_up_to Windows m = True"

lemma platform_wake_one: "platform_ok P \<Longrightarrow> fw_wake_one P cv = Wake 1 cv"
  by (cases P) (simp_all add: kernel_contract_wake_one mswin_wake_one_def)

lemma platform_wake_all:
  "wakes_up_to P m \<Longrightarrow> fw_wake_all P cv = WakeAll cv \<or> (\<exists>k \<ge> m. fw_wake_all P cv = Wake k cv)"
  by (cases P) (auto simp: linux_wake_all_def sys_futex_wake_def mswin_wake_all_def)

lemma platform_target [simp]: "target (fw_wake_one P cv) = Some cv" "target (fw_wake_all P cv) = Some cv"
  by (cases P; simp add: linux_wake_one_def linux_wake_all_def sys_futex_wake_def mswin_wake_one_def
      mswin_wake_all_def)+

text \<open>A 32-bit pattern read as a signed integer.\<close>

lemma sint_pattern: "sint (v :: 32 word) = (if unat v < 2 ^ 31 then int (unat v) else int (unat v) - 2 ^ 32)"
proof -
  define x where "x = int (unat v)"
  have x: "0 \<le> x" "x < 2 ^ 32" using unsigned_less [of v] by (simp_all add: x_def)
  have "sint v = (x + 2 ^ 31) mod 2 ^ 32 - 2 ^ 31"
    by (simp add: x_def sint_uint signed_take_bit_eq_take_bit_shift take_bit_eq_mod)
  also have "(x + 2 ^ 31) mod 2 ^ 32 = (if x < 2 ^ 31 then x + 2 ^ 31 else x - 2 ^ 31)"
  proof (cases "x < 2 ^ 31")
    case False
    have "(x + 2 ^ 31) mod 2 ^ 32 = ((x - 2 ^ 31) + 2 ^ 32) mod 2 ^ 32" by (simp add: add.commute)
    also have "\<dots> = (x - 2 ^ 31) mod 2 ^ 32" by (rule mod_add_self2)
    also have "\<dots> = x - 2 ^ 31" using x False by (intro mod_pos_pos_trivial) simp_all
    finally show ?thesis using False by simp
  qed (use x in simp)
  finally have "sint v = (if x < 2 ^ 31 then x else x - 2 ^ 32)" by (simp split: if_splits)
  moreover have "x < 2 ^ 31 \<longleftrightarrow> unat v < 2 ^ 31" 
    unfolding x_def by (rule of_nat_less_numeral_power_cancel_iff)
  ultimately show ?thesis by (simp only: x_def)
qed

lemma unat_low_word: "unat (ucast a :: 32 word) = unat (a :: 64 word) mod 2 ^ 32"
  by transfer (simp add: take_bit_eq_mod nat_mod_distrib)

lemma div_ceil_mult: "0 < b \<Longrightarrow> a \<le> div_ceil a b * b \<and> div_ceil a b * b < a + b"
proof -
  assume b: "0 < b"
  have "a div b * b + a mod b = a" by simp
  moreover have "a mod b < b" using b by simp
  moreover have "div_ceil a b * b = a \<or> (0 < a mod b \<and> div_ceil a b * b = a div b * b + b)"
    by (auto simp: div_ceil_def)
  ultimately show ?thesis using b by (elim disjE conjE; intro conjI; linarith)
qed

end
