(* ===== verification/Semaphores.thy ===== *)
theory Semaphores
  imports Contracts HioCore
begin

text \<open>
  The semaphore interface (\<open>crates/hio-concurrent/src/semaphore.rs\<close>): the kinds, the
  operations and results of the trait \<open>Semaphore\<close>, and the sequential specification that both
  semaphores are linearizable to. The state of the specification is the number of permits;
  \<open>add\<close> is what a release does to it, with the result it reports, since the two
  implementations treat an overflow differently.
\<close>

datatype SemaphoreType = FutexSem | CondvarSem

fun semaphore_type_code :: "SemaphoreType \<Rightarrow> nat" where
  "semaphore_type_code FutexSem = 0"
| "semaphore_type_code CondvarSem = 1"

definition ensure_permits :: "nat \<Rightarrow> nat" where
  "ensure_permits permits = (if permits = 0 then 1 else permits)"

text \<open>\<open>create_semaphore\<close>: the condition-variable kind is a \<open>todo!()\<close>, a panic (\<open>None\<close>).\<close>

definition create_semaphore :: "(nat \<Rightarrow> 'a option) \<Rightarrow> SemaphoreType \<Rightarrow> nat \<Rightarrow> 'a option" where
  "create_semaphore futex_new sem_type permits =
     (case sem_type of FutexSem \<Rightarrow> futex_new permits | CondvarSem \<Rightarrow> None)"

section \<open>The trait\<close>

datatype sem_op = OpAcquire | OpTryAcquire | OpRelease nat | OpAvailable

text \<open>\<open>ReleasePanic n\<close>: the release of \<open>n\<close> failed its overflow assertion, after adding them.\<close>

datatype sem_res =
    AcquireRes
  | TryAcquireRes "HioLastError + unit"
  | ReleaseRes
  | ReleasePanic nat
  | AvailableRes nat

section \<open>The sequential specification\<close>

text \<open>
  An acquire takes one permit and returns only when there is one. \<open>try_acquire\<close> takes one or
  reports \<open>Failed\<close>; it may fail although permits are left, when it loses a race.
\<close>

fun sem_spec :: "(nat \<Rightarrow> nat \<Rightarrow> nat \<times> sem_res) \<Rightarrow> sem_op \<Rightarrow> sem_res \<Rightarrow> nat \<Rightarrow> nat option" where
  "sem_spec add OpAcquire r p = (if r = AcquireRes \<and> 0 < p then Some (p - 1) else None)"
| "sem_spec add OpTryAcquire r p =
     (if r = TryAcquireRes (Inr ()) \<and> 0 < p then Some (p - 1)
      else if r = TryAcquireRes (Inl Failed) then Some p else None)"
| "sem_spec add (OpRelease n) r p = (if r = snd (add p n) then Some (fst (add p n)) else None)"
| "sem_spec add OpAvailable r p = (if r = AvailableRes p then Some p else None)"

text \<open>The permits handed out by a history, and those put in.\<close>

fun granted :: "(sem_op, sem_res) event list \<Rightarrow> nat" where
  "granted [] = 0"
| "granted (EvLin i op r # es) =
     of_bool (r = AcquireRes \<or> r = TryAcquireRes (Inr ())) + granted es"
| "granted (EvCall i op # es) = granted es"

fun deposited :: "(sem_op, sem_res) event list \<Rightarrow> nat" where
  "deposited [] = 0"
| "deposited (EvLin i op r # es) = (case op of OpRelease n \<Rightarrow> n | _ \<Rightarrow> 0) + deposited es"
| "deposited (EvCall i op # es) = deposited es"

text \<open>
  The law of a release: it adds at most what it is given, it reports a result of its own, and
  below the limit it adds exactly that and reports success.
\<close>

locale permit_law =
  fixes add :: "nat \<Rightarrow> nat \<Rightarrow> nat \<times> sem_res" and limit :: nat
  assumes add_most: "fst (add p n) \<le> p + n"
    and add_result: "snd (add p n) = ReleaseRes \<or> snd (add p n) = ReleasePanic n"
    and add_exact: "p + n \<le> limit \<Longrightarrow> add p n = (p + n, ReleaseRes)"
begin

lemma add_other [simp]: "snd (add p n) \<noteq> AcquireRes" "snd (add p n) \<noteq> TryAcquireRes x"
  using add_result [of p n] by auto

lemma spec_conserves:
  assumes "sem_spec add op r p = Some p'"
  shows "granted [EvLin i op r] + p' \<le> p + deposited [EvLin i op r]"
    and "p + deposited [EvLin i op r] \<le> limit \<Longrightarrow> granted [EvLin i op r] + p' = p + deposited [EvLin i op r]"
proof -
  show "granted [EvLin i op r] + p' \<le> p + deposited [EvLin i op r]"
    using assms add_most [of p] by (cases op) (auto split: if_splits)
  assume "p + deposited [EvLin i op r] \<le> limit"
  then show "granted [EvLin i op r] + p' = p + deposited [EvLin i op r]"
    using assms by (cases op) (auto simp: add_exact split: if_splits)
qed

text \<open>Permits are never made up; and none gets lost while the limit cannot be reached.\<close>

lemma granted_Cons: "granted (e # es) = granted [e] + granted es"
  by (cases e) auto

lemma deposited_Cons: "deposited (e # es) = deposited [e] + deposited es"
  by (cases e) auto

lemma replay_conserves:
  assumes "replay (sem_spec add) es p = Some p'"
  shows "granted es + p' \<le> p + deposited es
    \<and> (p + deposited es \<le> limit \<longrightarrow> granted es + p' = p + deposited es)"
  using assms
proof (induction es arbitrary: p)
  case (Cons e es)
  show ?case
  proof (cases e)
    case (EvCall i op)
    with Cons.prems Cons.IH [of p] show ?thesis by simp
  next
    case (EvLin i op r)
    with Cons.prems obtain m where m: "sem_spec add op r p = Some m" "replay (sem_spec add) es m = Some p'"
      by (auto split: option.splits)
    from spec_conserves [OF m(1), of i] Cons.IH [OF m(2)] EvLin show ?thesis
      unfolding granted_Cons [of e es] deposited_Cons [of e es] by auto
  qed
qed simp

text \<open>Below the limit no release fails.\<close>

lemma replay_no_panic:
  assumes "replay (sem_spec add) es p = Some p'" and "p + deposited es \<le> limit"
  shows "EvLin i op (ReleasePanic k) \<notin> set es"
  using assms
proof (induction es arbitrary: p)
  case (Cons e es)
  show ?case
  proof (cases e)
    case (EvCall j op')
    with Cons.prems Cons.IH [of p] show ?thesis by simp
  next
    case (EvLin j op' r)
    with Cons.prems obtain m where m: "sem_spec add op' r p = Some m" "replay (sem_spec add) es m = Some p'"
      by (auto split: option.splits)
    have low: "p + deposited [EvLin j op' r] + deposited es \<le> limit"
      using Cons.prems(2) EvLin deposited_Cons [of e es] by simp
    then have "m + deposited es \<le> limit" using spec_conserves(2) [OF m(1), of j] by simp
    moreover have "r \<noteq> ReleasePanic k"
      using m(1) low by (cases op') (auto simp: add_exact split: if_splits)
    ultimately show ?thesis using Cons.IH [OF m(2)] EvLin by simp
  qed
qed simp

end

text \<open>The stricter semaphore: \<open>try_acquire\<close> fails only when there is no permit.\<close>

definition strict_sem_spec :: "(nat \<Rightarrow> nat \<Rightarrow> nat \<times> sem_res) \<Rightarrow> sem_op \<Rightarrow> sem_res \<Rightarrow> nat \<Rightarrow> nat option" where
  "strict_sem_spec add op r p = (if r = TryAcquireRes (Inl Failed) \<and> 0 < p then None else sem_spec add op r p)"

lemma replay_strict:
  "replay (strict_sem_spec add) es p = Some p' \<Longrightarrow> replay (sem_spec add) es p = Some p'"
proof (induction es arbitrary: p)
  case (Cons e es)
  then show ?case by (cases e) (auto simp: strict_sem_spec_def split: option.splits if_splits)
qed simp

text \<open>Which results belong to which operation.\<close>

fun sem_answers :: "sem_op \<Rightarrow> sem_res \<Rightarrow> bool" where
  "sem_answers OpAcquire r = (r = AcquireRes)"
| "sem_answers OpTryAcquire r = (r = TryAcquireRes (Inr ()) \<or> r = TryAcquireRes (Inl Failed))"
| "sem_answers (OpRelease n) r = (r = ReleaseRes \<or> r = ReleasePanic n)"
| "sem_answers OpAvailable r = (\<exists>p. r = AvailableRes p)"

end
