(* ===== verification/FutexSem.thy ===== *)
theory FutexSem
  imports Futex Semaphores
begin

text \<open>
  The futex semaphore (\<open>crates/hio-concurrent/src/semaphore/futex_semaphore.rs\<close>). \<open>fsem\<close> is
  the struct; a call is a walk of one thread through the points of \<open>fsem_pc\<close>, one equation
  of the step functions per atomic action. There is no lock: the only shared data are the two
  \<open>AtomicU32\<close> words. Parameters of the model: the platform under the futex word, \<open>checks\<close>
  (whether arithmetic overflow panics, as in a debug build), and \<open>flaky i t\<close>, whether a weak
  compare-exchange of thread \<open>i\<close> at time \<open>t\<close> fails spuriously.
\<close>

section \<open>State and program points\<close>

record fsem =
  permits :: nat
  waiters :: nat

definition MAX_PERMITS :: nat where
  "MAX_PERMITS = (u32_mod - 1) div 2"

text \<open>\<open>FutexSemaphore::new\<close> panics (\<open>None\<close>) above the maximum.\<close>

definition fsem_new :: "nat \<Rightarrow> fsem option" where
  "fsem_new p = (if p \<le> MAX_PERMITS then Some \<lparr>permits = fw_new p, waiters = 0\<rparr> else None)"

text \<open>
  \<open>DecLoad\<close> and \<open>DecCas\<close> are the two points of \<open>try_decrement\<close>; the flag says whether
  \<open>acquire_slow\<close> called it.
\<close>

datatype fsem_pc =
    FIdle
  | FDone sem_res
  | FPanicked nat
  | DecLoad bool
  | DecCas bool nat
  | SlowEnter | SlowTest | SlowWait | SlowAsleep | SlowLeave
  | TryLoad | TryCas nat
  | RelAdd nat | RelWaiters nat | WakeAt nat nat | WakeOnes nat
  | AvailAt

section \<open>Acquire\<close>

definition dec_true :: "bool \<Rightarrow> fsem_pc" where
  "dec_true slow = (if slow then SlowLeave else FDone AcquireRes)"

definition dec_false :: "bool \<Rightarrow> fsem_pc" where
  "dec_false slow = (if slow then SlowTest else SlowEnter)"

text \<open>The loop head \<open>while cur > 0\<close> of \<open>try_decrement\<close>.\<close>

definition dec_head :: "bool \<Rightarrow> nat \<Rightarrow> fsem_pc" where
  "dec_head slow n = (if n > 0 then DecCas slow n else dec_false slow)"

definition try_decrement_load :: "fsem \<Rightarrow> bool \<Rightarrow> fsem \<times> fsem_pc" where
  "try_decrement_load q slow = (q, dec_head slow (fw_load (permits q)))"

definition try_decrement_cas :: "bool \<Rightarrow> fsem \<Rightarrow> bool \<Rightarrow> nat \<Rightarrow> fsem \<times> fsem_pc" where
  "try_decrement_cas flk q slow n =
     (case fw_compare_exchange_weak flk n (n - 1) (permits q) of
        (Inr _, w) \<Rightarrow> (q\<lparr>permits := w\<rparr>, dec_true slow)
      | (Inl m, w) \<Rightarrow> (q, dec_head slow m))"

fun acquire_slow_step :: "platform \<Rightarrow> fsem \<Rightarrow> fsem_pc \<Rightarrow> (fsem \<times> fsem_pc) option" where
  "acquire_slow_step P q SlowEnter = Some (q\<lparr>waiters := wrap_add u32_mod (waiters q) 1\<rparr>, DecLoad True)"
| "acquire_slow_step P q SlowTest =
     Some (q, if fw_load (permits q) = 0 then SlowWait else DecLoad True)"
| "acquire_slow_step P q SlowWait =
     Some (q, case fw_wait P 0 (permits q) of Some limit \<Rightarrow> SlowAsleep | None \<Rightarrow> DecLoad True)"
| "acquire_slow_step P q SlowLeave =
     Some (q\<lparr>waiters := wrap_sub u32_mod (waiters q) 1\<rparr>, FDone AcquireRes)"
| "acquire_slow_step P q p = None"

fun try_acquire_step :: "fsem \<Rightarrow> fsem_pc \<Rightarrow> (fsem \<times> fsem_pc) option" where
  "try_acquire_step q TryLoad =
     (let n = fw_load (permits q)
      in Some (q, if n > 0 then TryCas n else FDone (TryAcquireRes (Inl Failed))))"
| "try_acquire_step q (TryCas n) =
     (case fw_compare_exchange n (n - 1) (permits q) of
        (Inr _, w) \<Rightarrow> Some (q\<lparr>permits := w\<rparr>, FDone (TryAcquireRes (Inr ())))
      | (Inl _, w) \<Rightarrow> Some (q, FDone (TryAcquireRes (Inl Failed))))"
| "try_acquire_step q p = None"

section \<open>Release\<close>

text \<open>
  The assertion \<open>prev <= MAX_PERMITS - n\<close>. When \<open>n\<close> exceeds the maximum the subtraction
  overflows: it panics in a build with overflow checks and wraps around in one without.
\<close>

definition release_assert :: "bool \<Rightarrow> nat \<Rightarrow> nat \<Rightarrow> bool" where
  "release_assert checks prev n =
     (if n \<le> MAX_PERMITS then prev \<le> MAX_PERMITS - n
      else \<not> checks \<and> prev \<le> wrap_sub u32_mod MAX_PERMITS n)"

text \<open>What a release does to the number of permits, with its result.\<close>

definition release_add :: "bool \<Rightarrow> nat \<Rightarrow> nat \<Rightarrow> nat \<times> sem_res" where
  "release_add checks p n =
     (if n = 0 then (p, ReleaseRes)
      else case fw_fetch_add n p of
        (prev, w) \<Rightarrow> (w, if release_assert checks prev n then ReleaseRes else ReleasePanic n))"

definition wake_waiters :: "nat \<Rightarrow> nat \<Rightarrow> platform \<Rightarrow> fsem_pc \<times> unit notice" where
  "wake_waiters n waiting P =
     (if waiting \<le> n then (FDone ReleaseRes, fw_wake_all P ()) else (WakeOnes n, Quiet))"

fun release_step :: "bool \<Rightarrow> platform \<Rightarrow> fsem \<Rightarrow> fsem_pc \<Rightarrow> (fsem \<times> fsem_pc \<times> unit notice) option" where
  "release_step checks P q (RelAdd n) =
     (if n = 0 then Some (q, FDone ReleaseRes, Quiet)
      else case fw_fetch_add n (permits q) of
        (prev, w) \<Rightarrow>
          Some (q\<lparr>permits := w\<rparr>, if release_assert checks prev n then RelWaiters n else FPanicked n, Quiet))"
| "release_step checks P q (RelWaiters n) =
     Some (q, if waiters q \<noteq> 0 then WakeAt n (waiters q) else FDone ReleaseRes, Quiet)"
| "release_step checks P q (WakeAt n waiting) = Some (q, wake_waiters n waiting P)"
| "release_step checks P q (WakeOnes k) =
     (case k of
        0 \<Rightarrow> Some (q, FDone ReleaseRes, Quiet)
      | Suc m \<Rightarrow> Some (q, WakeOnes m, fw_wake_one P ()))"
| "release_step checks P q p = None"

section \<open>The machine\<close>

text \<open>No condition variable but the futex word itself, hence the sleep target \<open>()\<close>.\<close>

definition calm :: "('q \<times> 'pc) option \<Rightarrow> ('q \<times> 'pc \<times> 'cv notice) option" where
  "calm r = map_option (\<lambda>(q, p). (q, p, Quiet)) r"

fun fsem_advance ::
    "bool \<Rightarrow> platform \<Rightarrow> (tid \<Rightarrow> nat \<Rightarrow> bool) \<Rightarrow> tid \<Rightarrow> nat \<Rightarrow> fsem \<Rightarrow> fsem_pc
      \<Rightarrow> (fsem \<times> fsem_pc \<times> unit notice) option" where
  "fsem_advance checks P flaky i t q (DecLoad slow) = calm (Some (try_decrement_load q slow))"
| "fsem_advance checks P flaky i t q (DecCas slow n) = calm (Some (try_decrement_cas (flaky i t) q slow n))"
| "fsem_advance checks P flaky i t q SlowEnter = calm (acquire_slow_step P q SlowEnter)"
| "fsem_advance checks P flaky i t q SlowTest = calm (acquire_slow_step P q SlowTest)"
| "fsem_advance checks P flaky i t q SlowWait = calm (acquire_slow_step P q SlowWait)"
| "fsem_advance checks P flaky i t q SlowLeave = calm (acquire_slow_step P q SlowLeave)"
| "fsem_advance checks P flaky i t q TryLoad = calm (try_acquire_step q TryLoad)"
| "fsem_advance checks P flaky i t q (TryCas n) = calm (try_acquire_step q (TryCas n))"
| "fsem_advance checks P flaky i t q AvailAt = Some (q, FDone (AvailableRes (fw_load (permits q))), Quiet)"
| "fsem_advance checks P flaky i t q p = release_step checks P q p"

fun fsem_entry :: "sem_op \<Rightarrow> fsem_pc" where
  "fsem_entry OpAcquire = DecLoad False"
| "fsem_entry OpTryAcquire = TryLoad"
| "fsem_entry (OpRelease n) = RelAdd n"
| "fsem_entry OpAvailable = AvailAt"

fun fsem_resting :: "fsem_pc \<Rightarrow> bool" where
  "fsem_resting FIdle = True"
| "fsem_resting (FDone r) = True"
| "fsem_resting p = False"

definition fsem_dozing :: "fsem_pc \<Rightarrow> unit option" where
  "fsem_dozing p = (if p = SlowAsleep then Some () else None)"

definition fsem_rouse :: "fsem_pc \<Rightarrow> fsem_pc" where
  "fsem_rouse p = (if p = SlowAsleep then DecLoad True else p)"

definition fsem_machine ::
    "bool \<Rightarrow> platform \<Rightarrow> (tid \<Rightarrow> nat \<Rightarrow> bool) \<Rightarrow> (sem_op, fsem, fsem_pc, unit) machine" where
  "fsem_machine checks P flaky = \<lparr>entry = fsem_entry, resting = fsem_resting,
     advance = fsem_advance checks P flaky, dozing = fsem_dozing, rouse = fsem_rouse\<rparr>"

lemma fsem_machine_simps [simp]:
  "entry (fsem_machine checks P flaky) = fsem_entry"
  "resting (fsem_machine checks P flaky) = fsem_resting"
  "advance (fsem_machine checks P flaky) = fsem_advance checks P flaky"
  "dozing (fsem_machine checks P flaky) = fsem_dozing"
  "rouse (fsem_machine checks P flaky) = fsem_rouse"
  by (simp_all add: fsem_machine_def)

definition fsem_start :: "fsem \<Rightarrow> nat \<Rightarrow> (sem_op, fsem, fsem_pc) sys" where
  "fsem_start q n = boot q FIdle n"

end
