(* ===== verification/FutexSemInv.thy ===== *)
theory FutexSemInv
  imports FutexSem
begin

text \<open>
  Invariants of the futex semaphore under any schedule: which operation a program point belongs
  to, the linearization points, the waiter counter, and that a permit on offer is always taken
  care of by some thread that is awake.
\<close>

lemmas fsem_defs = calm_def try_decrement_load_def try_decrement_cas_def dec_true_def dec_false_def
  dec_head_def fw_load_def fw_fetch_add_def fw_compare_exchange_def fw_compare_exchange_weak_def
  wake_waiters_def fsem_dozing_def fsem_rouse_def Let_def

section \<open>The rules of the machine\<close>

interpretation fsem: machine_rules "fsem_machine checks P flaky" for checks P flaky
proof
  fix op p p' i t q q' nt
  let ?M = "fsem_machine checks P flaky"
  show "dozing ?M (entry ?M op) = None" by (cases op) (auto simp: fsem_dozing_def)
  show "resting ?M p \<Longrightarrow> advance ?M i t q p = None" by (cases p) auto
  show "resting ?M p \<Longrightarrow> dozing ?M p = None" by (cases p) (auto simp: fsem_dozing_def)
  show "dozing ?M p \<noteq> None \<Longrightarrow> advance ?M i t q p = None" by (auto simp: fsem_dozing_def split: if_splits)
  show "dozing ?M p \<noteq> None \<Longrightarrow> dozing ?M (rouse ?M p) = None"
    by (auto simp: fsem_dozing_def fsem_rouse_def split: if_splits)
  assume "advance ?M i t q p = Some (q', p', nt)"
  then show "dozing ?M p' \<noteq> None \<Longrightarrow> nt = Quiet"
    by (cases p) (auto simp: fsem_defs split: if_splits nat.splits)
qed

section \<open>Program points and operations\<close>

fun fsem_of :: "sem_op \<Rightarrow> fsem_pc \<Rightarrow> bool" where
  "fsem_of op (FDone r) = sem_answers op r"
| "fsem_of op (DecLoad slow) = (op = OpAcquire)"
| "fsem_of op (DecCas slow n) = (op = OpAcquire \<and> 0 < n)"
| "fsem_of op SlowEnter = (op = OpAcquire)"
| "fsem_of op SlowTest = (op = OpAcquire)"
| "fsem_of op SlowWait = (op = OpAcquire)"
| "fsem_of op SlowAsleep = (op = OpAcquire)"
| "fsem_of op SlowLeave = (op = OpAcquire)"
| "fsem_of op TryLoad = (op = OpTryAcquire)"
| "fsem_of op (TryCas n) = (op = OpTryAcquire \<and> 0 < n)"
| "fsem_of op (RelAdd n) = (op = OpRelease n)"
| "fsem_of op (RelWaiters n) = (op = OpRelease n \<and> 0 < n)"
| "fsem_of op (WakeAt n w) = (op = OpRelease n \<and> 0 < n \<and> 0 < w)"
| "fsem_of op (WakeOnes k) = (\<exists>n \<ge> k. op = OpRelease n)"
| "fsem_of op (FPanicked n) = (op = OpRelease n \<and> 0 < n)"
| "fsem_of op AvailAt = (op = OpAvailable)"
| "fsem_of op FIdle = False"

definition fsem_call :: "tid \<Rightarrow> nat \<Rightarrow> fsem \<Rightarrow> (sem_op, fsem_pc) thread \<Rightarrow> bool" where
  "fsem_call i t q th \<longleftrightarrow> (pc th = FIdle \<or> (\<exists>op. cur th = Some op \<and> fsem_of op (pc th)))"

definition fsem_shared_ok :: "fsem \<Rightarrow> bool" where
  "fsem_shared_ok q \<longleftrightarrow> permits q < u32_mod \<and> waiters q < u32_mod"

lemma fsem_of_step:
  assumes "fsem_advance checks P flaky i t q p = Some (q', p', nt)" and "fsem_of op p"
  shows "fsem_of op p'"
  using assms by (cases p) (auto simp: fsem_defs split: if_splits nat.splits)

lemma fsem_shared_step:
  assumes "fsem_advance checks P flaky i t q p = Some (q', p', nt)" and "fsem_shared_ok q"
  shows "fsem_shared_ok q'"
proof -
  have "0 < u32_mod" by (simp add: u32_mod_def)
  with assms show ?thesis
    by (cases p) (auto simp: fsem_defs fsem_shared_ok_def wrap_add_bound wrap_sub_bound split: if_splits nat.splits)
qed

interpretation fsem_call: guarded "fsem_machine checks P flaky" fsem_shared_ok fsem_call for checks P flaky
proof
  fix q q' :: fsem and i j t d p nt op and th th' :: "(sem_op, fsem_pc) thread"
  let ?M = "fsem_machine checks P flaky"
  show "fsem_call i t q \<lparr>cur = Some op, called = t, pc = entry ?M op\<rparr>"
    by (cases op) (auto simp: fsem_call_def)
  show "fsem_call i t q th \<Longrightarrow> dozing ?M (pc th) \<noteq> None \<Longrightarrow>
      fsem_call i t q (th\<lparr>pc := rouse ?M (pc th)\<rparr>)"
    by (auto simp: fsem_call_def fsem_dozing_def fsem_rouse_def split: if_splits)
  assume "fsem_shared_ok q" and "fsem_call i t q th" and "advance ?M i t q (pc th) = Some (q', p, nt)"
  then show "fsem_shared_ok q' \<and> fsem_call i t q' (th\<lparr>pc := p\<rparr>)"
    using fsem_shared_step fsem_of_step by (auto simp: fsem_call_def)
qed (simp_all add: fsem_call_def)

definition fsem_inv :: "(sem_op, fsem, fsem_pc) sys \<Rightarrow> bool" where
  "fsem_inv s \<longleftrightarrow> fsem_shared_ok (shared s) \<and> all_threads fsem_call s"

lemma fsem_inv_exec: "fsem_inv s \<Longrightarrow> exec (fsem_machine checks P flaky) l s = Some t \<Longrightarrow> fsem_inv t"
  using fsem_call.exec_guarded unfolding fsem_inv_def by blast

lemma fsem_inv_run: "fsem_inv s \<Longrightarrow> run (fsem_machine checks P flaky) ls s = Some t \<Longrightarrow> fsem_inv t"
  using fsem_call.run_guarded unfolding fsem_inv_def by blast

lemma fsem_inv_start:
  assumes "fsem_new c = Some q" and "s = fsem_start q n"
  shows "fsem_inv s"
proof -
  from assms(1) have "permits q < u32_mod" "waiters q < u32_mod"
    by (auto simp: fsem_new_def fw_new_def MAX_PERMITS_def u32_mod_def split: if_splits)
  with assms(2) show ?thesis
    by (simp add: fsem_inv_def fsem_start_def fsem_shared_ok_def all_threads_def fsem_call_def)
qed

lemma fsem_at:
  assumes "fsem_inv s" and "i < length (threads s)" and "pc (threads s ! i) \<noteq> FIdle"
  obtains op where "cur (threads s ! i) = Some op" and "fsem_of op (pc (threads s ! i))"
  using assms by (auto simp: fsem_inv_def all_threads_def fsem_call_def)

section \<open>Linearization points\<close>

text \<open>The successful compare-exchange, the \<open>fetch_add\<close>, the load; a failing \<open>try_acquire\<close> when it fails.\<close>

fun fsem_decided :: "fsem \<Rightarrow> fsem_pc \<Rightarrow> sem_res option" where
  "fsem_decided q (FDone r) = Some r"
| "fsem_decided q SlowLeave = Some AcquireRes"
| "fsem_decided q (RelWaiters n) = Some ReleaseRes"
| "fsem_decided q (WakeAt n w) = Some ReleaseRes"
| "fsem_decided q (WakeOnes k) = Some ReleaseRes"
| "fsem_decided q (FPanicked n) = Some (ReleasePanic n)"
| "fsem_decided q p = None"

lemma fsem_decided_shared: "fsem_decided q p = fsem_decided q' p"
  by (cases p) auto

lemma fsem_lin_step:
  assumes "fsem_advance checks P flaky i t q p = Some (q', p', nt)" and "fsem_of op p"
  shows "case fsem_decided q p of
      Some r \<Rightarrow> fsem_decided q' p' = Some r \<and> permits q' = permits q
    | None \<Rightarrow> (case fsem_decided q' p' of
        None \<Rightarrow> permits q' = permits q
      | Some r \<Rightarrow> sem_spec (release_add checks) op r (permits q) = Some (permits q'))"
  using assms by (cases p) (auto simp: fsem_defs release_add_def split: if_splits nat.splits)

interpretation fsem_lin: linearizable "fsem_machine checks P flaky" fsem_inv fsem_decided
    "\<lambda>s. permits (shared s)" "sem_spec (release_add checks)" for checks P flaky
proof
  fix s t :: "(sem_op, fsem, fsem_pc) sys" and l i j op ks p and q :: fsem and n
  let ?M = "fsem_machine checks P flaky"
  show "fsem_inv s \<Longrightarrow> exec ?M l s = Some t \<Longrightarrow> fsem_inv t" by (rule fsem_inv_exec)
  show "fsem_decided q (entry ?M op) = None" by (cases op) auto
  show "exec ?M (Call i op) s = Some t \<Longrightarrow> permits (shared t) = permits (shared s)"
    "exec ?M (Spurious i) s = Some t \<Longrightarrow> permits (shared t) = permits (shared s)"
    by (auto split: if_splits)
  show "dozing ?M p \<noteq> None \<Longrightarrow> fsem_decided q (rouse ?M p) = fsem_decided q p"
    by (auto simp: fsem_dozing_def fsem_rouse_def split: if_splits)
  show "fsem_decided (shared t) (pc (threads s ! j)) = fsem_decided (shared s) (pc (threads s ! j))"
    by (rule fsem_decided_shared)
  assume inv: "fsem_inv s" and "exec ?M (Run i ks) s = Some t"
  from this(2) show "case fsem_decided (shared s) (pc (threads s ! i)) of
      Some r \<Rightarrow> fsem_decided (shared t) (pc (threads t ! i)) = Some r \<and> permits (shared t) = permits (shared s)
    | None \<Rightarrow> (case fsem_decided (shared t) (pc (threads t ! i)) of
        None \<Rightarrow> permits (shared t) = permits (shared s)
      | Some r \<Rightarrow> \<exists>op. cur (threads s ! i) = Some op
          \<and> sem_spec (release_add checks) op r (permits (shared s)) = Some (permits (shared t)))"
  proof (rule fsem.run_mover)
    fix q p nt
    assume i: "i < length (threads s)"
      and adv: "advance ?M i (now s) (shared s) (pc (threads s ! i)) = Some (q, p, nt)"
      and t: "shared t = q" "threads t ! i = (threads s ! i)\<lparr>pc := p\<rparr>"
    have "pc (threads s ! i) \<noteq> FIdle" using adv by auto
    with inv i obtain op where op: "cur (threads s ! i) = Some op" "fsem_of op (pc (threads s ! i))"
      by (rule fsem_at)
    with adv t fsem_lin_step [of checks P flaky i "now s" "shared s" "pc (threads s ! i)" q p nt op]
    show ?thesis by (simp split: option.splits)
  qed
qed simp

interpretation release_law: permit_law "release_add checks" MAX_PERMITS for checks
proof
  fix p n
  show "fst (release_add checks p n) \<le> p + n"
    by (auto simp: release_add_def fw_fetch_add_def wrap_add_def)
  show "snd (release_add checks p n) = ReleaseRes \<or> snd (release_add checks p n) = ReleasePanic n"
    by (simp add: release_add_def fw_fetch_add_def)
  assume "p + n \<le> MAX_PERMITS"
  moreover from this have "p + n < u32_mod" by (simp add: MAX_PERMITS_def u32_mod_def)
  ultimately show "release_add checks p n = (p + n, ReleaseRes)"
    by (simp add: release_add_def fw_fetch_add_def release_assert_def wrap_add_exact) arith
qed

section \<open>The waiter counter\<close>

fun slow_section :: "fsem_pc \<Rightarrow> bool" where
  "slow_section (DecLoad slow) = slow"
| "slow_section (DecCas slow n) = slow"
| "slow_section SlowTest = True"
| "slow_section SlowWait = True"
| "slow_section SlowAsleep = True"
| "slow_section SlowLeave = True"
| "slow_section p = False"

lemma fsem_count:
  assumes "fsem_advance checks P flaky i t q p = Some (q', p', nt)"
  shows "(slow_section p' = slow_section p \<and> waiters q' = waiters q)
    \<or> (\<not> slow_section p \<and> slow_section p' \<and> waiters q' = wrap_add u32_mod (waiters q) 1)
    \<or> (slow_section p \<and> \<not> slow_section p' \<and> waiters q' = wrap_sub u32_mod (waiters q) 1)"
  using assms by (cases p) (auto simp: fsem_defs split: if_splits nat.splits)

interpretation fsem_count: counter "fsem_machine checks P flaky" u32_mod waiters slow_section
  for checks P flaky
proof
  fix op p p' i t nt and q q' :: fsem
  let ?M = "fsem_machine checks P flaky"
  show "\<not> slow_section (entry ?M op)" by (cases op) auto
  show "resting ?M p \<Longrightarrow> \<not> slow_section p" by (cases p) auto
  show "dozing ?M p \<noteq> None \<Longrightarrow> slow_section (rouse ?M p) = slow_section p"
    by (auto simp: fsem_dozing_def fsem_rouse_def split: if_splits)
  show "advance ?M i t q p = Some (q', p', nt) \<Longrightarrow>
      (slow_section p' = slow_section p \<and> waiters q' = waiters q)
      \<or> (\<not> slow_section p \<and> slow_section p' \<and> waiters q' = wrap_add u32_mod (waiters q) 1)
      \<or> (slow_section p \<and> \<not> slow_section p' \<and> waiters q' = wrap_sub u32_mod (waiters q) 1)"
    using fsem_count [of checks P flaky i t q p] by simp
qed

section \<open>Wake-ups\<close>

text \<open>
  The permits on offer are the need; a thread that released \<open>n\<close> answers for \<open>n\<close> until it has
  woken that many, a woken thread for one until it has taken a permit or seen that there is none.
  A release that panics keeps its responsibility for ever.
\<close>

fun fsem_token :: "fsem_pc \<Rightarrow> nat" where
  "fsem_token (DecLoad slow) = of_bool slow"
| "fsem_token (DecCas slow n) = of_bool slow"
| "fsem_token (RelWaiters n) = n"
| "fsem_token (WakeAt n w) = n"
| "fsem_token (WakeOnes k) = k"
| "fsem_token (FPanicked n) = n"
| "fsem_token p = 0"

definition fsem_live_inv :: "platform \<Rightarrow> (sem_op, fsem, fsem_pc) sys \<Rightarrow> bool" where
  "fsem_live_inv P s \<longleftrightarrow> fsem_inv s \<and> platform_ok P \<and> wakes_up_to P (length (threads s))
     \<and> length (threads s) < u32_mod \<and> waiters (shared s) = inside slow_section (threads s)"

lemma fsem_live_inv_exec:
  "fsem_live_inv P s \<Longrightarrow> exec (fsem_machine checks P flaky) l s = Some t \<Longrightarrow> fsem_live_inv P t"
  using fsem_inv_exec fsem_count.exec_counter unfolding fsem_live_inv_def by metis

lemma fsem_sleeping_section:
  "sleeping (fsem_machine checks P flaky) () ts \<le> inside slow_section ts"
  unfolding sleeping_def inside_def by (rule weight_mono) (auto simp: fsem_dozing_def)

lemma fsem_need_step:
  assumes "fsem_advance checks P flaky i t q p = Some (q', p', nt)" and "fsem_shared_ok q" and "platform_ok P"
    and "wakes_up_to P m" and "0 < waiters q" and "fsem_dozing p' = None"
    and "nt \<noteq> WakeAll ()" and "woken_by () nt < m" and "permits q' \<noteq> 0"
  shows "permits q' + fsem_token p \<le> permits q + fsem_token p' + woken_by () nt"
proof -
  have "nt \<noteq> fw_wake_all P ()"
    using platform_wake_all [OF assms(4), of "()"] assms(7,8) by auto
  with assms show ?thesis
    by (cases p) (auto simp: fsem_defs platform_wake_one wrap_add_def split: if_splits nat.splits)
qed

interpretation fsem_wake: wakeups "fsem_machine checks P flaky" "fsem_live_inv P" "()" 1 fsem_token permits
  for checks P flaky
proof
  fix p p' and s :: "(sem_op, fsem, fsem_pc) sys" and i q' nt
  let ?M = "fsem_machine checks P flaky"
  show "resting ?M p \<Longrightarrow> fsem_token p = 0" by (cases p) auto
  show "dozing ?M p = Some () \<Longrightarrow> fsem_token (rouse ?M p) = fsem_token p + 1"
    by (auto simp: fsem_dozing_def fsem_rouse_def split: if_splits)
  show "dozing ?M p \<noteq> None \<Longrightarrow> dozing ?M p \<noteq> Some () \<Longrightarrow> fsem_token (rouse ?M p) = fsem_token p"
    by simp
  assume inv: "fsem_live_inv P s" and i: "i < length (threads s)"
    and adv: "advance ?M i (now s) (shared s) (pc (threads s ! i)) = Some (q', p', nt)"
  { assume "sleeping ?M () (threads s) > 0" and "dozing ?M p' \<noteq> Some ()" and "nt \<noteq> WakeAll ()"
      and "woken_by () nt < sleeping ?M () (threads s)" and "permits q' \<noteq> 0"
    moreover have "sleeping ?M () (threads s) \<le> inside slow_section (threads s)"
      by (rule fsem_sleeping_section)
    moreover have "inside slow_section (threads s) \<le> length (threads s)" by (rule inside_le)
    moreover have "fsem_dozing p' = None"
      using \<open>dozing ?M p' \<noteq> Some ()\<close> by (cases "fsem_dozing p'") auto
    ultimately show "permits q' + fsem_token (pc (threads s ! i))
        \<le> permits (shared s) + fsem_token p' + 1 * woken_by () nt"
      using fsem_need_step [of checks P flaky i "now s" "shared s" "pc (threads s ! i)" q' p' nt
          "length (threads s)"] adv inv
      by (auto simp: fsem_live_inv_def fsem_inv_def) }
  assume "dozing ?M p' = Some ()"
  then have "permits q' = 0"
    using adv by (cases "pc (threads s ! i)") (auto simp: fsem_defs split: if_splits nat.splits)
  then show "permits q' \<le> weight fsem_token ((threads s)[i := (threads s ! i)\<lparr>pc := p'\<rparr>])" by simp
qed

lemma fsem_covered_run:
  assumes "fsem_new c = Some q" and "run (fsem_machine checks P flaky) ls (fsem_start q n) = Some s"
    and "platform_ok P" and "wakes_up_to P n" and "n < u32_mod"
  shows "covered (fsem_machine checks P flaky) () fsem_token permits s"
proof -
  let ?M = "fsem_machine checks P flaky"
  let ?I = "\<lambda>s. fsem_live_inv P s \<and> covered ?M () fsem_token permits s"
  have "waiters q = 0" using assms(1) by (auto simp: fsem_new_def split: if_splits)
  then have "?I (fsem_start q n)"
    using fsem_inv_start [OF assms(1) refl, of n] assms(3-5)
    by (simp add: fsem_live_inv_def covered_def fsem_start_def inside_def sleeping_def fsem_dozing_def)
  moreover have "?I s \<Longrightarrow> exec ?M l s = Some t \<Longrightarrow> ?I t" for s t l
    using fsem_live_inv_exec fsem_wake.exec_covered by blast
  ultimately show ?thesis using run_invariant [of ?I ?M ls "fsem_start q n" s] assms(2) by blast
qed

text \<open>An awake thread inside a call can always act: there is no lock to wait for.\<close>

lemma fsem_advance_enabled:
  assumes "\<not> fsem_resting p" and "p \<noteq> SlowAsleep" and "\<And>n. p \<noteq> FPanicked n"
  shows "fsem_advance checks P flaky i t q p \<noteq> None"
  using assms by (cases p) (auto simp: fsem_defs split: nat.splits)

end
