(* ===== verification/FutexSemProps.thy ===== *)
theory FutexSemProps
  imports FutexSemInv
begin

text \<open>
  The properties of the futex semaphore and of the futex layers, over arbitrary schedules of
  \<open>n\<close> threads around a semaphore made with \<open>c\<close> permits, on any platform and whatever the
  weak compare-exchanges do.
\<close>

section \<open>Schedules for the witnesses\<close>

lemmas fsem_eval = acts_def fsem_start_def boot_def fsem_defs sleepers_def rouse_all_def
  replicate_numeral upt_rec release_assert_def MAX_PERMITS_def wrap_add_def wrap_sub_def u32_mod_def
  mswin_wake_all_def mswin_wake_one_def

abbreviation steady :: "tid \<Rightarrow> nat \<Rightarrow> bool" where
  "steady \<equiv> \<lambda>_ _. False"

text \<open>Threads 0 and 1 sleep in \<open>acquire\<close>; thread 2 releases two permits and wakes them.\<close>

definition two_asleep :: "sem_op label list" where
  "two_asleep = Call 0 OpAcquire # acts 0 5 @ Call 1 OpAcquire # acts 1 5"

definition both_served :: "sem_op label list" where
  "both_served = two_asleep @ Call 2 (OpRelease 2) # acts 2 3 @ acts 0 3 @ acts 1 3"

lemma both_served_run:
  "\<exists>s. run (fsem_machine True Windows steady) both_served (fsem_start \<lparr>permits = 0, waiters = 0\<rparr> 3) = Some s
    \<and> map pc (threads s) = [FDone AcquireRes, FDone AcquireRes, FDone ReleaseRes]
    \<and> permits (shared s) = 0"
  by (simp add: fsem_eval both_served_def two_asleep_def)

lemma two_asleep_run:
  "\<exists>s. run (fsem_machine True Windows steady) two_asleep (fsem_start \<lparr>permits = 0, waiters = 0\<rparr> 3) = Some s
    \<and> map pc (threads s) = [SlowAsleep, SlowAsleep, FIdle]"
  by (simp add: fsem_eval two_asleep_def)

lemma fsem_new_zero: "fsem_new 0 = Some \<lparr>permits = 0, waiters = 0\<rparr>"
  by (simp add: fsem_new_def fw_new_def)

section \<open>Linearizability and conservation of permits\<close>

text \<open>
  C14. The futex semaphore is linearizable. In any run, the linearization points, in order, are
  a run of the sequential semaphore from the initial number of permits to the current one,
  and a call returns the result it was linearized with.
\<close>

theorem fsem_linearizable:
  assumes "fsem_new c = Some q" and "run (fsem_machine checks P flaky) ls (fsem_start q n) = Some s"
  defines "h \<equiv> history (fsem_machine checks P flaky) fsem_decided ls (fsem_start q n)"
  shows "replay (sem_spec (release_add checks)) h c = Some (permits (shared s))
    \<and> (\<forall>i < n. thread_phase i h (None, None)
        = Some (cur (threads s ! i), fsem_decided (shared s) (pc (threads s ! i))))"
proof -
  have inv: "fsem_inv (fsem_start q n)" using fsem_inv_start [OF assms(1) refl] .
  have "permits (shared (fsem_start q n)) = c"
    using assms(1) by (auto simp: fsem_start_def fsem_new_def fw_new_def split: if_splits)
  with fsem_lin.replay_run [OF inv assms(2)]
  have "replay (sem_spec (release_add checks)) h c = Some (permits (shared s))" by (simp add: h_def)
  moreover have "thread_phase i h (None, None)
      = Some (cur (threads s ! i), fsem_decided (shared s) (pc (threads s ! i)))" if "i < n" for i
    using fsem_lin.phase_run [OF inv assms(2), of i] that by (simp add: h_def fsem_start_def)
  ultimately show ?thesis by blast
qed

theorem fsem_linearizable_witness:
  "\<exists>s. run (fsem_machine True Windows steady) both_served (fsem_start \<lparr>permits = 0, waiters = 0\<rparr> 3) = Some s
    \<and> replay (sem_spec (release_add True))
        (history (fsem_machine True Windows steady) fsem_decided both_served
          (fsem_start \<lparr>permits = 0, waiters = 0\<rparr> 3)) 0 = Some 0"
  using both_served_run fsem_linearizable [OF fsem_new_zero, of True Windows steady both_served 3] by auto

text \<open>
  C15. Permits are conserved. The permits handed out and those on offer are never more than
  the initial ones and the released ones; and while these do not exceed \<open>MAX_PERMITS\<close>, they
  are exactly as many, and no release panics.
\<close>

theorem fsem_permits_conserved:
  assumes "fsem_new c = Some q" and "run (fsem_machine checks P flaky) ls (fsem_start q n) = Some s"
  defines "h \<equiv> history (fsem_machine checks P flaky) fsem_decided ls (fsem_start q n)"
  shows "granted h + permits (shared s) \<le> c + deposited h
    \<and> (c + deposited h \<le> MAX_PERMITS \<longrightarrow>
        granted h + permits (shared s) = c + deposited h
        \<and> (\<forall>i < n. \<forall>k. pc (threads s ! i) \<noteq> FPanicked k))"
proof -
  have inv: "fsem_inv (fsem_start q n)" using fsem_inv_start [OF assms(1) refl] .
  have "permits (shared (fsem_start q n)) = c"
    using assms(1) by (auto simp: fsem_start_def fsem_new_def fw_new_def split: if_splits)
  with fsem_lin.replay_run [OF inv assms(2)]
  have rep: "replay (sem_spec (release_add checks)) h c = Some (permits (shared s))" by (simp add: h_def)
  have "pc (threads s ! i) \<noteq> FPanicked k" if "i < n" "c + deposited h \<le> MAX_PERMITS" for i k
  proof
    assume "pc (threads s ! i) = FPanicked k"
    then have "thread_phase i h (None, None) = Some (cur (threads s ! i), Some (ReleasePanic k))"
      using fsem_lin.phase_run [OF inv assms(2), of i] that(1) by (simp add: h_def fsem_start_def)
    then show False
      using thread_phase_result release_law.replay_no_panic [OF rep that(2)] by fastforce
  qed
  with release_law.replay_conserves [OF rep] show ?thesis by blast
qed

theorem fsem_permits_conserved_witness:
  "\<exists>s. run (fsem_machine True Windows steady) both_served (fsem_start \<lparr>permits = 0, waiters = 0\<rparr> 3) = Some s
    \<and> granted (history (fsem_machine True Windows steady) fsem_decided both_served
          (fsem_start \<lparr>permits = 0, waiters = 0\<rparr> 3)) + permits (shared s)
      \<le> 0 + deposited (history (fsem_machine True Windows steady) fsem_decided both_served
          (fsem_start \<lparr>permits = 0, waiters = 0\<rparr> 3))"
  using both_served_run fsem_permits_conserved [OF fsem_new_zero, of True Windows steady both_served 3] by blast

section \<open>Progress\<close>

text \<open>
  C16. No wake-up is lost, on a platform whose \<open>wake_all\<close> reaches all threads: when no thread
  can act, a thread asleep in \<open>acquire\<close> finds at most the permits of releases that
  panicked, so none at all when none did; and every other thread is outside or panicked.
\<close>

theorem fsem_no_lost_wakeup:
  assumes "fsem_new c = Some q" and "run (fsem_machine checks P flaky) ls (fsem_start q n) = Some s"
    and "platform_ok P" and "wakes_up_to P n" and "n < u32_mod"
    and stuck: "\<And>i ks. exec (fsem_machine checks P flaky) (Run i ks) s = None" and i: "i < n"
  shows "fsem_resting (pc (threads s ! i)) \<or> (\<exists>k. pc (threads s ! i) = FPanicked k)
    \<or> (pc (threads s ! i) = SlowAsleep
        \<and> permits (shared s) \<le> weight (\<lambda>p. case p of FPanicked k \<Rightarrow> k | _ \<Rightarrow> 0) (threads s))"
proof -
  let ?M = "fsem_machine checks P flaky" and ?lost = "\<lambda>p. case p of FPanicked k \<Rightarrow> k | _ \<Rightarrow> 0"
  have len: "length (threads s) = n" using run_length [OF assms(2)] by (simp add: fsem_start_def)
  have quiet: "fsem_resting p \<or> (\<exists>k. p = FPanicked k) \<or> p = SlowAsleep"
    if "j < n" "p = pc (threads s ! j)" for j p
    using stuck_blocked [of ?M s j, OF stuck] fsem_advance_enabled [of p checks P flaky j "now s" "shared s"]
      that len by auto
  have "fsem_token (pc (threads s ! j)) = ?lost (pc (threads s ! j))" if "j < n" for j
    using quiet [OF that refl] by (auto elim!: fsem_resting.elims)
  then have "weight fsem_token (threads s) = weight ?lost (threads s)"
    unfolding weight_def using len by (intro tally_cong_nth) auto
  moreover have "sleeping ?M () (threads s) > 0" if "pc (threads s ! i) = SlowAsleep"
    unfolding sleeping_def weight_pos_iff using that i len by (auto simp: fsem_dozing_def)
  ultimately show ?thesis
    using quiet [OF i refl] fsem_covered_run [OF assms(1-5)] by (auto simp: covered_def)
qed

theorem fsem_no_lost_wakeup_witness:
  "\<exists>s. run (fsem_machine True Windows steady) two_asleep (fsem_start \<lparr>permits = 0, waiters = 0\<rparr> 3) = Some s
    \<and> pc (threads s ! 1) = SlowAsleep \<and> permits (shared s) = 0"
proof -
  let ?M = "fsem_machine True Windows steady"
  obtain s where s: "run ?M two_asleep (fsem_start \<lparr>permits = 0, waiters = 0\<rparr> 3) = Some s"
    "map pc (threads s) = [SlowAsleep, SlowAsleep, FIdle]"
    using two_asleep_run by (elim exE conjE)
  from arg_cong [OF s(2), of length] pcs_nth [OF s(2), of 0] pcs_nth [OF s(2), of 1] pcs_nth [OF s(2), of 2]
  have pcs: "length (threads s) = 3" "pc (threads s ! 0) = SlowAsleep"
    "pc (threads s ! 1) = SlowAsleep" "pc (threads s ! 2) = FIdle" by simp_all
  have "exec ?M (Run i ks) s = None" for i ks
    by (rule blocked_stuck) (simp only: s(2), simp)
  moreover have "weight (\<lambda>p. case p of FPanicked k \<Rightarrow> k | _ \<Rightarrow> 0) (threads s) = 0"
    using pcs by (intro weight_zero) (auto simp: less_Suc_eq numeral_3_eq_3 numeral_2_eq_2)
  ultimately have "permits (shared s) = 0"
    using fsem_no_lost_wakeup [OF fsem_new_zero s(1), of 1] pcs(3) by (simp add: u32_mod_def)
  with s(1) pcs(3) show ?thesis by blast
qed

text \<open>
  \<open>acquire\<close> does not spin on a permit: from any reachable point inside an \<open>acquire\<close>, if a
  permit is on offer and no weak compare-exchange fails spuriously, the thread running alone
  returns with it after at most four actions.
\<close>

lemma fsem_acquire_progress:
  assumes "fsem_new c = Some q" and "run (fsem_machine checks P flaky) ls (fsem_start q n) = Some s"
    and "i < n" and "cur (threads s ! i) = Some OpAcquire" and "\<not> fsem_resting (pc (threads s ! i))"
    and "pc (threads s ! i) \<noteq> SlowAsleep" and "\<not> flaky i (now s)" and "0 < permits (shared s)"
  shows "\<exists>k t. k \<le> 4 \<and> run (fsem_machine checks P flaky) (acts i k) s = Some t
    \<and> pc (threads t ! i) = FDone AcquireRes"
proof -
  let ?M = "fsem_machine checks P flaky" and ?p = "pc (threads s ! i)"
  have len: "length (threads s) = n" using run_length [OF assms(2)] by (simp add: fsem_start_def)
  have inv: "fsem_inv s" using fsem_inv_run [OF fsem_inv_start [OF assms(1) refl] assms(2)] .
  have "?p \<noteq> FIdle" using assms(5) by auto
  with inv assms(3,4) len have "fsem_of OpAcquire ?p" by (elim fsem_at) auto
  then have "\<exists>k \<in> {1, 2, 3, 4}. \<exists>q'. solo ?M i (now s) k (shared s) ?p = Some (q', FDone AcquireRes)"
    using assms(5-8) by (cases ?p) (auto simp: fsem_defs numeral_eq_Suc)
  then obtain k q' where k: "k \<in> {1, 2, 3, 4}" "solo ?M i (now s) k (shared s) ?p = Some (q', FDone AcquireRes)"
    by blast
  then have "k \<le> 4" by auto
  with solo_run [OF _ k(2)] assms(3) len show ?thesis by (intro exI [of _ k]) simp
qed

section \<open>What goes wrong\<close>

definition stranding :: "sem_op label list" where
  "stranding = two_asleep @ Call 2 (OpRelease 2) # acts 2 2 @ Run 2 [0] # acts 0 3"

lemma linux_wake_all_one:
  assumes "kernel_contract krn" and "unat a mod 2 ^ 32 = 0 \<or> 2 ^ 31 \<le> unat a mod 2 ^ 32"
  shows "fw_wake_all (Linux a krn) cv = Wake 1 cv"
proof -
  let ?v = "ucast a :: 32 word"
  have u: "unat ?v = unat a mod 2 ^ 32" by (rule unat_low_word)
  then have "unat ?v < 2 ^ 32" by simp
  with assms(2) u have "sint ?v \<le> 0" unfolding sint_pattern by (auto simp del: u)
  with assms(1) show ?thesis by (simp add: kernel_contract_def linux_wake_all_def sys_futex_wake_def)
qed

lemma stranding_run:
  assumes "\<And>cv :: unit. fw_wake_all P cv = Wake 1 cv"
  shows "\<exists>s. run (fsem_machine checks P steady) stranding (fsem_start \<lparr>permits = 0, waiters = 0\<rparr> 3) = Some s
    \<and> map pc (threads s) = [FDone AcquireRes, SlowAsleep, FDone ReleaseRes] \<and> permits (shared s) = 1"
  by (simp add: fsem_eval stranding_def two_asleep_def assms)

text \<open>
  C17. \<open>wake_all\<close> on Linux casts the address of the function \<open>i32::max\<close> instead of the
  constant \<open>i32::MAX\<close>. When the low 32 bits of that address are not a positive \<open>i32\<close>, it
  wakes one thread: two threads sleep in \<open>acquire\<close>, a release of two permits wakes only the
  first, and the second sleeps on with a permit on offer and nobody left to wake it.
\<close>

theorem fsem_linux_wake_all_strands:
  fixes checks :: bool
  assumes "kernel_contract krn" and "unat a mod 2 ^ 32 = 0 \<or> 2 ^ 31 \<le> unat a mod 2 ^ 32"
  defines "M \<equiv> fsem_machine checks (Linux a krn) steady"
  shows "\<exists>s. run M stranding (fsem_start \<lparr>permits = 0, waiters = 0\<rparr> 3) = Some s
    \<and> map pc (threads s) = [FDone AcquireRes, SlowAsleep, FDone ReleaseRes] \<and> permits (shared s) = 1
    \<and> (\<forall>i ks. exec M (Run i ks) s = None)"
proof -
  obtain s where s: "run M stranding (fsem_start \<lparr>permits = 0, waiters = 0\<rparr> 3) = Some s"
    "map pc (threads s) = [FDone AcquireRes, SlowAsleep, FDone ReleaseRes]" "permits (shared s) = 1"
    using stranding_run [OF linux_wake_all_one [OF assms(1,2)], of checks] unfolding M_def
    by (elim exE conjE)
  have "exec M (Run i ks) s = None" for i ks
    by (rule blocked_stuck) (simp only: s(2) M_def, simp)
  with s show ?thesis by (intro exI [of _ s] conjI allI)
qed

theorem fsem_linux_wake_all_strands_witness:
  "\<exists>s. run (fsem_machine False (Linux 0x00005581F0A01230 (\<lambda>n. if n > 0 then nat n else 1)) steady) stranding
      (fsem_start \<lparr>permits = 0, waiters = 0\<rparr> 3) = Some s \<and> pc (threads s ! 1) = SlowAsleep"
proof -
  let ?krn = "\<lambda>n :: int. if n > 0 then nat n else 1"
  have krn: "kernel_contract ?krn" by (simp add: kernel_contract_def)
  have low: "unat (0x00005581F0A01230 :: 64 word) mod 2 ^ 32 = 0
      \<or> 2 ^ 31 \<le> unat (0x00005581F0A01230 :: 64 word) mod 2 ^ 32" by simp
  obtain s where
    "run (fsem_machine False (Linux 0x00005581F0A01230 ?krn) steady) stranding
        (fsem_start \<lparr>permits = 0, waiters = 0\<rparr> 3) = Some s"
    "map pc (threads s) = [FDone AcquireRes, SlowAsleep, FDone ReleaseRes]"
    using fsem_linux_wake_all_strands [OF krn low, of False] by (elim exE conjE)
  with pcs_nth [OF this(2), of 1] show ?thesis by auto
qed

text \<open>
  A release adds its permits whether it then panics or not, so as long as the word cannot wrap
  around, none is missing: not even those of releases that panicked.
\<close>

lemma release_added: "p + k < u32_mod \<Longrightarrow> fst (release_add checks p k) = p + k"
  by (simp add: release_add_def fw_fetch_add_def wrap_add_def)

lemma replay_full:
  assumes "replay (sem_spec (release_add checks)) es p = Some p'" and "p + deposited es < u32_mod"
  shows "granted es + p' = p + deposited es"
  using assms
proof (induction es arbitrary: p)
  case (Cons e es)
  show ?case
  proof (cases e)
    case (EvLin i op r)
    with Cons.prems obtain m where m: "sem_spec (release_add checks) op r p = Some m"
      "replay (sem_spec (release_add checks)) es m = Some p'"
      by (auto split: option.splits)
    have "granted [e] + m = p + deposited [e]"
      using m(1) Cons.prems(2) EvLin by (cases op) (auto simp: release_added split: if_splits)
    with Cons.IH [OF m(2)] Cons.prems(2) show ?thesis
      unfolding release_law.granted_Cons [of e es] release_law.deposited_Cons [of e es] by simp
  qed (use Cons in simp)
qed simp

text \<open>One release in a replayed history: what it adds, and when its assertion fails.\<close>

lemma replay_release:
  assumes "replay (sem_spec (release_add checks)) (es @ EvLin i (OpRelease k) r # fs) p = Some p'"
    and "0 < k" and "k < u32_mod"
  obtains m where "replay (sem_spec (release_add checks)) es p = Some m"
    "replay (sem_spec (release_add checks)) (es @ [EvLin i (OpRelease k) r]) p = Some ((m + k) mod u32_mod)"
    "r = ReleasePanic k \<longleftrightarrow> (if k \<le> MAX_PERMITS then MAX_PERMITS < m + k else checks \<or> u32_mod + MAX_PERMITS < m + k)"
proof -
  obtain m where m: "replay (sem_spec (release_add checks)) es p = Some m"
    and r: "r = snd (release_add checks m k)"
    using assms(1) by (auto simp: replay_append split: option.splits if_splits)
  have "wrap_sub u32_mod MAX_PERMITS k = u32_mod + MAX_PERMITS - k" if "MAX_PERMITS < k"
    using that assms(3) by (simp add: wrap_sub_def MAX_PERMITS_def u32_mod_def)
  then have "r = ReleasePanic k \<longleftrightarrow> (if k \<le> MAX_PERMITS then MAX_PERMITS < m + k else checks \<or> u32_mod + MAX_PERMITS < m + k)"
    using assms(2,3) unfolding r release_add_def fw_fetch_add_def release_assert_def by auto
  moreover have "fst (release_add checks m k) = (m + k) mod u32_mod"
    using assms(2) by (simp add: release_add_def fw_fetch_add_def wrap_add_def)
  ultimately show thesis using that m r by (simp add: replay_append)
qed

lemma replay_panic_op:
  assumes "replay (sem_spec (release_add checks)) es p = Some p'" and "EvLin i op (ReleasePanic k) \<in> set es"
  shows "op = OpRelease k"
  using assms
proof (induction es arbitrary: p)
  case (Cons e es)
  show ?case
  proof (cases "e = EvLin i op (ReleasePanic k)")
    case True
    with Cons.prems(1) show ?thesis
      by (cases op) (auto simp: release_add_def fw_fetch_add_def split: option.splits if_splits)
  next
    case False
    with Cons show ?thesis by (cases e) (auto split: option.splits)
  qed
qed simp

text \<open>
  C18. An overflowing release is noticed too late or not at all. The assertion runs after
  \<open>fetch_add\<close>: every release, whatever it reports, has put its permits on offer, and while the
  initial permits and all released ones are fewer than \<open>2 ^ 32\<close>, those handed out and on offer are
  all of them, those of releases that panicked included. A release of at most \<open>MAX_PERMITS\<close> panics
  exactly when the sum exceeds the maximum. A larger one always does in a build with overflow
  checks; in one without, only when the sum exceeds the maximum by more than \<open>2 ^ 32\<close>, and otherwise
  it passes, with more than the maximum on offer or with permits lost to the wrap-around. A thread
  that panicked did so in such a release.
\<close>

theorem fsem_overflow_late:
  assumes "fsem_new c = Some q" and "run (fsem_machine checks P flaky) ls (fsem_start q n) = Some s"
  defines "h \<equiv> history (fsem_machine checks P flaky) fsem_decided ls (fsem_start q n)"
    and "S \<equiv> sem_spec (release_add checks)"
  shows "(c + deposited h < u32_mod \<longrightarrow> granted h + permits (shared s) = c + deposited h)
    \<and> (\<forall>es i k r fs. h = es @ EvLin i (OpRelease k) r # fs \<longrightarrow> 0 < k \<longrightarrow> k < u32_mod \<longrightarrow>
        (\<exists>m. replay S es c = Some m
          \<and> replay S (es @ [EvLin i (OpRelease k) r]) c = Some ((m + k) mod u32_mod)
          \<and> (r = ReleasePanic k \<longleftrightarrow>
              (if k \<le> MAX_PERMITS then MAX_PERMITS < m + k else checks \<or> u32_mod + MAX_PERMITS < m + k))))
    \<and> (\<forall>i < n. \<forall>k. pc (threads s ! i) = FPanicked k \<longrightarrow> EvLin i (OpRelease k) (ReleasePanic k) \<in> set h)"
proof -
  have inv: "fsem_inv (fsem_start q n)" using fsem_inv_start [OF assms(1) refl] .
  have "permits (shared (fsem_start q n)) = c"
    using assms(1) by (auto simp: fsem_start_def fsem_new_def fw_new_def split: if_splits)
  with fsem_lin.replay_run [OF inv assms(2)]
  have rep: "replay S h c = Some (permits (shared s))" by (simp add: h_def S_def)
  have "EvLin i (OpRelease k) (ReleasePanic k) \<in> set h" if "i < n" "pc (threads s ! i) = FPanicked k" for i k
  proof -
    have "thread_phase i h (None, None) = Some (cur (threads s ! i), Some (ReleasePanic k))"
      using fsem_lin.phase_run [OF inv assms(2), of i] that by (simp add: h_def fsem_start_def)
    then obtain op where "EvLin i op (ReleasePanic k) \<in> set h" using thread_phase_result by fastforce
    with replay_panic_op [OF rep [unfolded S_def]] show ?thesis by blast
  qed
  moreover have "\<exists>m. replay S es c = Some m
      \<and> replay S (es @ [EvLin i (OpRelease k) r]) c = Some ((m + k) mod u32_mod)
      \<and> (r = ReleasePanic k \<longleftrightarrow>
          (if k \<le> MAX_PERMITS then MAX_PERMITS < m + k else checks \<or> u32_mod + MAX_PERMITS < m + k))"
    if "h = es @ EvLin i (OpRelease k) r # fs" "0 < k" "k < u32_mod" for es i k r fs
    using replay_release [OF _ that(2,3), of checks es i r fs c "permits (shared s)"] rep that(1)
    unfolding S_def by blast
  ultimately show ?thesis using replay_full [OF rep [unfolded S_def]] by blast
qed

text \<open>
  A release of one permit at the maximum panics, and its permit is there to be read; a release of
  more than the maximum, without overflow checks, returns.
\<close>

definition panicking :: "sem_op label list" where
  "panicking = Call 0 (OpRelease 1) # acts 0 1 @ Call 1 OpAvailable # acts 1 1"

definition oversized :: "sem_op label list" where
  "oversized = Call 0 (OpRelease (MAX_PERMITS + 1)) # acts 0 2"

theorem fsem_overflow_late_witness:
  "\<exists>s t. run (fsem_machine True Windows steady) panicking (fsem_start \<lparr>permits = MAX_PERMITS, waiters = 0\<rparr> 2) = Some s
    \<and> pc (threads s ! 0) = FPanicked 1 \<and> pc (threads s ! 1) = FDone (AvailableRes (MAX_PERMITS + 1))
    \<and> EvLin 0 (OpRelease 1) (ReleasePanic 1) \<in> set (history (fsem_machine True Windows steady) fsem_decided panicking
        (fsem_start \<lparr>permits = MAX_PERMITS, waiters = 0\<rparr> 2))
    \<and> permits (shared s) = MAX_PERMITS + 1
    \<and> run (fsem_machine False Windows steady) oversized (fsem_start \<lparr>permits = 0, waiters = 0\<rparr> 1) = Some t
    \<and> pc (threads t ! 0) = FDone ReleaseRes \<and> permits (shared t) = MAX_PERMITS + 1"
proof -
  let ?M = "\<lambda>checks. fsem_machine checks Windows steady"
  let ?a = "fsem_start \<lparr>permits = MAX_PERMITS, waiters = 0\<rparr> 2" and ?b = "fsem_start \<lparr>permits = 0, waiters = 0\<rparr> 1"
  have new: "fsem_new MAX_PERMITS = Some \<lparr>permits = MAX_PERMITS, waiters = 0\<rparr>" by (simp add: fsem_new_def fw_new_def)
  obtain s where s: "run (?M True) panicking ?a = Some s" "pc (threads s ! 0) = FPanicked 1"
    "pc (threads s ! 1) = FDone (AvailableRes (MAX_PERMITS + 1))"
    "deposited (history (?M True) fsem_decided panicking ?a) = 1"
    "granted (history (?M True) fsem_decided panicking ?a) = 0"
    by (simp add: fsem_eval panicking_def lin_event_def)
  obtain t where t: "run (?M False) oversized ?b = Some t" "pc (threads t ! 0) = FDone ReleaseRes"
    "deposited (history (?M False) fsem_decided oversized ?b) = MAX_PERMITS + 1"
    "granted (history (?M False) fsem_decided oversized ?b) = 0"
    by (simp add: fsem_eval oversized_def lin_event_def)
  have small: "MAX_PERMITS + 1 < u32_mod" by (simp add: MAX_PERMITS_def u32_mod_def)
  have "EvLin 0 (OpRelease 1) (ReleasePanic 1) \<in> set (history (?M True) fsem_decided panicking ?a)
      \<and> permits (shared s) = MAX_PERMITS + 1"
    using fsem_overflow_late [OF new s(1)] s(2,4,5) small by simp
  moreover have "permits (shared t) = MAX_PERMITS + 1"
    using fsem_overflow_late [OF fsem_new_zero t(1)] t(3,4) small by simp
  ultimately show ?thesis using s t by blast
qed

section \<open>Timeouts\<close>

text \<open>
  C19. A timed wait sleeps exactly on the expected value, and both platforms pass on a duration
  that is in range and never shorter than asked, up to the largest they can express: on Linux
  a valid non-negative \<open>timespec\<close>, exact up to \<open>i64::MAX\<close> seconds; on Windows whole
  milliseconds, at least one, less than a millisecond more than asked, and never \<open>INFINITE\<close>.
\<close>

theorem futex_timeouts:
  assumes "duration_ok d"
  defines "ts \<equiv> linux_timespec d" and "ms \<equiv> mswin_millis d"
  shows "fw_wait_timeout (Linux a krn) expected d w = (if w = expected then Some (Relative ts) else None)
    \<and> fw_wait_timeout Windows expected d w = (if w = expected then Some (Millis ms) else None)
    \<and> 0 \<le> sint (tv_sec ts) \<and> unat (tv_nsec ts) < 10 ^ 9
    \<and> (secs d \<le> time_t_max \<longrightarrow> unat (tv_sec ts) * 10 ^ 9 + unat (tv_nsec ts) = as_nanos d)
    \<and> 1 \<le> ms \<and> (ms < INFINITE - 1 \<longrightarrow> as_nanos d \<le> ms * 10 ^ 6)
    \<and> (0 < as_nanos d \<longrightarrow> ms * 10 ^ 6 < as_nanos d + 10 ^ 6)"
proof -
  let ?m = "min (secs d) time_t_max"
  have "?m < 2 ^ 63" by (auto simp: time_t_max_def min_def)
  then have sec: "sint (tv_sec ts) = int ?m" "unat (tv_sec ts) = ?m"
    by (simp_all add: ts_def linux_timespec_def signed_of_nat unsigned_of_nat signed_take_bit_int_eq_self
        take_bit_nat_eq_self)
  have nsec: "unat (tv_nsec ts) = nanos d" and "nanos d < 10 ^ 9"
    using assms(1) by (simp_all add: duration_ok_def ts_def linux_timespec_def unsigned_of_nat take_bit_nat_eq_self)
  have win: "ms = clamp 1 (INFINITE - 1) (div_ceil (as_nanos d) 1000000)"
    by (simp add: ms_def mswin_millis_def clamp_def INFINITE_def u32_mod_def)
  have div: "as_nanos d \<le> div_ceil (as_nanos d) 1000000 * 10 ^ 6
      \<and> div_ceil (as_nanos d) 1000000 * 10 ^ 6 < as_nanos d + 10 ^ 6"
    using div_ceil_mult [of 1000000 "as_nanos d"] by simp
  have "1 \<le> clamp 1 (INFINITE - 1) x" "clamp 1 (INFINITE - 1) x < INFINITE"
    "clamp 1 (INFINITE - 1) x < INFINITE - 1 \<Longrightarrow> x \<le> clamp 1 (INFINITE - 1) x"
    "0 < x \<Longrightarrow> clamp 1 (INFINITE - 1) x \<le> x" for x
    by (auto simp: clamp_def INFINITE_def)
  note cl = this [of "div_ceil (as_nanos d) 1000000"]
  have "0 < as_nanos d \<Longrightarrow> 0 < div_ceil (as_nanos d) 1000000" using div by (intro gr0I) simp
  moreover have "mswin_millis d \<noteq> INFINITE" using cl(2) win by (simp add: ms_def)
  then have "fw_wait_timeout (Linux a krn) expected d w = (if w = expected then Some (Relative ts) else None)"
    "fw_wait_timeout Windows expected d w = (if w = expected then Some (Millis ms) else None)"
    by (simp_all add: linux_wait_timeout_def sys_futex_wait_def ts_def mswin_wait_timeout_def
        mswin_wait_ms_def ms_def)
  ultimately show ?thesis
    using sec nsec \<open>nanos d < 10 ^ 9\<close> cl div unfolding win as_nanos_def by (auto simp: min_def)
qed

theorem futex_timeouts_witness:
  "fw_wait_timeout Windows 0 \<lparr>secs = 1, nanos = 1\<rparr> 0 = Some (Millis 1001)
    \<and> as_nanos \<lparr>secs = 1, nanos = 1\<rparr> \<le> 1001 * 10 ^ 6"
proof -
  have "mswin_millis \<lparr>secs = 1, nanos = 1\<rparr> = 1001"
    by (simp add: mswin_millis_def as_nanos_def div_ceil_def clamp_def INFINITE_def u32_mod_def)
  with futex_timeouts [of "\<lparr>secs = 1, nanos = 1\<rparr>" 0 nat 0 0] show ?thesis
    by (simp add: duration_ok_def INFINITE_def)
qed

end
