(* ===== verification/CondvarSem.thy ===== *)
theory CondvarSem
  imports Semaphores
begin

text \<open>
  The condition-variable semaphore
  (\<open>crates/hio-concurrent/src/semaphore/condvar_semaphore.rs\<close>). \<open>csem\<close> is the struct, with
  the owner of the mutex \<open>lock\<close>; the permits and the waiter count are atomics that are read
  and written without it. One equation per atomic action; \<open>flaky i t\<close> says whether a weak
  compare-exchange of thread \<open>i\<close> at time \<open>t\<close> fails spuriously, \<open>horizon\<close> is the largest
  representable \<open>Instant\<close>. A poisoned mutex is taken all the same (\<open>into_inner\<close>), so
  poisoning does not appear.
\<close>

section \<open>State and program points\<close>

record csem =
  permits :: nat
  waiters :: nat
  lock :: "tid option"

definition SPIN_LIMIT :: nat where
  "SPIN_LIMIT = 40"

definition csem_new :: "nat \<Rightarrow> csem" where
  "csem_new n = \<lparr>permits = n, waiters = 0, lock = None\<rparr>"

text \<open>\<open>WaiterGuard::enter\<close> and its \<open>drop\<close>.\<close>

definition guard_enter :: "csem \<Rightarrow> csem" where
  "guard_enter q = q\<lparr>waiters := wrap_add u32_mod (waiters q) 1\<rparr>"

definition guard_drop :: "csem \<Rightarrow> csem" where
  "guard_drop q = q\<lparr>waiters := wrap_sub u32_mod (waiters q) 1\<rparr>"

text \<open>
  Who called \<open>try_get_permit\<close>: \<open>acquire\<close>, the loop of \<open>acquire_slow\<close> (with its spin count
  and deadline, holding the lock), or \<open>try_acquire\<close>.
\<close>

datatype caller = Fast | Slow nat "nat option" | Once

datatype csem_pc =
    CIdle
  | CDone sem_res
  | GetLoad caller
  | GetCas caller nat
  | SlowBegin "nat option" | SlowEnter "nat option" | SlowLock "nat option"
  | SlowClock nat "nat option" | SlowTest nat "nat option" | SlowSpin nat "nat option"
  | SlowWait "nat option" | SlowAsleep "nat option" | SlowWoken "nat option"
  | SlowUnlock "HioLastError + unit" | SlowLeave "HioLastError + unit"
  | RelLoad nat | RelCas nat nat | RelWaiters nat | RelLock nat | RelUnlock nat | RelNotify nat
  | AvailAt

definition csem_lock :: "tid \<Rightarrow> csem \<Rightarrow> csem_pc \<Rightarrow> (csem \<times> csem_pc \<times> unit notice) option" where
  "csem_lock i q p = (if lock q = None then Some (q\<lparr>lock := Some i\<rparr>, p, Quiet) else None)"

section \<open>Acquire\<close>

text \<open>Where \<open>try_get_permit\<close> returns to, with true and with false.\<close>

fun get_true :: "caller \<Rightarrow> csem_pc" where
  "get_true Fast = CDone AcquireRes"
| "get_true (Slow spins dl) = SlowUnlock (Inr ())"
| "get_true Once = CDone (TryAcquireRes (Inr ()))"

fun get_false :: "caller \<Rightarrow> csem_pc" where
  "get_false Fast = SlowBegin None"
| "get_false (Slow spins dl) = SlowClock spins dl"
| "get_false Once = CDone (TryAcquireRes (Inl Failed))"

definition get_loop :: "caller \<Rightarrow> nat \<Rightarrow> csem_pc" where
  "get_loop c current = (if current = 0 then get_false c else GetCas c current)"

definition try_get_permit_load :: "csem \<Rightarrow> caller \<Rightarrow> csem_pc" where
  "try_get_permit_load q c = get_loop c (permits q)"

definition try_get_permit_cas :: "bool \<Rightarrow> csem \<Rightarrow> caller \<Rightarrow> nat \<Rightarrow> csem \<times> csem_pc" where
  "try_get_permit_cas flk q c current =
     (if permits q = current \<and> \<not> flk then (q\<lparr>permits := current - 1\<rparr>, get_true c)
      else (q, get_loop c (permits q)))"

text \<open>\<open>Instant::now().checked_add(t)\<close>: a deadline that is not representable is none at all.\<close>

definition deadline :: "nat \<Rightarrow> nat \<Rightarrow> nat option \<Rightarrow> nat option" where
  "deadline horizon t timeout =
     (case timeout of None \<Rightarrow> None | Some d \<Rightarrow> if t + d \<le> horizon then Some (t + d) else None)"

text \<open>
  \<open>acquire_slow\<close>. The guards are dropped in reverse order: the mutex (\<open>SlowUnlock\<close>), then the
  waiter count (\<open>SlowLeave\<close>); \<open>acquire\<close> discards the result. \<open>SlowWait\<close> releases the
  mutex and sleeps in one action; the timeout of a timed wait is a spurious wake-up.
\<close>

fun cacquire_slow_step ::
    "nat \<Rightarrow> tid \<Rightarrow> nat \<Rightarrow> csem \<Rightarrow> csem_pc \<Rightarrow> (csem \<times> csem_pc \<times> unit notice) option" where
  "cacquire_slow_step horizon i t q (SlowBegin timeout) = Some (q, SlowEnter (deadline horizon t timeout), Quiet)"
| "cacquire_slow_step horizon i t q (SlowEnter dl) = Some (guard_enter q, SlowLock dl, Quiet)"
| "cacquire_slow_step horizon i t q (SlowLock dl) = csem_lock i q (GetLoad (Slow 0 dl))"
| "cacquire_slow_step horizon i t q (SlowClock spins dl) =
     Some (q, case dl of
         None \<Rightarrow> SlowTest spins dl
       | Some d \<Rightarrow> if t \<ge> d then SlowUnlock (Inl Timeout) else SlowTest spins dl, Quiet)"
| "cacquire_slow_step horizon i t q (SlowTest spins dl) =
     (if permits q \<noteq> 0
      then Some (q\<lparr>lock := None\<rparr>, SlowSpin (if spins < SPIN_LIMIT then spins + 1 else spins) dl, Quiet)
      else Some (q, SlowWait dl, Quiet))"
| "cacquire_slow_step horizon i t q (SlowSpin spins dl) = csem_lock i q (GetLoad (Slow spins dl))"
| "cacquire_slow_step horizon i t q (SlowWait dl) = Some (q\<lparr>lock := None\<rparr>, SlowAsleep dl, Quiet)"
| "cacquire_slow_step horizon i t q (SlowWoken dl) = csem_lock i q (GetLoad (Slow 0 dl))"
| "cacquire_slow_step horizon i t q (SlowUnlock r) = Some (q\<lparr>lock := None\<rparr>, SlowLeave r, Quiet)"
| "cacquire_slow_step horizon i t q (SlowLeave r) = Some (guard_drop q, CDone AcquireRes, Quiet)"
| "cacquire_slow_step horizon i t q p = None"

section \<open>Release\<close>

definition saturating_add :: "nat \<Rightarrow> nat \<Rightarrow> nat" where
  "saturating_add a b = min (a + b) (u32_mod - 1)"

text \<open>What a release does to the number of permits, with its result.\<close>

definition saturating_release :: "nat \<Rightarrow> nat \<Rightarrow> nat \<times> sem_res" where
  "saturating_release p n = (if n = 0 then p else saturating_add p n, ReleaseRes)"

fun crelease_step ::
    "(tid \<Rightarrow> nat \<Rightarrow> bool) \<Rightarrow> tid \<Rightarrow> nat \<Rightarrow> csem \<Rightarrow> csem_pc \<Rightarrow> (csem \<times> csem_pc \<times> unit notice) option" where
  "crelease_step flaky i t q (RelLoad n) =
     Some (q, if n = 0 then CDone ReleaseRes else RelCas n (permits q), Quiet)"
| "crelease_step flaky i t q (RelCas n current) =
     (if permits q = current \<and> \<not> flaky i t
      then Some (q\<lparr>permits := saturating_add current n\<rparr>, RelWaiters n, Quiet)
      else Some (q, RelCas n (permits q), Quiet))"
| "crelease_step flaky i t q (RelWaiters n) =
     Some (q, if waiters q = 0 then CDone ReleaseRes else RelLock n, Quiet)"
| "crelease_step flaky i t q (RelLock n) = csem_lock i q (RelUnlock n)"
| "crelease_step flaky i t q (RelUnlock n) = Some (q\<lparr>lock := None\<rparr>, RelNotify n, Quiet)"
| "crelease_step flaky i t q (RelNotify n) =
     Some (q, CDone ReleaseRes, if n = 1 then Wake 1 () else WakeAll ())"
| "crelease_step flaky i t q p = None"

section \<open>The machine\<close>

fun csem_advance ::
    "(tid \<Rightarrow> nat \<Rightarrow> bool) \<Rightarrow> nat \<Rightarrow> tid \<Rightarrow> nat \<Rightarrow> csem \<Rightarrow> csem_pc \<Rightarrow> (csem \<times> csem_pc \<times> unit notice) option" where
  "csem_advance flaky horizon i t q (GetLoad c) = Some (q, try_get_permit_load q c, Quiet)"
| "csem_advance flaky horizon i t q (GetCas c current) =
     (case try_get_permit_cas (flaky i t) q c current of (q', p) \<Rightarrow> Some (q', p, Quiet))"
| "csem_advance flaky horizon i t q AvailAt = Some (q, CDone (AvailableRes (permits q)), Quiet)"
| "csem_advance flaky horizon i t q (RelLoad n) = crelease_step flaky i t q (RelLoad n)"
| "csem_advance flaky horizon i t q (RelCas n k) = crelease_step flaky i t q (RelCas n k)"
| "csem_advance flaky horizon i t q (RelWaiters n) = crelease_step flaky i t q (RelWaiters n)"
| "csem_advance flaky horizon i t q (RelLock n) = crelease_step flaky i t q (RelLock n)"
| "csem_advance flaky horizon i t q (RelUnlock n) = crelease_step flaky i t q (RelUnlock n)"
| "csem_advance flaky horizon i t q (RelNotify n) = crelease_step flaky i t q (RelNotify n)"
| "csem_advance flaky horizon i t q p = cacquire_slow_step horizon i t q p"

fun csem_entry :: "sem_op \<Rightarrow> csem_pc" where
  "csem_entry OpAcquire = GetLoad Fast"
| "csem_entry OpTryAcquire = GetLoad Once"
| "csem_entry (OpRelease n) = RelLoad n"
| "csem_entry OpAvailable = AvailAt"

fun csem_resting :: "csem_pc \<Rightarrow> bool" where
  "csem_resting CIdle = True"
| "csem_resting (CDone r) = True"
| "csem_resting p = False"

fun csem_dozing :: "csem_pc \<Rightarrow> unit option" where
  "csem_dozing (SlowAsleep dl) = Some ()"
| "csem_dozing p = None"

fun csem_rouse :: "csem_pc \<Rightarrow> csem_pc" where
  "csem_rouse (SlowAsleep dl) = SlowWoken dl"
| "csem_rouse p = p"

definition csem_machine :: "(tid \<Rightarrow> nat \<Rightarrow> bool) \<Rightarrow> nat \<Rightarrow> (sem_op, csem, csem_pc, unit) machine" where
  "csem_machine flaky horizon = \<lparr>entry = csem_entry, resting = csem_resting,
     advance = csem_advance flaky horizon, dozing = csem_dozing, rouse = csem_rouse\<rparr>"

lemma csem_machine_simps [simp]:
  "entry (csem_machine flaky horizon) = csem_entry" "resting (csem_machine flaky horizon) = csem_resting"
  "advance (csem_machine flaky horizon) = csem_advance flaky horizon"
  "dozing (csem_machine flaky horizon) = csem_dozing" "rouse (csem_machine flaky horizon) = csem_rouse"
  by (simp_all add: csem_machine_def)

definition csem_start :: "nat \<Rightarrow> nat \<Rightarrow> (sem_op, csem, csem_pc) sys" where
  "csem_start c n = boot (csem_new c) CIdle n"

end
