(* ===== verification/CondvarSemInv.thy ===== *)
theory CondvarSemInv
  imports CondvarSem
begin

text \<open>
  Invariants of the condition-variable semaphore under any schedule: the mutex, which operation
  a program point belongs to, the linearization points, the waiter counter, and that a permit
  on offer is always taken care of by some thread that is awake.
\<close>

lemmas csem_defs = csem_lock_def guard_enter_def guard_drop_def get_loop_def try_get_permit_load_def
  try_get_permit_cas_def

section \<open>The rules of the machine and the mutex\<close>

interpretation csem: machine_rules "csem_machine flaky horizon" for flaky horizon
proof
  fix op p p' i t q q' nt
  let ?M = "csem_machine flaky horizon"
  show "dozing ?M (entry ?M op) = None" by (cases op) auto
  show "resting ?M p \<Longrightarrow> advance ?M i t q p = None" by (cases p) auto
  show "resting ?M p \<Longrightarrow> dozing ?M p = None" by (cases p) auto
  show "dozing ?M p \<noteq> None \<Longrightarrow> advance ?M i t q p = None" by (cases p) auto
  show "dozing ?M p \<noteq> None \<Longrightarrow> dozing ?M (rouse ?M p) = None" by (cases p) auto
  assume "advance ?M i t q p = Some (q', p', nt)"
  then show "dozing ?M p' \<noteq> None \<Longrightarrow> nt = Quiet"
    by (cases p) (auto simp: csem_defs split: if_splits option.splits)
qed

fun caller_slow :: "caller \<Rightarrow> bool" where
  "caller_slow (Slow spins dl) = True"
| "caller_slow c = False"

fun csem_holds :: "csem_pc \<Rightarrow> bool" where
  "csem_holds (GetLoad c) = caller_slow c"
| "csem_holds (GetCas c k) = caller_slow c"
| "csem_holds (SlowClock spins dl) = True"
| "csem_holds (SlowTest spins dl) = True"
| "csem_holds (SlowWait dl) = True"
| "csem_holds (SlowUnlock r) = True"
| "csem_holds (RelUnlock n) = True"
| "csem_holds p = False"

lemma get_simps [simp]:
  "csem_holds (get_true c) = caller_slow c" "csem_holds (get_false c) = caller_slow c"
  "csem_dozing (get_true c) = None" "csem_dozing (get_false c) = None"
  by (cases c; simp)+

lemma csem_lock_step:
  assumes "csem_advance flaky horizon i t q p = Some (q', p', nt)" and "csem_holds p \<longleftrightarrow> lock q = Some i"
  shows "(lock q' = lock q \<and> csem_holds p' = csem_holds p) \<or> (lock q = None \<and> lock q' = Some i \<and> csem_holds p')
    \<or> (lock q = Some i \<and> lock q' = None \<and> \<not> csem_holds p')"
  using assms by (cases p) (auto simp: csem_defs split: if_splits option.splits)

interpretation csem_lock: mutex "csem_machine flaky horizon" lock csem_holds for flaky horizon
proof
  fix op p p' i t nt and q q' :: csem
  let ?M = "csem_machine flaky horizon"
  show "\<not> csem_holds (entry ?M op)" by (cases op) auto
  show "resting ?M p \<Longrightarrow> \<not> csem_holds p" by (cases p) auto
  show "dozing ?M p \<noteq> None \<Longrightarrow> \<not> csem_holds p \<and> \<not> csem_holds (rouse ?M p)" by (cases p) auto
  show "advance ?M i t q p = Some (q', p', nt) \<Longrightarrow> csem_holds p = (lock q = Some i) \<Longrightarrow>
    (lock q' = lock q \<and> csem_holds p' = csem_holds p) \<or> (lock q = None \<and> lock q' = Some i \<and> csem_holds p')
      \<or> (lock q = Some i \<and> lock q' = None \<and> \<not> csem_holds p')"
    using csem_lock_step [of flaky horizon i t q p] by simp
qed

section \<open>Program points and operations\<close>

text \<open>
  The trait calls \<open>acquire_slow\<close> without a timeout, so no deadline is ever set and the
  branch that returns \<open>Timeout\<close>, whose result \<open>acquire\<close> would discard, is not reached.
\<close>

fun caller_of :: "sem_op \<Rightarrow> caller \<Rightarrow> bool" where
  "caller_of op Fast = (op = OpAcquire)"
| "caller_of op (Slow spins dl) = (op = OpAcquire \<and> dl = None \<and> spins \<le> SPIN_LIMIT)"
| "caller_of op Once = (op = OpTryAcquire)"

fun csem_of :: "sem_op \<Rightarrow> csem_pc \<Rightarrow> bool" where
  "csem_of op (CDone r) = sem_answers op r"
| "csem_of op (GetLoad c) = caller_of op c"
| "csem_of op (GetCas c k) = (caller_of op c \<and> 0 < k)"
| "csem_of op (SlowBegin dl) = (op = OpAcquire \<and> dl = None)"
| "csem_of op (SlowEnter dl) = (op = OpAcquire \<and> dl = None)"
| "csem_of op (SlowLock dl) = (op = OpAcquire \<and> dl = None)"
| "csem_of op (SlowClock spins dl) = (op = OpAcquire \<and> dl = None \<and> spins \<le> SPIN_LIMIT)"
| "csem_of op (SlowTest spins dl) = (op = OpAcquire \<and> dl = None \<and> spins \<le> SPIN_LIMIT)"
| "csem_of op (SlowSpin spins dl) = (op = OpAcquire \<and> dl = None \<and> spins \<le> SPIN_LIMIT)"
| "csem_of op (SlowWait dl) = (op = OpAcquire \<and> dl = None)"
| "csem_of op (SlowAsleep dl) = (op = OpAcquire \<and> dl = None)"
| "csem_of op (SlowWoken dl) = (op = OpAcquire \<and> dl = None)"
| "csem_of op (SlowUnlock r) = (op = OpAcquire \<and> r = Inr ())"
| "csem_of op (SlowLeave r) = (op = OpAcquire \<and> r = Inr ())"
| "csem_of op (RelLoad n) = (op = OpRelease n)"
| "csem_of op (RelCas n k) = (op = OpRelease n \<and> 0 < n)"
| "csem_of op (RelWaiters n) = (op = OpRelease n \<and> 0 < n)"
| "csem_of op (RelLock n) = (op = OpRelease n \<and> 0 < n)"
| "csem_of op (RelUnlock n) = (op = OpRelease n \<and> 0 < n)"
| "csem_of op (RelNotify n) = (op = OpRelease n \<and> 0 < n)"
| "csem_of op AvailAt = (op = OpAvailable)"
| "csem_of op CIdle = False"

definition csem_call :: "tid \<Rightarrow> nat \<Rightarrow> csem \<Rightarrow> (sem_op, csem_pc) thread \<Rightarrow> bool" where
  "csem_call i t q th \<longleftrightarrow> owns lock csem_holds i t q th
     \<and> (pc th = CIdle \<or> (\<exists>op. cur th = Some op \<and> csem_of op (pc th)))"

definition csem_shared_ok :: "csem \<Rightarrow> bool" where
  "csem_shared_ok q \<longleftrightarrow> permits q < u32_mod"

lemma get_of [simp]:
  "caller_of op c \<Longrightarrow> csem_of op (get_true c)" "caller_of op c \<Longrightarrow> csem_of op (get_false c)"
  by (cases c; simp)+

lemma csem_of_step:
  assumes "csem_advance flaky horizon i t q p = Some (q', p', nt)" and "csem_of op p"
  shows "csem_of op p'"
  using assms
  by (cases p) (auto simp: csem_defs deadline_def split: if_splits option.splits)

lemma csem_shared_step:
  assumes "csem_advance flaky horizon i t q p = Some (q', p', nt)" and "csem_shared_ok q"
  shows "csem_shared_ok q'"
proof -
  have "0 < u32_mod" by (simp add: u32_mod_def)
  with assms show ?thesis
    by (cases p) (auto simp: csem_defs csem_shared_ok_def saturating_add_def split: if_splits option.splits)
qed

interpretation csem_call: guarded "csem_machine flaky horizon" csem_shared_ok csem_call for flaky horizon
proof
  fix q q' :: csem and i j t d p nt op and th th' :: "(sem_op, csem_pc) thread"
  let ?M = "csem_machine flaky horizon"
  show "csem_call i t q th \<Longrightarrow> resting ?M (pc th) \<Longrightarrow>
      csem_call i t q \<lparr>cur = Some op, called = t, pc = entry ?M op\<rparr>"
    using csem_lock.entry_ok [of i t q th flaky horizon op] by (cases op) (auto simp: csem_call_def)
  show "csem_call i t q th \<Longrightarrow> dozing ?M (pc th) \<noteq> None \<Longrightarrow>
      csem_call i t q (th\<lparr>pc := rouse ?M (pc th)\<rparr>)"
    by (cases "pc th") (auto simp: csem_call_def owns_def)
  assume ok: "csem_shared_ok q" and call: "csem_call i t q th" and adv: "advance ?M i t q (pc th) = Some (q', p, nt)"
  from call have own: "owns lock csem_holds i t q th" by (simp add: csem_call_def)
  have "pc th \<noteq> CIdle" using adv by auto
  with ok call adv csem_lock.step_ok [OF _ own adv]
  show "csem_shared_ok q' \<and> csem_call i t q' (th\<lparr>pc := p\<rparr>)"
    using csem_shared_step csem_of_step by (fastforce simp: csem_call_def)
  show "j \<noteq> i \<Longrightarrow> csem_call j t q th' \<Longrightarrow> csem_call j t q' th'"
    using csem_lock.frame_ok [OF _ own adv] by (auto simp: csem_call_def)
qed (simp_all add: csem_call_def owns_def)

definition csem_inv :: "(sem_op, csem, csem_pc) sys \<Rightarrow> bool" where
  "csem_inv s \<longleftrightarrow> csem_shared_ok (shared s) \<and> all_threads csem_call s"

lemma csem_inv_exec: "csem_inv s \<Longrightarrow> exec (csem_machine flaky horizon) l s = Some t \<Longrightarrow> csem_inv t"
  using csem_call.exec_guarded unfolding csem_inv_def by blast

lemma csem_inv_run: "csem_inv s \<Longrightarrow> run (csem_machine flaky horizon) ls s = Some t \<Longrightarrow> csem_inv t"
  using csem_call.run_guarded unfolding csem_inv_def by blast

lemma csem_inv_start: "c < u32_mod \<Longrightarrow> csem_inv (csem_start c n)"
  by (simp add: csem_inv_def csem_start_def csem_new_def csem_shared_ok_def all_threads_def csem_call_def owns_def)

lemma csem_inv_owns: "csem_inv s \<Longrightarrow> all_threads (owns lock csem_holds) s"
  by (simp add: csem_inv_def all_threads_def csem_call_def)

lemma csem_at:
  assumes "csem_inv s" and "i < length (threads s)" and "pc (threads s ! i) \<noteq> CIdle"
  obtains op where "cur (threads s ! i) = Some op" and "csem_of op (pc (threads s ! i))"
  using assms by (auto simp: csem_inv_def all_threads_def csem_call_def)

section \<open>Linearization points\<close>

fun csem_decided :: "csem \<Rightarrow> csem_pc \<Rightarrow> sem_res option" where
  "csem_decided q (CDone r) = Some r"
| "csem_decided q (SlowUnlock r) = Some AcquireRes"
| "csem_decided q (SlowLeave r) = Some AcquireRes"
| "csem_decided q (RelWaiters n) = Some ReleaseRes"
| "csem_decided q (RelLock n) = Some ReleaseRes"
| "csem_decided q (RelUnlock n) = Some ReleaseRes"
| "csem_decided q (RelNotify n) = Some ReleaseRes"
| "csem_decided q p = None"

lemma csem_decided_shared: "csem_decided q p = csem_decided q' p"
  by (cases p) auto

lemma csem_lin_step:
  assumes "csem_advance flaky horizon i t q p = Some (q', p', nt)" and "csem_of op p"
  shows "case csem_decided q p of
      Some r \<Rightarrow> csem_decided q' p' = Some r \<and> permits q' = permits q
    | None \<Rightarrow> (case csem_decided q' p' of
        None \<Rightarrow> permits q' = permits q
      | Some r \<Rightarrow> strict_sem_spec saturating_release op r (permits q) = Some (permits q'))"
proof (cases p)
  case (GetLoad c)
  with assms show ?thesis by (cases c) (auto simp: csem_defs strict_sem_spec_def)
next
  case (GetCas c k)
  with assms show ?thesis by (cases c) (auto simp: csem_defs strict_sem_spec_def split: if_splits)
qed (use assms in \<open>auto simp: csem_defs strict_sem_spec_def saturating_release_def split: if_splits option.splits\<close>)

interpretation csem_lin: linearizable "csem_machine flaky horizon" csem_inv csem_decided
    "\<lambda>s. permits (shared s)" "strict_sem_spec saturating_release" for flaky horizon
proof
  fix s t :: "(sem_op, csem, csem_pc) sys" and l i j op ks p and q :: csem
  let ?M = "csem_machine flaky horizon"
  show "csem_inv s \<Longrightarrow> exec ?M l s = Some t \<Longrightarrow> csem_inv t" by (rule csem_inv_exec)
  show "csem_decided q (entry ?M op) = None" by (cases op) auto
  show "exec ?M (Call i op) s = Some t \<Longrightarrow> permits (shared t) = permits (shared s)"
    "exec ?M (Spurious i) s = Some t \<Longrightarrow> permits (shared t) = permits (shared s)"
    by (auto split: if_splits)
  show "dozing ?M p \<noteq> None \<Longrightarrow> csem_decided q (rouse ?M p) = csem_decided q p" by (cases p) auto
  show "csem_decided (shared t) (pc (threads s ! j)) = csem_decided (shared s) (pc (threads s ! j))"
    by (rule csem_decided_shared)
  assume inv: "csem_inv s" and "exec ?M (Run i ks) s = Some t"
  from this(2) show "case csem_decided (shared s) (pc (threads s ! i)) of
      Some r \<Rightarrow> csem_decided (shared t) (pc (threads t ! i)) = Some r \<and> permits (shared t) = permits (shared s)
    | None \<Rightarrow> (case csem_decided (shared t) (pc (threads t ! i)) of
        None \<Rightarrow> permits (shared t) = permits (shared s)
      | Some r \<Rightarrow> \<exists>op. cur (threads s ! i) = Some op
          \<and> strict_sem_spec saturating_release op r (permits (shared s)) = Some (permits (shared t)))"
  proof (rule csem.run_mover)
    fix q p nt
    assume i: "i < length (threads s)"
      and adv: "advance ?M i (now s) (shared s) (pc (threads s ! i)) = Some (q, p, nt)"
      and t: "shared t = q" "threads t ! i = (threads s ! i)\<lparr>pc := p\<rparr>"
    have "pc (threads s ! i) \<noteq> CIdle" using adv by auto
    with inv i obtain op where op: "cur (threads s ! i) = Some op" "csem_of op (pc (threads s ! i))"
      by (rule csem_at)
    with adv t csem_lin_step [of flaky horizon i "now s" "shared s" "pc (threads s ! i)" q p nt op]
    show ?thesis by (simp split: option.splits)
  qed
qed simp

interpretation saturating_law: permit_law saturating_release "u32_mod - 1"
  by standard (auto simp: saturating_release_def saturating_add_def)

section \<open>The waiter counter\<close>

fun waiting_section :: "csem_pc \<Rightarrow> bool" where
  "waiting_section (GetLoad c) = caller_slow c"
| "waiting_section (GetCas c k) = caller_slow c"
| "waiting_section (SlowLock dl) = True"
| "waiting_section (SlowClock spins dl) = True"
| "waiting_section (SlowTest spins dl) = True"
| "waiting_section (SlowSpin spins dl) = True"
| "waiting_section (SlowWait dl) = True"
| "waiting_section (SlowAsleep dl) = True"
| "waiting_section (SlowWoken dl) = True"
| "waiting_section (SlowUnlock r) = True"
| "waiting_section (SlowLeave r) = True"
| "waiting_section p = False"

lemma get_section [simp]:
  "waiting_section (get_true c) = caller_slow c" "waiting_section (get_false c) = caller_slow c"
  by (cases c; simp)+

lemma csem_count:
  assumes "csem_advance flaky horizon i t q p = Some (q', p', nt)"
  shows "(waiting_section p' = waiting_section p \<and> waiters q' = waiters q)
    \<or> (\<not> waiting_section p \<and> waiting_section p' \<and> waiters q' = wrap_add u32_mod (waiters q) 1)
    \<or> (waiting_section p \<and> \<not> waiting_section p' \<and> waiters q' = wrap_sub u32_mod (waiters q) 1)"
  using assms by (cases p) (auto simp: csem_defs split: if_splits option.splits)

interpretation csem_count: counter "csem_machine flaky horizon" u32_mod waiters waiting_section
  for flaky horizon
proof
  fix op p p' i t nt and q q' :: csem
  let ?M = "csem_machine flaky horizon"
  show "\<not> waiting_section (entry ?M op)" by (cases op) auto
  show "resting ?M p \<Longrightarrow> \<not> waiting_section p" by (cases p) auto
  show "dozing ?M p \<noteq> None \<Longrightarrow> waiting_section (rouse ?M p) = waiting_section p" by (cases p) auto
  show "advance ?M i t q p = Some (q', p', nt) \<Longrightarrow>
      (waiting_section p' = waiting_section p \<and> waiters q' = waiters q)
      \<or> (\<not> waiting_section p \<and> waiting_section p' \<and> waiters q' = wrap_add u32_mod (waiters q) 1)
      \<or> (waiting_section p \<and> \<not> waiting_section p' \<and> waiters q' = wrap_sub u32_mod (waiters q) 1)"
    using csem_count [of flaky horizon i t q p] by simp
qed

section \<open>Wake-ups\<close>

text \<open>
  The permits on offer are the need. A thread that released \<open>n\<close> answers for \<open>n\<close> until it has
  notified, an awake waiter for one from its wake-up to its test; \<open>before_lock\<close> is the part of
  a release before it has passed the mutex, \<open>zero_read\<close> a waiter that has read zero there.
\<close>

fun csem_token :: "csem_pc \<Rightarrow> nat" where
  "csem_token (GetLoad c) = of_bool (caller_slow c)"
| "csem_token (GetCas c k) = of_bool (caller_slow c)"
| "csem_token (SlowSpin spins dl) = 1"
| "csem_token (SlowWoken dl) = 1"
| "csem_token (RelWaiters n) = n"
| "csem_token (RelLock n) = n"
| "csem_token (RelUnlock n) = n"
| "csem_token (RelNotify n) = n"
| "csem_token p = 0"

fun before_lock :: "csem_pc \<Rightarrow> nat" where
  "before_lock (RelWaiters n) = n"
| "before_lock (RelLock n) = n"
| "before_lock p = 0"

fun zero_read :: "csem_pc \<Rightarrow> bool" where
  "zero_read (SlowWait dl) = True"
| "zero_read p = False"

lemma get_tokens [simp]:
  "csem_token (get_true c) = 0" "csem_token (get_false c) = 0"
  "before_lock (get_true c) = 0" "before_lock (get_false c) = 0"
  "\<not> zero_read (get_true c)" "\<not> zero_read (get_false c)"
  by (cases c; simp)+

definition csem_counted :: "(sem_op, csem, csem_pc) sys \<Rightarrow> bool" where
  "csem_counted s \<longleftrightarrow> csem_inv s \<and> length (threads s) < u32_mod
     \<and> waiters (shared s) = inside waiting_section (threads s)"

lemma csem_counted_exec:
  "csem_counted s \<Longrightarrow> exec (csem_machine flaky horizon) l s = Some t \<Longrightarrow> csem_counted t"
  using csem_inv_exec csem_count.exec_counter unfolding csem_counted_def by metis

lemma csem_race_step:
  assumes "csem_advance flaky horizon i t q p = Some (q', p', nt)"
  shows "zero_read p' \<Longrightarrow> permits q' \<noteq> 0 \<Longrightarrow> zero_read p"
    and "lock q \<noteq> None \<Longrightarrow> 0 < waiters q \<Longrightarrow> permits q' + before_lock p \<le> permits q + before_lock p'"
  using assms
  by (cases p; auto simp: csem_defs saturating_add_def split: if_splits option.splits)+

lemma zero_read_section: "inside zero_read ts \<le> inside waiting_section ts"
  unfolding inside_def by (rule weight_mono) (auto elim: zero_read.elims)

interpretation csem_race: presleep "csem_machine flaky horizon" lock csem_holds csem_counted zero_read before_lock permits
  for flaky horizon
proof
  fix p p' op and s :: "(sem_op, csem, csem_pc) sys" and i q' nt
  let ?M = "csem_machine flaky horizon"
  show "csem_counted s \<Longrightarrow> all_threads (owns lock csem_holds) s" by (simp add: csem_counted_def csem_inv_owns)
  show "zero_read p \<Longrightarrow> csem_holds p \<and> before_lock p = 0" by (cases p) auto
  show "before_lock (entry ?M op) = 0" by (cases op) auto
  show "resting ?M p \<Longrightarrow> before_lock p = 0" by (cases p) auto
  show "dozing ?M p \<noteq> None \<Longrightarrow> before_lock (rouse ?M p) = before_lock p" by (cases p) auto
  assume inv: "csem_counted s" and "advance ?M i (now s) (shared s) (pc (threads s ! i)) = Some (q', p', nt)"
  then have adv: "csem_advance flaky horizon i (now s) (shared s) (pc (threads s ! i)) = Some (q', p', nt)" by simp
  show "permits q' \<noteq> 0 \<Longrightarrow> zero_read p' \<Longrightarrow> zero_read (pc (threads s ! i))"
    using csem_race_step(1) [OF adv] by blast
  assume "0 < inside zero_read (threads s)" and "lock (shared s) \<noteq> None"
  with csem_race_step(2) [OF adv] inv zero_read_section [of "threads s"]
  show "permits q' + before_lock (pc (threads s ! i)) \<le> permits (shared s) + before_lock p'"
    by (simp add: csem_counted_def)
qed

definition csem_live_inv :: "(sem_op, csem, csem_pc) sys \<Rightarrow> bool" where
  "csem_live_inv s \<longleftrightarrow> csem_counted s \<and> unmissed zero_read before_lock permits s
     \<and> (\<forall>j. lock (shared s) = Some j \<longrightarrow> j < length (threads s))"

lemma csem_live_inv_exec:
  assumes inv: "csem_live_inv s" and ex: "exec (csem_machine flaky horizon) l s = Some t"
  shows "csem_live_inv t"
proof -
  from inv have cnt: "csem_counted s" by (simp add: csem_live_inv_def)
  then have own: "all_threads (owns lock csem_holds) s" by (simp add: csem_counted_def csem_inv_owns)
  from csem_counted_exec [OF cnt ex] csem_race.exec_unmissed [OF cnt ex]
    csem_lock.exec_owner_range [OF ex own] inv show ?thesis by (auto simp: csem_live_inv_def)
qed

lemma csem_sleeping_section: "sleeping (csem_machine flaky horizon) () ts \<le> inside waiting_section ts"
  unfolding sleeping_def inside_def by (rule weight_mono) (auto elim: csem_dozing.elims)

lemma csem_need_step:
  assumes "csem_advance flaky horizon i t q p = Some (q', p', nt)" and "0 < waiters q"
    and "csem_of op p" and "csem_dozing p' = None" and "nt \<noteq> WakeAll ()" and "permits q' \<noteq> 0"
  shows "permits q' + csem_token p \<le> permits q + csem_token p' + woken_by () nt"
  using assms
  by (cases p) (auto simp: csem_defs saturating_add_def split: if_splits option.splits)

lemma csem_doze_step:
  assumes "csem_advance flaky horizon i t q p = Some (q', p', nt)" and "csem_dozing p' \<noteq> None"
  shows "zero_read p \<and> permits q' = permits q"
  using assms by (cases p) (auto simp: csem_defs split: if_splits option.splits)

interpretation csem_wake: wakeups "csem_machine flaky horizon" csem_live_inv "()" 1 csem_token permits
  for flaky horizon
proof
  fix p p' and s :: "(sem_op, csem, csem_pc) sys" and i q' nt
  let ?M = "csem_machine flaky horizon"
  show "resting ?M p \<Longrightarrow> csem_token p = 0" by (cases p) auto
  show "dozing ?M p = Some () \<Longrightarrow> csem_token (rouse ?M p) = csem_token p + 1" by (cases p) auto
  show "dozing ?M p \<noteq> None \<Longrightarrow> dozing ?M p \<noteq> Some () \<Longrightarrow> csem_token (rouse ?M p) = csem_token p" by simp
  assume inv: "csem_live_inv s" and i: "i < length (threads s)"
    and "advance ?M i (now s) (shared s) (pc (threads s ! i)) = Some (q', p', nt)"
  then have adv: "csem_advance flaky horizon i (now s) (shared s) (pc (threads s ! i)) = Some (q', p', nt)" by simp
  from inv have cnt: "csem_counted s" by (simp add: csem_live_inv_def)
  have "pc (threads s ! i) \<noteq> CIdle" using adv by auto
  with cnt i obtain op where op: "csem_of op (pc (threads s ! i))"
    unfolding csem_counted_def by (auto elim: csem_at)
  { assume "sleeping ?M () (threads s) > 0" and "dozing ?M p' \<noteq> Some ()" and "nt \<noteq> WakeAll ()"
      and "permits q' \<noteq> 0"
    moreover have "csem_dozing p' = None"
      using \<open>dozing ?M p' \<noteq> Some ()\<close> by (cases "csem_dozing p'") auto
    ultimately show "permits q' + csem_token (pc (threads s ! i))
        \<le> permits (shared s) + csem_token p' + 1 * woken_by () nt"
      using csem_need_step [OF adv _ op] csem_sleeping_section [of flaky horizon "threads s"] cnt
      by (simp add: csem_counted_def) }
  assume "dozing ?M p' = Some ()"
  then have doze: "zero_read (pc (threads s ! i))" "permits q' = permits (shared s)"
    using csem_doze_step [OF adv] by simp_all
  have "before_lock p \<le> csem_token p" for p by (cases p) auto
  with csem_race.doze_ready [OF _ i doze(1), of csem_token p'] inv doze(2)
  show "permits q' \<le> weight csem_token ((threads s)[i := (threads s ! i)\<lparr>pc := p'\<rparr>])"
    by (simp add: csem_live_inv_def)
qed

lemma csem_live_run:
  assumes "run (csem_machine flaky horizon) ls (csem_start c n) = Some s" and "c < u32_mod" and "n < u32_mod"
  shows "csem_live_inv s \<and> covered (csem_machine flaky horizon) () csem_token permits s"
proof -
  let ?M = "csem_machine flaky horizon"
  let ?I = "\<lambda>s. csem_live_inv s \<and> covered ?M () csem_token permits s"
  have "?I (csem_start c n)"
    using csem_inv_start [OF assms(2), of n] assms(3)
    by (simp add: csem_live_inv_def csem_counted_def covered_def unmissed_def csem_start_def inside_def
        sleeping_def csem_new_def)
  moreover have "?I s \<Longrightarrow> exec ?M l s = Some t \<Longrightarrow> ?I t" for s t l
    using csem_live_inv_exec csem_wake.exec_covered by blast
  ultimately show ?thesis using run_invariant [of ?I ?M ls "csem_start c n" s] assms(1) by blast
qed

text \<open>With the lock free or its own, an awake thread inside a call can act.\<close>

lemma csem_advance_enabled:
  assumes "csem_holds p \<or> lock q = None" and "\<not> csem_resting p" and "csem_dozing p = None"
  shows "csem_advance flaky horizon i t q p \<noteq> None"
  using assms by (cases p) (auto simp: csem_defs split: prod.splits)

lemma csem_stuck_threads:
  assumes inv: "csem_live_inv s" and stuck: "\<And>i ks. exec (csem_machine flaky horizon) (Run i ks) s = None"
    and i: "i < length (threads s)"
  shows "csem_resting (pc (threads s ! i)) \<or> csem_dozing (pc (threads s ! i)) \<noteq> None"
proof (rule ccontr)
  assume active: "\<not> ?thesis"
  have none: "csem_advance flaky horizon j (now s) (shared s) (pc (threads s ! j)) = None"
    if "j < length (threads s)" for j
    using stuck_blocked [OF stuck that] by simp
  have own: "all_threads (owns lock csem_holds) s"
    using inv by (simp add: csem_live_inv_def csem_counted_def csem_inv_owns)
  show False
  proof (cases "lock (shared s)")
    case None
    with csem_advance_enabled active none [OF i] show False by blast
  next
    case (Some j)
    with inv own have j: "j < length (threads s)" and "csem_holds (pc (threads s ! j))"
      by (auto simp: csem_live_inv_def all_threads_def owns_def)
    moreover from this(2) have "\<not> csem_resting (pc (threads s ! j))" "csem_dozing (pc (threads s ! j)) = None"
      using csem_lock.holds_active [of "pc (threads s ! j)"] by auto
    ultimately show False using csem_advance_enabled none [OF j] by blast
  qed
qed

end
