(* ===== verification/CondvarSemProps.thy ===== *)
theory CondvarSemProps
  imports CondvarSemInv
begin

text \<open>
  The properties of the condition-variable semaphore, over arbitrary schedules of \<open>n\<close> threads
  around a semaphore made with \<open>c\<close> permits, whatever the weak compare-exchanges do.
\<close>

section \<open>A schedule for the witnesses\<close>

lemmas csem_eval = acts_def csem_start_def csem_new_def boot_def csem_defs deadline_def sleepers_def
  rouse_all_def replicate_numeral upt_rec wrap_add_def wrap_sub_def u32_mod_def saturating_add_def

abbreviation no_flake :: "tid \<Rightarrow> nat \<Rightarrow> bool" where
  "no_flake \<equiv> \<lambda>_ _. False"

text \<open>
  Thread 0 sleeps in \<open>acquire\<close>; thread 1 releases a permit and wakes it.
\<close>

definition one_asleep :: "sem_op label list" where
  "one_asleep = Call 0 OpAcquire # acts 0 8"

definition one_served :: "sem_op label list" where
  "one_served = one_asleep @ Call 1 (OpRelease 1) # acts 1 5 @ Run 1 [0] # acts 0 5"

lemma one_asleep_run:
  "\<exists>s. run (csem_machine no_flake 0) one_asleep (csem_start 0 2) = Some s
    \<and> map pc (threads s) = [SlowAsleep None, CIdle]"
  by (simp add: csem_eval one_asleep_def)

lemma one_served_run:
  "\<exists>s. run (csem_machine no_flake 0) one_served (csem_start 0 2) = Some s
    \<and> map pc (threads s) = [CDone AcquireRes, CDone ReleaseRes] \<and> permits (shared s) = 0"
  by (simp add: csem_eval one_asleep_def one_served_def)

lemma one_served_deposits:
  "deposited (history (csem_machine no_flake 0) csem_decided one_served (csem_start 0 2)) = 1"
  by (simp add: csem_eval one_asleep_def one_served_def lin_event_def)

section \<open>Linearizability\<close>

lemma csem_linearizable_replay:
  assumes "run (csem_machine flaky horizon) ls (csem_start c n) = Some s" and "c < u32_mod"
  shows "replay (strict_sem_spec saturating_release)
    (history (csem_machine flaky horizon) csem_decided ls (csem_start c n)) c = Some (permits (shared s))"
  using csem_lin.replay_run [OF csem_inv_start [OF assms(2)] assms(1)] by (simp add: csem_start_def csem_new_def)

text \<open>
  C20. The condition-variable semaphore is linearizable to the strict semaphore, where
  \<open>try_acquire\<close> fails only at a moment without permits and a release saturates at
  \<open>u32::MAX\<close>; a call returns the result it was linearized with; and permits are conserved: those
  handed out and those on offer are at most the initial and the released ones, exactly as
  many while these fit into a \<open>u32\<close>.
\<close>

theorem csem_linearizable:
  assumes "run (csem_machine flaky horizon) ls (csem_start c n) = Some s" and "c < u32_mod"
  defines "h \<equiv> history (csem_machine flaky horizon) csem_decided ls (csem_start c n)"
  shows "replay (strict_sem_spec saturating_release) h c = Some (permits (shared s))
    \<and> (\<forall>i < n. thread_phase i h (None, None)
        = Some (cur (threads s ! i), csem_decided (shared s) (pc (threads s ! i))))
    \<and> granted h + permits (shared s) \<le> c + deposited h
    \<and> (c + deposited h < u32_mod \<longrightarrow> granted h + permits (shared s) = c + deposited h)"
proof -
  have inv: "csem_inv (csem_start c n)" using assms(2) by (rule csem_inv_start)
  have rep: "replay (strict_sem_spec saturating_release) h c = Some (permits (shared s))"
    using csem_linearizable_replay [OF assms(1,2)] by (simp add: h_def)
  moreover have "thread_phase i h (None, None)
      = Some (cur (threads s ! i), csem_decided (shared s) (pc (threads s ! i)))" if "i < n" for i
    using csem_lin.phase_run [OF inv assms(1), of i] that by (simp add: h_def csem_start_def)
  ultimately show ?thesis
    using saturating_law.replay_conserves [OF replay_strict [OF rep]] by auto
qed

theorem csem_linearizable_witness:
  "\<exists>s. run (csem_machine no_flake 0) one_served (csem_start 0 2) = Some s
    \<and> replay (strict_sem_spec saturating_release)
        (history (csem_machine no_flake 0) csem_decided one_served (csem_start 0 2)) 0 = Some 0"
proof -
  obtain s where s: "run (csem_machine no_flake 0) one_served (csem_start 0 2) = Some s" "permits (shared s) = 0"
    using one_served_run by (elim exE conjE)
  with csem_linearizable [OF s(1)] show ?thesis by (simp add: u32_mod_def)
qed

section \<open>Progress\<close>

text \<open>
  C21. No wake-up is lost and there is no deadlock: when no thread can act, every thread is
  outside, or asleep in \<open>acquire\<close> while there are no permits. A release that happens between a
  waiter's test for zero and its sleep is not missed, because the releaser passes the mutex
  before it notifies.
\<close>

theorem csem_no_lost_wakeup:
  assumes "run (csem_machine flaky horizon) ls (csem_start c n) = Some s" and "c < u32_mod" and "n < u32_mod"
    and stuck: "\<And>i ks. exec (csem_machine flaky horizon) (Run i ks) s = None" and i: "i < n"
  shows "csem_resting (pc (threads s ! i))
    \<or> (csem_dozing (pc (threads s ! i)) \<noteq> None \<and> permits (shared s) = 0)"
proof -
  let ?M = "csem_machine flaky horizon"
  have len: "length (threads s) = n" using run_length [OF assms(1)] by (simp add: csem_start_def)
  have live: "csem_live_inv s" and cov: "covered ?M () csem_token permits s"
    using csem_live_run [OF assms(1-3)] by simp_all
  have quiet: "csem_resting (pc (threads s ! j)) \<or> csem_dozing (pc (threads s ! j)) \<noteq> None" if "j < n" for j
    using csem_stuck_threads [OF live stuck] that len by blast
  have "weight csem_token (threads s) = 0"
  proof (rule weight_zero)
    fix j assume "j < length (threads s)"
    with quiet len show "csem_token (pc (threads s ! j)) = 0"
      by (cases "pc (threads s ! j)") fastforce+
  qed
  moreover have "sleeping ?M () (threads s) > 0" if "csem_dozing (pc (threads s ! i)) \<noteq> None"
    unfolding sleeping_def weight_pos_iff using that i len by auto
  ultimately show ?thesis using quiet [OF i] cov by (auto simp: covered_def)
qed

theorem csem_no_lost_wakeup_witness:
  "\<exists>s. run (csem_machine no_flake 0) one_asleep (csem_start 0 2) = Some s
    \<and> csem_dozing (pc (threads s ! 0)) \<noteq> None \<and> permits (shared s) = 0"
proof -
  let ?M = "csem_machine no_flake 0"
  obtain s where s: "run ?M one_asleep (csem_start 0 2) = Some s" "map pc (threads s) = [SlowAsleep None, CIdle]"
    using one_asleep_run by (elim exE conjE)
  have "pc (threads s ! 0) = SlowAsleep None" using pcs_nth [OF s(2), of 0] by simp
  moreover have "exec ?M (Run i ks) s = None" for i ks
    by (rule blocked_stuck) (simp only: s(2), simp)
  ultimately show ?thesis using csem_no_lost_wakeup [OF s(1), of 0] s(1) by (auto simp: u32_mod_def)
qed

end
