(* ===== verification/SemaphoreAgree.thy ===== *)
theory SemaphoreAgree
  imports FutexSemProps CondvarSemProps
begin

text \<open>
  The two semaphores against each other, and the constructor function of the crate: where the
  permits cannot overflow, the condition-variable semaphore does nothing the specification of
  the futex semaphore forbids, so a client of the trait cannot tell them apart.
\<close>

lemma releases_agree:
  assumes "p + n \<le> MAX_PERMITS"
  shows "release_add checks p n = saturating_release p n"
proof -
  have "p + n \<le> u32_mod - 1" using assms by (simp add: MAX_PERMITS_def u32_mod_def)
  with assms show ?thesis using release_law.add_exact saturating_law.add_exact by metis
qed

lemma sem_spec_agree:
  assumes "p + deposited [EvLin i op r] \<le> MAX_PERMITS"
  shows "sem_spec (release_add checks) op r p = sem_spec saturating_release op r p"
  using assms releases_agree by (cases op) auto

lemma replay_agree:
  assumes "p + deposited es \<le> MAX_PERMITS"
  shows "replay (sem_spec (release_add checks)) es p = replay (sem_spec saturating_release) es p"
  using assms
proof (induction es arbitrary: p)
  case (Cons e es)
  show ?case
  proof (cases e)
    case (EvCall i op)
    with Cons show ?thesis by simp
  next
    case (EvLin i op r)
    have sum: "p + deposited [EvLin i op r] + deposited es \<le> MAX_PERMITS"
      using Cons.prems EvLin by (simp split: sem_op.splits)
    then have same: "sem_spec (release_add checks) op r p = sem_spec saturating_release op r p"
      by (intro sem_spec_agree) simp
    show ?thesis
    proof (cases "sem_spec (release_add checks) op r p")
      case None
      with same EvLin show ?thesis by simp
    next
      case (Some m)
      have "granted [EvLin i op r] + m \<le> p + deposited [EvLin i op r]"
        using Some by (rule release_law.spec_conserves(1))
      with sum have "m + deposited es \<le> MAX_PERMITS" by simp
      from Cons.IH [OF this] Some same EvLin show ?thesis by simp
    qed
  qed
qed simp

text \<open>
  C22. Interchangeability: in any run of the condition-variable semaphore whose initial and
  released permits stay within \<open>MAX_PERMITS\<close>, the linearized calls and results are a run of
  the sequential futex semaphore too, ending with the same permits; there the two
  specifications agree. \<open>create_semaphore\<close> makes the futex kind exactly for at most
  \<open>MAX_PERMITS\<close> permits, and panics for the other kind.
\<close>

theorem semaphores_agree:
  assumes "run (csem_machine flaky horizon) ls (csem_start c n) = Some s"
  defines "h \<equiv> history (csem_machine flaky horizon) csem_decided ls (csem_start c n)"
  assumes "c + deposited h \<le> MAX_PERMITS"
  shows "replay (sem_spec (release_add checks)) h c = Some (CondvarSem.permits (shared s))
    \<and> (create_semaphore fsem_new FutexSem p = None \<longleftrightarrow> MAX_PERMITS < p)
    \<and> create_semaphore fsem_new CondvarSem p = None"
proof -
  have c: "c < u32_mod" using assms(3) by (simp add: MAX_PERMITS_def u32_mod_def)
  have "replay (strict_sem_spec saturating_release) h c = Some (CondvarSem.permits (shared s))"
    using csem_linearizable_replay [OF assms(1) c] by (simp add: h_def)
  then have "replay (sem_spec (release_add checks)) h c = Some (CondvarSem.permits (shared s))"
    unfolding replay_agree [OF assms(3)] by (rule replay_strict)
  then show ?thesis by (simp add: create_semaphore_def fsem_new_def)
qed

theorem semaphores_agree_witness:
  "\<exists>s. run (csem_machine no_flake 0) one_served (csem_start 0 2) = Some s
    \<and> replay (sem_spec (release_add True))
        (history (csem_machine no_flake 0) csem_decided one_served (csem_start 0 2)) 0
      = Some (CondvarSem.permits (shared s))"
proof -
  obtain s where s: "run (csem_machine no_flake 0) one_served (csem_start 0 2) = Some s"
    using one_served_run by (elim exE conjE)
  have "deposited (history (csem_machine no_flake 0) csem_decided one_served (csem_start 0 2)) = 1"
    by (rule one_served_deposits)
  then have "0 + deposited (history (csem_machine no_flake 0) csem_decided one_served (csem_start 0 2)) \<le> MAX_PERMITS"
    by (simp add: MAX_PERMITS_def u32_mod_def)
  from semaphores_agree [OF s this] s show ?thesis by blast
qed

end
