(* ===== verification/Executors.thy ===== *)
theory Executors
  imports HioCore
begin

text \<open>
  The executor interface (\<open>crates/hio-concurrent/src/executor.rs\<close>): the kinds, the operations
  and results of the trait \<open>Executor\<close>, and the constructor function. A job is an opaque
  closure, the type parameter \<open>'j\<close>.
\<close>

datatype ExecutorType = ThreadPool | ThreadPerTask | WorkStealing

fun executor_type_code :: "ExecutorType \<Rightarrow> nat" where
  "executor_type_code ThreadPool = 0"
| "executor_type_code ThreadPerTask = 1"
| "executor_type_code WorkStealing = 2"

text \<open>
  \<open>parallelism\<close> is what \<open>thread::available_parallelism\<close> returns, \<open>None\<close> for an error. The two
  other executors are \<open>todo!()\<close>, a panic (\<open>None\<close>).
\<close>

definition ensure_num_workers :: "nat option \<Rightarrow> nat \<Rightarrow> nat" where
  "ensure_num_workers parallelism num_workers =
     (if num_workers = 0 then (case parallelism of None \<Rightarrow> 1 | Some n \<Rightarrow> n) else num_workers)"

definition create_executor :: "('q \<Rightarrow> nat \<Rightarrow> 'p) \<Rightarrow> nat option \<Rightarrow> ExecutorType \<Rightarrow> 'q \<Rightarrow> nat \<Rightarrow> 'p option" where
  "create_executor with_jq parallelism executor_type job_queue num_workers =
     (let n = ensure_num_workers parallelism num_workers
      in case executor_type of
           ThreadPool \<Rightarrow> Some (with_jq job_queue n)
         | ThreadPerTask \<Rightarrow> None
         | WorkStealing \<Rightarrow> None)"

section \<open>The trait\<close>

datatype 'j exec_op = Submit 'j | Dispose | IsDisposed | WorkerCount

datatype exec_res =
    SubmitRes "HioLastError + unit"
  | DisposeDone
  | DisposedRes bool
  | CountRes nat

end
