(* ===== verification/TaskPool.thy ===== *)
theory TaskPool
  imports Contracts Executors
begin

text \<open>
  The thread-per-task pool (\<open>crates/hio-concurrent/src/executor/thread_per_task.rs\<close>).
  \<open>tpool\<close> is the pool with its \<open>Inner\<close> (the count under its mutex, the flag, the limit), the
  vector of join handles under its mutex, and the threads it has spawned, which are part of the
  operating system: \<open>tasks\<close> lists the spawned closures with their status, a handle is an
  index into it. A spawned closure is carried out by a thread of the machine that the
  scheduler calls with \<open>Worker k\<close>. \<open>spawn_ok i t\<close> says whether \<open>spawn\<close> of thread \<open>i\<close> at
  time \<open>t\<close> succeeds. The mutexes are never poisoned (no panic happens inside one, which the
  invariant shows), and \<open>thread_count\<close> counts live threads, so it is a plain number.
\<close>

section \<open>State\<close>

datatype task_status = Pending | Running | Finished

record 'j tpool =
  thread_count :: nat
  count_owner :: "tid option"
  max_threads :: nat
  disposed :: bool
  stack_size :: "nat option"
  handles :: "nat list"
  handles_owner :: "tid option"
  seqno :: nat
  tasks :: "('j \<times> task_status) list"

definition tpool_new :: "nat \<Rightarrow> 'j tpool" where
  "tpool_new limit = \<lparr>thread_count = 0, count_owner = None, max_threads = limit, disposed = False,
     stack_size = None, handles = [], handles_owner = None, seqno = 0, tasks = []\<rparr>"

definition with_stack_size :: "nat \<Rightarrow> 'j tpool \<Rightarrow> 'j tpool" where
  "with_stack_size bytes q = q\<lparr>stack_size := Some bytes\<rparr>"

section \<open>Program points\<close>

datatype acquire_point =
    AcqLock | WaitFlag | WaitCount | AcqDoze | AcqAsleep | AcqWoken | AcqFlag | AcqFail | AcqBump

datatype release_point = RelLock | RelDec | RelNotify | RelUnlock

text \<open>Who releases: a finished task, or a submit whose spawn failed.\<close>

datatype releaser = AfterTask nat | AfterSpawn

datatype reap_point = ReapLock | ReapLoop nat

datatype tp_dispose_point = DisposeCas | DisposeLock | DisposeUnlock | DisposeNotify | DrainLock | Drain | Join "nat list"

datatype 'j pool_op = Client "'j exec_op" | Worker nat

datatype pool_res = ClientRes exec_res | WorkerRes

datatype 'j tpool_pc =
    TIdle
  | TDone pool_res
  | TPanicked releaser
  | SubmitCheck 'j
  | ReapAt reap_point 'j
  | AcquireAt acquire_point 'j
  | SubmitSeq 'j | SubmitSpawn 'j
  | PushLock nat | PushHandle nat
  | ReleaseAt release_point releaser
  | TaskStart nat | TaskRun nat | TaskExit nat
  | DisposeAt tp_dispose_point
  | IsDisposedAt
  | CountLock | CountRead

definition submit_ret :: "HioLastError + unit \<Rightarrow> 'j tpool_pc" where
  "submit_ret r = TDone (ClientRes (SubmitRes r))"

definition lock_count :: "tid \<Rightarrow> 'j tpool \<Rightarrow> 'j tpool_pc \<Rightarrow> ('j tpool \<times> 'j tpool_pc \<times> unit notice) option" where
  "lock_count i q p = (if count_owner q = None then Some (q\<lparr>count_owner := Some i\<rparr>, p, Quiet) else None)"

definition lock_handles :: "tid \<Rightarrow> 'j tpool \<Rightarrow> 'j tpool_pc \<Rightarrow> ('j tpool \<times> 'j tpool_pc \<times> unit notice) option" where
  "lock_handles i q p = (if handles_owner q = None then Some (q\<lparr>handles_owner := Some i\<rparr>, p, Quiet) else None)"

section \<open>Inner\<close>

text \<open>
  \<open>Inner::acquire\<close>: with a limit, \<open>wait_while\<close> the pool is open and the count at the limit
  (two reads, then the wait that releases the mutex and sleeps); then the flag again.
\<close>

fun acquire_step :: "tid \<Rightarrow> 'j tpool \<Rightarrow> acquire_point \<Rightarrow> 'j \<Rightarrow> ('j tpool \<times> 'j tpool_pc \<times> unit notice) option" where
  "acquire_step i q AcqLock j = lock_count i q (AcquireAt (if max_threads q > 0 then WaitFlag else AcqFlag) j)"
| "acquire_step i q WaitFlag j = Some (q, AcquireAt (if \<not> disposed q then WaitCount else AcqFlag) j, Quiet)"
| "acquire_step i q WaitCount j =
     Some (q, AcquireAt (if thread_count q \<ge> max_threads q then AcqDoze else AcqFlag) j, Quiet)"
| "acquire_step i q AcqDoze j = Some (q\<lparr>count_owner := None\<rparr>, AcquireAt AcqAsleep j, Quiet)"
| "acquire_step i q AcqAsleep j = None"
| "acquire_step i q AcqWoken j = lock_count i q (AcquireAt WaitFlag j)"
| "acquire_step i q AcqFlag j = Some (q, AcquireAt (if disposed q then AcqFail else AcqBump) j, Quiet)"
| "acquire_step i q AcqFail j = Some (q\<lparr>count_owner := None\<rparr>, submit_ret (Inl ResourceUnavailable), Quiet)"
| "acquire_step i q AcqBump j =
     Some (q\<lparr>thread_count := thread_count q + 1, count_owner := None\<rparr>, SubmitSeq j, Quiet)"

text \<open>\<open>Inner::release\<close>, the body of \<open>InnerGuard::drop\<close>; the subtraction panics at zero.\<close>

fun release_next :: "releaser \<Rightarrow> 'j tpool_pc" where
  "release_next (AfterTask k) = TaskExit k"
| "release_next AfterSpawn = submit_ret (Inl Failed)"

fun tp_release_step ::
    "tid \<Rightarrow> 'j tpool \<Rightarrow> release_point \<Rightarrow> releaser \<Rightarrow> ('j tpool \<times> 'j tpool_pc \<times> unit notice) option" where
  "tp_release_step i q RelLock who = lock_count i q (ReleaseAt RelDec who)"
| "tp_release_step i q RelDec who =
     (if thread_count q = 0 then Some (q\<lparr>count_owner := None\<rparr>, TPanicked who, Quiet)
      else Some (q\<lparr>thread_count := thread_count q - 1\<rparr>, ReleaseAt RelNotify who, Quiet))"
| "tp_release_step i q RelNotify who = Some (q, ReleaseAt RelUnlock who, Wake 1 ())"
| "tp_release_step i q RelUnlock who = Some (q\<lparr>count_owner := None\<rparr>, release_next who, Quiet)"

fun count_step :: "tid \<Rightarrow> 'j tpool \<Rightarrow> bool \<Rightarrow> ('j tpool \<times> 'j tpool_pc \<times> unit notice) option" where
  "count_step i q False = lock_count i q CountRead"
| "count_step i q True =
     Some (q\<lparr>count_owner := None\<rparr>, TDone (ClientRes (CountRes (thread_count q))), Quiet)"

section \<open>Reap\<close>

text \<open>\<open>Vec::swap_remove\<close>: the last element takes the place of the removed one.\<close>

definition swap_remove :: "nat \<Rightarrow> 'a list \<Rightarrow> 'a list" where
  "swap_remove i xs = (butlast xs)[i := last xs]"

text \<open>A handle's thread has ended; there are no handles but those of spawned threads.\<close>

definition is_finished :: "'j tpool \<Rightarrow> nat \<Rightarrow> bool" where
  "is_finished q k \<longleftrightarrow> (k < length (tasks q) \<longrightarrow> snd (tasks q ! k) = Finished)"

fun reap_step :: "tid \<Rightarrow> 'j tpool \<Rightarrow> reap_point \<Rightarrow> 'j \<Rightarrow> ('j tpool \<times> 'j tpool_pc \<times> unit notice) option" where
  "reap_step i q ReapLock j = lock_handles i q (ReapAt (ReapLoop 0) j)"
| "reap_step i q (ReapLoop n) j =
     (if n < length (handles q)
      then if is_finished q (handles q ! n)
           then Some (q\<lparr>handles := swap_remove n (handles q)\<rparr>, ReapAt (ReapLoop n) j, Quiet)
           else Some (q, ReapAt (ReapLoop (n + 1)) j, Quiet)
      else Some (q\<lparr>handles_owner := None\<rparr>, AcquireAt AcqLock j, Quiet))"

section \<open>Submit and the spawned closure\<close>

definition set_status :: "nat \<Rightarrow> task_status \<Rightarrow> 'j tpool \<Rightarrow> 'j tpool" where
  "set_status k st q = q\<lparr>tasks := (tasks q)[k := (fst (tasks q ! k), st)]\<rparr>"

definition spawn :: "'j \<Rightarrow> 'j tpool \<Rightarrow> 'j tpool" where
  "spawn j q = q\<lparr>tasks := tasks q @ [(j, Pending)]\<rparr>"

fun tp_submit_step ::
    "bool \<Rightarrow> tid \<Rightarrow> 'j tpool \<Rightarrow> 'j tpool_pc \<Rightarrow> ('j tpool \<times> 'j tpool_pc \<times> unit notice) option" where
  "tp_submit_step ok i q (SubmitCheck j) =
     Some (q, if disposed q then submit_ret (Inl ResourceUnavailable) else ReapAt ReapLock j, Quiet)"
| "tp_submit_step ok i q (SubmitSeq j) = Some (q\<lparr>seqno := (seqno q + 1) mod usize_mod\<rparr>, SubmitSpawn j, Quiet)"
| "tp_submit_step ok i q (SubmitSpawn j) =
     (if ok then Some (spawn j q, PushLock (length (tasks q)), Quiet)
      else Some (q, ReleaseAt RelLock AfterSpawn, Quiet))"
| "tp_submit_step ok i q (PushLock k) = lock_handles i q (PushHandle k)"
| "tp_submit_step ok i q (PushHandle k) =
     Some (q\<lparr>handles := handles q @ [k], handles_owner := None\<rparr>, submit_ret (Inr ()), Quiet)"
| "tp_submit_step ok i q p = None"

text \<open>
  The closure: the thread starts, runs the job (any code, which returns or unwinds) with the
  guard alive, drops the guard either way, and ends. A call of \<open>Worker k\<close> for a closure
  that is not waiting to start does nothing.
\<close>

fun task_step :: "'j tpool \<Rightarrow> 'j tpool_pc \<Rightarrow> ('j tpool \<times> 'j tpool_pc \<times> unit notice) option" where
  "task_step q (TaskStart k) =
     (if k < length (tasks q) \<and> snd (tasks q ! k) = Pending
      then Some (set_status k Running q, TaskRun k, Quiet)
      else Some (q, TDone WorkerRes, Quiet))"
| "task_step q (TaskRun k) = Some (q, ReleaseAt RelLock (AfterTask k), Quiet)"
| "task_step q (TaskExit k) = Some (set_status k Finished q, TDone WorkerRes, Quiet)"
| "task_step q p = None"

section \<open>Dispose\<close>

fun tp_dispose_step :: "tid \<Rightarrow> 'j tpool \<Rightarrow> tp_dispose_point \<Rightarrow> ('j tpool \<times> 'j tpool_pc \<times> unit notice) option" where
  "tp_dispose_step i q DisposeCas =
     (if disposed q then Some (q, TDone (ClientRes DisposeDone), Quiet)
      else Some (q\<lparr>disposed := True\<rparr>, DisposeAt DisposeLock, Quiet))"
| "tp_dispose_step i q DisposeLock = lock_count i q (DisposeAt DisposeUnlock)"
| "tp_dispose_step i q DisposeUnlock = Some (q\<lparr>count_owner := None\<rparr>, DisposeAt DisposeNotify, Quiet)"
| "tp_dispose_step i q DisposeNotify = Some (q, DisposeAt DrainLock, WakeAll ())"
| "tp_dispose_step i q DrainLock = lock_handles i q (DisposeAt Drain)"
| "tp_dispose_step i q Drain =
     Some (q\<lparr>handles := [], handles_owner := None\<rparr>, DisposeAt (Join (handles q)), Quiet)"
| "tp_dispose_step i q (Join ks) =
     (case ks of
        [] \<Rightarrow> Some (q, TDone (ClientRes DisposeDone), Quiet)
      | k # rest \<Rightarrow> if is_finished q k then Some (q, DisposeAt (Join rest), Quiet) else None)"

section \<open>The machine\<close>

fun tpool_advance ::
    "(tid \<Rightarrow> nat \<Rightarrow> bool) \<Rightarrow> tid \<Rightarrow> nat \<Rightarrow> 'j tpool \<Rightarrow> 'j tpool_pc \<Rightarrow> ('j tpool \<times> 'j tpool_pc \<times> unit notice) option" where
  "tpool_advance ok i t q (ReapAt pt j) = reap_step i q pt j"
| "tpool_advance ok i t q (AcquireAt pt j) = acquire_step i q pt j"
| "tpool_advance ok i t q (ReleaseAt pt who) = tp_release_step i q pt who"
| "tpool_advance ok i t q (TaskStart k) = task_step q (TaskStart k)"
| "tpool_advance ok i t q (TaskRun k) = task_step q (TaskRun k)"
| "tpool_advance ok i t q (TaskExit k) = task_step q (TaskExit k)"
| "tpool_advance ok i t q (DisposeAt pt) = tp_dispose_step i q pt"
| "tpool_advance ok i t q IsDisposedAt = Some (q, TDone (ClientRes (DisposedRes (disposed q))), Quiet)"
| "tpool_advance ok i t q CountLock = count_step i q False"
| "tpool_advance ok i t q CountRead = count_step i q True"
| "tpool_advance ok i t q p = tp_submit_step (ok i t) i q p"

fun tpool_entry :: "'j pool_op \<Rightarrow> 'j tpool_pc" where
  "tpool_entry (Client (Submit j)) = SubmitCheck j"
| "tpool_entry (Client Dispose) = DisposeAt DisposeCas"
| "tpool_entry (Client IsDisposed) = IsDisposedAt"
| "tpool_entry (Client WorkerCount) = CountLock"
| "tpool_entry (Worker k) = TaskStart k"

fun tpool_resting :: "'j tpool_pc \<Rightarrow> bool" where
  "tpool_resting TIdle = True"
| "tpool_resting (TDone r) = True"
| "tpool_resting p = False"

fun tpool_dozing :: "'j tpool_pc \<Rightarrow> unit option" where
  "tpool_dozing (AcquireAt AcqAsleep j) = Some ()"
| "tpool_dozing p = None"

fun tpool_rouse :: "'j tpool_pc \<Rightarrow> 'j tpool_pc" where
  "tpool_rouse (AcquireAt pt j) = AcquireAt AcqWoken j"
| "tpool_rouse p = p"

definition tpool_machine ::
    "(tid \<Rightarrow> nat \<Rightarrow> bool) \<Rightarrow> ('j pool_op, 'j tpool, 'j tpool_pc, unit) machine" where
  "tpool_machine ok = \<lparr>entry = tpool_entry, resting = tpool_resting, advance = tpool_advance ok,
     dozing = tpool_dozing, rouse = tpool_rouse\<rparr>"

lemma tpool_machine_simps [simp]:
  "entry (tpool_machine ok) = tpool_entry" "resting (tpool_machine ok) = tpool_resting"
  "advance (tpool_machine ok) = tpool_advance ok" "dozing (tpool_machine ok) = tpool_dozing"
  "rouse (tpool_machine ok) = tpool_rouse"
  by (simp_all add: tpool_machine_def)

definition tpool_start :: "nat \<Rightarrow> nat \<Rightarrow> ('j pool_op, 'j tpool, 'j tpool_pc) sys" where
  "tpool_start limit n = boot (tpool_new limit) TIdle n"

end
