(* ===== verification/TaskPoolInv.thy ===== *)
theory TaskPoolInv
  imports TaskPool
begin

text \<open>
  Invariants of the thread-per-task pool under any schedule: the two mutexes, what holds at
  each program point, the ledgers of the thread count and of every running task, and that a
  thread that has not ended has its handle somewhere.
\<close>

lemmas tpool_locks = lock_count_def lock_handles_def submit_ret_def
lemmas tpool_defs = tpool_locks set_status_def spawn_def

section \<open>Case analysis and the machine rules\<close>

fun_cases acquire_stepE: "acquire_step i q pt j = Some (q', p', nt)"
fun_cases tp_release_stepE: "tp_release_step i q pt who = Some (q', p', nt)"
fun_cases count_stepE: "count_step i q b = Some (q', p', nt)"
fun_cases reap_stepE: "reap_step i q pt j = Some (q', p', nt)"
fun_cases tp_submit_stepE: "tp_submit_step ok i q p = Some (q', p', nt)"
fun_cases task_stepE: "task_step q p = Some (q', p', nt)"
fun_cases tp_dispose_stepE: "tp_dispose_step i q pt = Some (q', p', nt)"

lemmas tpool_elims = acquire_stepE tp_release_stepE count_stepE reap_stepE tp_submit_stepE task_stepE
  tp_dispose_stepE

lemma tpool_step_cases [consumes 1, case_names Reap Acquire Release Task Dispose Disposed Count Submit]:
  assumes "tpool_advance ok i t q p = Some (q', p', nt)"
  obtains pt j where "p = ReapAt pt j" "reap_step i q pt j = Some (q', p', nt)"
  | pt j where "p = AcquireAt pt j" "acquire_step i q pt j = Some (q', p', nt)"
  | pt who where "p = ReleaseAt pt who" "tp_release_step i q pt who = Some (q', p', nt)"
  | "task_step q p = Some (q', p', nt)"
  | pt where "p = DisposeAt pt" "tp_dispose_step i q pt = Some (q', p', nt)"
  | "p = IsDisposedAt" "q' = q" "p' = TDone (ClientRes (DisposedRes (disposed q)))" "nt = Quiet"
  | b where "p = (if b then CountRead else CountLock)" "count_step i q b = Some (q', p', nt)"
  | "tp_submit_step (ok i t) i q p = Some (q', p', nt)"
proof (cases p)
  case (ReapAt pt j) then show thesis using assms that(1) [of pt j] by simp
next
  case (AcquireAt pt j) then show thesis using assms that(2) [of pt j] by simp
next
  case (ReleaseAt pt who) then show thesis using assms that(3) [of pt who] by simp
next
  case (DisposeAt pt) then show thesis using assms that(5) [of pt] by simp
next
  case IsDisposedAt then show thesis using assms that(6) by auto
next
  case CountLock then show thesis using assms that(7) [of False] by simp
next
  case CountRead then show thesis using assms that(7) [of True] by simp
next
  case (TaskStart k) then show thesis using assms that(4) by simp
next
  case (TaskRun k) then show thesis using assms that(4) by simp
next
  case (TaskExit k) then show thesis using assms that(4) by simp
qed (use assms that(8) in \<open>simp_all only: tpool_advance.simps\<close>)

interpretation tpool: machine_rules "tpool_machine ok" for ok
proof
  fix op :: "'j pool_op" and p p' :: "'j tpool_pc" and i t q q' nt
  let ?M = "tpool_machine ok"
  show "dozing ?M (entry ?M op) = None" by (cases op rule: tpool_entry.cases) auto
  show "resting ?M p \<Longrightarrow> advance ?M i t q p = None" by (cases p) auto
  show "resting ?M p \<Longrightarrow> dozing ?M p = None" by (cases p) auto
  show "dozing ?M p \<noteq> None \<Longrightarrow> advance ?M i t q p = None" by (cases p rule: tpool_dozing.cases) auto
  show "dozing ?M p \<noteq> None \<Longrightarrow> dozing ?M (rouse ?M p) = None" by (cases p rule: tpool_dozing.cases) auto
  assume "advance ?M i t q p = Some (q', p', nt)"
  then have "tpool_advance ok i t q p = Some (q', p', nt)" by simp
  then show "dozing ?M p' \<noteq> None \<Longrightarrow> nt = Quiet"
    by (cases rule: tpool_step_cases; (elim tpool_elims)?;
        auto simp: tpool_defs split: if_splits list.splits elim: release_next.elims)
qed

section \<open>The two mutexes\<close>

fun holds_count :: "'j tpool_pc \<Rightarrow> bool" where
  "holds_count (AcquireAt pt j) = (pt \<noteq> AcqLock \<and> pt \<noteq> AcqAsleep \<and> pt \<noteq> AcqWoken)"
| "holds_count (ReleaseAt pt who) = (pt \<noteq> RelLock)"
| "holds_count (DisposeAt pt) = (pt = DisposeUnlock)"
| "holds_count CountRead = True"
| "holds_count p = False"

fun holds_handles :: "'j tpool_pc \<Rightarrow> bool" where
  "holds_handles (ReapAt pt j) = (pt \<noteq> ReapLock)"
| "holds_handles (PushHandle k) = True"
| "holds_handles (DisposeAt pt) = (pt = Drain)"
| "holds_handles p = False"

lemma tpool_entry_free [simp]: "\<not> holds_count (tpool_entry op)" "\<not> holds_handles (tpool_entry op)"
  by (cases op rule: tpool_entry.cases; simp)+

lemma release_next_free [simp]: "\<not> holds_count (release_next who)" "\<not> holds_handles (release_next who)"
  "tpool_dozing (release_next who) = None"
  by (cases who; simp add: submit_ret_def)+

lemma tpool_lock_step:
  assumes "tpool_advance ok i t q p = Some (q', p', nt)"
  shows "holds_count p \<longleftrightarrow> count_owner q = Some i \<Longrightarrow>
      (count_owner q' = count_owner q \<and> holds_count p' = holds_count p)
      \<or> (count_owner q = None \<and> count_owner q' = Some i \<and> holds_count p')
      \<or> (count_owner q = Some i \<and> count_owner q' = None \<and> \<not> holds_count p')"
    and "holds_handles p \<longleftrightarrow> handles_owner q = Some i \<Longrightarrow>
      (handles_owner q' = handles_owner q \<and> holds_handles p' = holds_handles p)
      \<or> (handles_owner q = None \<and> handles_owner q' = Some i \<and> holds_handles p')
      \<or> (handles_owner q = Some i \<and> handles_owner q' = None \<and> \<not> holds_handles p')"
  using assms
  by (cases rule: tpool_step_cases; (elim tpool_elims)?;
      auto simp: tpool_defs split: if_splits list.splits elim: release_next.elims)+

lemma tpool_quiet_locks:
  "tpool_resting p \<Longrightarrow> \<not> holds_count p \<and> \<not> holds_handles p"
  "tpool_dozing p \<noteq> None \<Longrightarrow> \<not> holds_count p \<and> \<not> holds_count (tpool_rouse p)
    \<and> \<not> holds_handles p \<and> \<not> holds_handles (tpool_rouse p)"
  by (cases p; simp) (cases p rule: tpool_dozing.cases; simp)

interpretation count_mutex: mutex "tpool_machine ok" count_owner holds_count for ok
proof
  fix op :: "'j pool_op" and p p' :: "'j tpool_pc" and i t q q' nt
  let ?M = "tpool_machine ok"
  show "\<not> holds_count (entry ?M op)" by simp
  show "resting ?M p \<Longrightarrow> \<not> holds_count p" by (simp add: tpool_quiet_locks)
  show "dozing ?M p \<noteq> None \<Longrightarrow> \<not> holds_count p \<and> \<not> holds_count (rouse ?M p)"
    using tpool_quiet_locks(2) [of p] by simp
  show "advance ?M i t q p = Some (q', p', nt) \<Longrightarrow> holds_count p = (count_owner q = Some i) \<Longrightarrow>
      (count_owner q' = count_owner q \<and> holds_count p' = holds_count p)
      \<or> (count_owner q = None \<and> count_owner q' = Some i \<and> holds_count p')
      \<or> (count_owner q = Some i \<and> count_owner q' = None \<and> \<not> holds_count p')"
    using tpool_lock_step(1) [of ok i t q p] by simp
qed

interpretation handles_mutex: mutex "tpool_machine ok" handles_owner holds_handles for ok
proof
  fix op :: "'j pool_op" and p p' :: "'j tpool_pc" and i t q q' nt
  let ?M = "tpool_machine ok"
  show "\<not> holds_handles (entry ?M op)" by simp
  show "resting ?M p \<Longrightarrow> \<not> holds_handles p" by (simp add: tpool_quiet_locks)
  show "dozing ?M p \<noteq> None \<Longrightarrow> \<not> holds_handles p \<and> \<not> holds_handles (rouse ?M p)"
    using tpool_quiet_locks(2) [of p] by simp
  show "advance ?M i t q p = Some (q', p', nt) \<Longrightarrow> holds_handles p = (handles_owner q = Some i) \<Longrightarrow>
      (handles_owner q' = handles_owner q \<and> holds_handles p' = holds_handles p)
      \<or> (handles_owner q = None \<and> handles_owner q' = Some i \<and> holds_handles p')
      \<or> (handles_owner q = Some i \<and> handles_owner q' = None \<and> \<not> holds_handles p')"
    using tpool_lock_step(2) [of ok i t q p] by simp
qed

section \<open>The ledgers\<close>

text \<open>
  The count is the closures waiting to start plus the threads that hold a place: a submit
  between its increment and its spawn, a running task until its decrement.
\<close>

definition waiting_tasks :: "'j tpool \<Rightarrow> nat" where
  "waiting_tasks q = tally (\<lambda>x. of_bool (snd x = Pending)) (tasks q)"

fun place :: "'j tpool_pc \<Rightarrow> nat" where
  "place (SubmitSeq j) = 1"
| "place (SubmitSpawn j) = 1"
| "place (ReleaseAt pt who) = of_bool (pt = RelLock \<or> pt = RelDec)"
| "place (TaskRun k) = 1"
| "place p = 0"

text \<open>Task \<open>k\<close> is running exactly while one thread is inside its closure.\<close>

definition task_running :: "nat \<Rightarrow> 'j tpool \<Rightarrow> nat" where
  "task_running k q = (if k < length (tasks q) \<and> snd (tasks q ! k) = Running then 1 else 0)"

fun inside_task :: "nat \<Rightarrow> 'j tpool_pc \<Rightarrow> nat" where
  "inside_task k (TaskRun k') = of_bool (k' = k)"
| "inside_task k (ReleaseAt pt who) = of_bool (who = AfterTask k)"
| "inside_task k (TaskExit k') = of_bool (k' = k)"
| "inside_task k (TPanicked who) = of_bool (who = AfterTask k)"
| "inside_task k p = 0"

lemma release_next_share [simp]: "place (release_next who) = 0"
  "inside_task k (release_next who) = of_bool (who = AfterTask k)"
  by (cases who; simp add: submit_ret_def)+

lemma waiting_tasks_update:
  "k < length (tasks q) \<Longrightarrow>
    waiting_tasks (set_status k st q) + of_bool (snd (tasks q ! k) = Pending)
      = waiting_tasks q + of_bool (st = Pending)"
  using tally_update [of k "tasks q" "\<lambda>x. of_bool (snd x = Pending)" "(fst (tasks q ! k), st)"]
  by (simp add: waiting_tasks_def set_status_def)

lemma running_step:
  assumes "tpool_advance ok i t q p = Some (q', p', nt)" and "inside_task k p \<le> task_running k q"
  shows "task_running k q' + inside_task k p = task_running k q + inside_task k p'"
  using assms
  by (cases rule: tpool_step_cases; (elim tpool_elims)?;
      auto simp: tpool_defs task_running_def nth_append nth_list_update split: if_splits list.splits
        elim: release_next.elims)

interpretation running: ledger "tpool_machine ok" "\<lambda>_. True" "task_running k" "\<lambda>_. 0" "inside_task k" for ok k
proof
  fix op :: "'j pool_op" and p p' :: "'j tpool_pc" and i q' nt and s :: "('j pool_op, 'j tpool, 'j tpool_pc) sys"
  let ?M = "tpool_machine ok"
  show "inside_task k (entry ?M op) = 0" by (cases op rule: tpool_entry.cases) auto
  show "resting ?M p \<Longrightarrow> inside_task k p = 0" by (cases p) auto
  show "dozing ?M p \<noteq> None \<Longrightarrow> inside_task k (rouse ?M p) = inside_task k p"
    by (cases p rule: tpool_dozing.cases) auto
  assume "advance ?M i (now s) (shared s) (pc (threads s ! i)) = Some (q', p', nt)"
    and "0 + inside_task k (pc (threads s ! i)) \<le> task_running k (shared s)"
  then show "task_running k q' + 0 + inside_task k (pc (threads s ! i))
      = task_running k (shared s) + 0 + inside_task k p'"
    using running_step [of ok i "now s" "shared s" "pc (threads s ! i)" q' p' nt k] by simp
qed

lemma count_step_balance:
  assumes "tpool_advance ok i t q p = Some (q', p', nt)" and "waiting_tasks q + place p \<le> thread_count q"
    and "\<And>k. inside_task k p \<le> task_running k q"
  shows "thread_count q' + waiting_tasks q + place p = thread_count q + waiting_tasks q' + place p'"
proof (cases "\<exists>k. p = TaskStart k \<or> p = TaskExit k")
  case True
  then obtain k where "p = TaskStart k \<or> p = TaskExit k" by blast
  with assms(1) assms(3) [of k] waiting_tasks_update [of k q Running] waiting_tasks_update [of k q Finished]
  show ?thesis by (auto simp: task_running_def set_status_def split: if_splits)
next
  case False
  with assms(1,2) show ?thesis
    by (cases rule: tpool_step_cases; (elim tpool_elims)?;
        auto simp: tpool_defs waiting_tasks_def split: if_splits list.splits elim: release_next.elims)
qed

definition all_running :: "('j pool_op, 'j tpool, 'j tpool_pc) sys \<Rightarrow> bool" where
  "all_running s \<longleftrightarrow> (\<forall>k. task_running k (shared s) = weight (inside_task k) (threads s))"

lemma all_running_at:
  "all_running s \<Longrightarrow> i < length (threads s) \<Longrightarrow> inside_task k (pc (threads s ! i)) \<le> task_running k (shared s)"
  using weight_member [of i "threads s" "inside_task k"] by (simp add: all_running_def)

lemma all_running_exec:
  "all_running s \<Longrightarrow> exec (tpool_machine ok) l s = Some t \<Longrightarrow> all_running t"
  unfolding all_running_def using running.exec_balanced [OF TrueI, of ok l s t] by (simp add: running.balanced_def)

interpretation places: ledger "tpool_machine ok" all_running thread_count waiting_tasks place for ok
proof
  fix op :: "'j pool_op" and p p' :: "'j tpool_pc" and i q' nt and s :: "('j pool_op, 'j tpool, 'j tpool_pc) sys"
  let ?M = "tpool_machine ok"
  show "place (entry ?M op) = 0" by (cases op rule: tpool_entry.cases) auto
  show "resting ?M p \<Longrightarrow> place p = 0" by (cases p) auto
  show "dozing ?M p \<noteq> None \<Longrightarrow> place (rouse ?M p) = place p"
    by (cases p rule: tpool_dozing.cases) auto
  assume "all_running s" and "i < length (threads s)"
    and "advance ?M i (now s) (shared s) (pc (threads s ! i)) = Some (q', p', nt)"
    and "waiting_tasks (shared s) + place (pc (threads s ! i)) \<le> thread_count (shared s)"
  with all_running_at [of s i]
    count_step_balance [of ok i "now s" "shared s" "pc (threads s ! i)" q' p' nt]
  show "thread_count q' + waiting_tasks (shared s) + place (pc (threads s ! i))
      = thread_count (shared s) + waiting_tasks q' + place p'"
    by simp
qed

section \<open>What holds at each program point\<close>

fun tpool_point :: "'j tpool \<Rightarrow> 'j tpool_pc \<Rightarrow> bool" where
  "tpool_point q (AcquireAt pt j) =
     (case pt of
        AcqLock \<Rightarrow> True
      | AcqDoze \<Rightarrow> 0 < max_threads q \<and> max_threads q \<le> thread_count q
      | AcqFlag \<Rightarrow> max_threads q = 0 \<or> disposed q \<or> thread_count q < max_threads q
      | AcqFail \<Rightarrow> disposed q
      | AcqBump \<Rightarrow> max_threads q = 0 \<or> thread_count q < max_threads q
      | _ \<Rightarrow> 0 < max_threads q)"
| "tpool_point q p = True"

definition within_limit :: "'j tpool \<Rightarrow> bool" where
  "within_limit q \<longleftrightarrow> (max_threads q = 0 \<or> thread_count q \<le> max_threads q)"

lemma release_next_point [simp]: "tpool_point q (release_next who)"
  by (cases who) (simp_all add: submit_ret_def)

lemma tpool_point_step:
  assumes "tpool_advance ok i t q p = Some (q', p', nt)" and "within_limit q" and "tpool_point q p"
  shows "within_limit q' \<and> tpool_point q' p'"
  using assms
  by (cases rule: tpool_step_cases; (elim tpool_elims)?;
      auto simp: tpool_defs within_limit_def split: if_splits list.splits elim: release_next.elims)

text \<open>What no action changes, and what only the owner of the count changes.\<close>

lemma set_status_simps [simp]:
  "map fst (tasks (set_status k st q)) = map fst (tasks q)"
  "max_threads (set_status k st q) = max_threads q" "disposed (set_status k st q) = disposed q"
  "thread_count (set_status k st q) = thread_count q"
  by (auto simp: set_status_def intro!: nth_equalityI) (metis fst_conv nth_list_update_eq nth_list_update_neq)

lemma spawn_simps [simp]:
  "map fst (tasks (spawn j q)) = map fst (tasks q) @ [j]"
  "max_threads (spawn j q) = max_threads q" "disposed (spawn j q) = disposed q"
  "thread_count (spawn j q) = thread_count q"
  by (simp_all add: spawn_def)

lemma tpool_frame:
  assumes "tpool_advance ok i t q p = Some (q', p', nt)"
  shows "max_threads q' = max_threads q \<and> (disposed q \<longrightarrow> disposed q')
      \<and> (\<not> holds_count p \<longrightarrow> thread_count q' = thread_count q)"
    and "map fst (tasks q') = map fst (tasks q) \<or> (\<exists>j. map fst (tasks q') = map fst (tasks q) @ [j])"
  using assms
  by (cases rule: tpool_step_cases; (elim tpool_elims)?;
      auto simp: tpool_locks split: if_splits list.splits)+

lemma tpool_jobs:
  "tpool_advance ok i t q p = Some (q', p', nt) \<Longrightarrow> \<exists>xs. map fst (tasks q') = map fst (tasks q) @ xs"
  using tpool_frame(2) by (metis append_Nil2)

lemma tpool_point_frame:
  assumes "max_threads q' = max_threads q" "disposed q \<Longrightarrow> disposed q'"
    and "thread_count q' = thread_count q \<or> \<not> holds_count p" and "tpool_point q p"
  shows "tpool_point q' p"
  using assms by (cases p) (auto split: acquire_point.splits)

section \<open>Operations and results\<close>

text \<open>A submit that reports success has spawned a thread for its job.\<close>

definition has_task :: "'j tpool \<Rightarrow> nat \<Rightarrow> 'j \<Rightarrow> bool" where
  "has_task q k j \<longleftrightarrow> k < length (tasks q) \<and> map fst (tasks q) ! k = j"

fun tpool_answers :: "'j tpool \<Rightarrow> 'j pool_op \<Rightarrow> pool_res \<Rightarrow> bool" where
  "tpool_answers q (Client (Submit j)) r =
     ((r = ClientRes (SubmitRes (Inr ())) \<and> (\<exists>k. has_task q k j))
      \<or> (r = ClientRes (SubmitRes (Inl ResourceUnavailable)) \<and> disposed q)
      \<or> r = ClientRes (SubmitRes (Inl Failed)))"
| "tpool_answers q (Client Dispose) r = (r = ClientRes DisposeDone \<and> disposed q)"
| "tpool_answers q (Client IsDisposed) r = (\<exists>b. r = ClientRes (DisposedRes b))"
| "tpool_answers q (Client WorkerCount) r = (\<exists>n. r = ClientRes (CountRes n))"
| "tpool_answers q (Worker k) r = (r = WorkerRes)"

fun tpool_of :: "'j tpool \<Rightarrow> 'j pool_op \<Rightarrow> 'j tpool_pc \<Rightarrow> bool" where
  "tpool_of q op (TDone r) = tpool_answers q op r"
| "tpool_of q op (SubmitCheck j) = (op = Client (Submit j))"
| "tpool_of q op (ReapAt pt j) = (op = Client (Submit j))"
| "tpool_of q op (AcquireAt pt j) = (op = Client (Submit j))"
| "tpool_of q op (SubmitSeq j) = (op = Client (Submit j))"
| "tpool_of q op (SubmitSpawn j) = (op = Client (Submit j))"
| "tpool_of q op (PushLock k) = (\<exists>j. op = Client (Submit j) \<and> has_task q k j)"
| "tpool_of q op (PushHandle k) = (\<exists>j. op = Client (Submit j) \<and> has_task q k j)"
| "tpool_of q op (ReleaseAt pt who) =
     (case who of AfterTask k \<Rightarrow> op = Worker k | AfterSpawn \<Rightarrow> \<exists>j. op = Client (Submit j))"
| "tpool_of q op (TaskStart k) = (op = Worker k)"
| "tpool_of q op (TaskRun k) = (op = Worker k)"
| "tpool_of q op (TaskExit k) = (op = Worker k)"
| "tpool_of q op (DisposeAt pt) = (op = Client Dispose \<and> (pt = DisposeCas \<or> disposed q))"
| "tpool_of q op IsDisposedAt = (op = Client IsDisposed)"
| "tpool_of q op CountLock = (op = Client WorkerCount)"
| "tpool_of q op CountRead = (op = Client WorkerCount)"
| "tpool_of q op p = True"

lemma has_task_mono: "map fst (tasks q') = map fst (tasks q) @ xs \<Longrightarrow> has_task q k j \<Longrightarrow> has_task q' k j"
  unfolding has_task_def by (metis length_append length_map nth_append trans_less_add1)

lemma has_task_spawn [simp]: "has_task (spawn j q) (length (tasks q)) j"
  by (simp add: has_task_def spawn_def nth_append)

lemma tpool_of_frame:
  assumes "map fst (tasks q') = map fst (tasks q) @ xs" "disposed q \<Longrightarrow> disposed q'" and "tpool_of q op p"
  shows "tpool_of q' op p"
proof (cases p)
  case (TDone r)
  with assms has_task_mono [OF assms(1)] show ?thesis by (cases op rule: tpool_entry.cases) auto
qed (use assms has_task_mono [OF assms(1)] in auto)

lemma tpool_of_step:
  assumes adv: "tpool_advance ok i t q p = Some (q', p', nt)" and "tpool_point q p" and of: "tpool_of q op p"
  shows "tpool_of q' op p'"
proof -
  obtain xs where "map fst (tasks q') = map fst (tasks q) @ xs" using tpool_jobs [OF adv] by blast
  then have stays: "tpool_of q' op p" using tpool_of_frame tpool_frame(1) [OF adv] of by blast
  show ?thesis
  proof (cases "\<exists>who. p = ReleaseAt RelUnlock who")
    case True
    then obtain who where "p = ReleaseAt RelUnlock who" by blast
    with adv of show ?thesis by (cases who) (auto simp: submit_ret_def)
  next
    case False
    with adv assms(2) stays of show ?thesis
      by (cases rule: tpool_step_cases; (elim tpool_elims)?;
          auto simp: tpool_locks split: if_splits list.splits)
  qed
qed

definition tpool_ok :: "tid \<Rightarrow> nat \<Rightarrow> 'j tpool \<Rightarrow> ('j pool_op, 'j tpool_pc) thread \<Rightarrow> bool" where
  "tpool_ok i t q th \<longleftrightarrow> owns count_owner holds_count i t q th \<and> owns handles_owner holds_handles i t q th
     \<and> tpool_point q (pc th) \<and> (pc th = TIdle \<or> (\<exists>op. cur th = Some op \<and> tpool_of q op (pc th)))"

interpretation tpool_ok: guarded "tpool_machine ok" within_limit tpool_ok for ok
proof
  fix q q' :: "'j tpool" and i j t d p nt op and th th' :: "('j pool_op, 'j tpool_pc) thread"
  let ?M = "tpool_machine ok"
  show "tpool_ok i t q th \<Longrightarrow> resting ?M (pc th) \<Longrightarrow>
      tpool_ok i t q \<lparr>cur = Some op, called = t, pc = entry ?M op\<rparr>"
    using tpool_quiet_locks(1) [of "pc th"]
    by (cases op rule: tpool_entry.cases) (auto simp: tpool_ok_def owns_def)
  show "tpool_ok i t q th \<Longrightarrow> dozing ?M (pc th) \<noteq> None \<Longrightarrow> tpool_ok i t q (th\<lparr>pc := rouse ?M (pc th)\<rparr>)"
    by (cases "pc th" rule: tpool_dozing.cases) (auto simp: tpool_ok_def owns_def)
  assume lim: "within_limit q" and me: "tpool_ok i t q th" and adv: "advance ?M i t q (pc th) = Some (q', p, nt)"
  then have adv': "tpool_advance ok i t q (pc th) = Some (q', p, nt)" by simp
  from me have own: "owns count_owner holds_count i t q th" "owns handles_owner holds_handles i t q th"
    by (simp_all add: tpool_ok_def)
  have busy: "pc th \<noteq> TIdle" using adv by auto
  from me lim tpool_point_step [OF adv'] have "within_limit q' \<and> tpool_point q' p" by (simp add: tpool_ok_def)
  with me busy tpool_of_step [OF adv'] count_mutex.step_ok [OF TrueI own(1) adv]
    handles_mutex.step_ok [OF TrueI own(2) adv]
  show "within_limit q' \<and> tpool_ok i t q' (th\<lparr>pc := p\<rparr>)" by (auto simp: tpool_ok_def)
  assume ne: "j \<noteq> i" and other: "tpool_ok j t q th'"
  obtain xs where xs: "map fst (tasks q') = map fst (tasks q) @ xs" using tpool_jobs [OF adv'] by blast
  have "thread_count q' = thread_count q \<or> \<not> holds_count (pc th')"
    using tpool_frame(1) [OF adv'] own(1) other ne by (auto simp: tpool_ok_def owns_def)
  then have "tpool_point q' (pc th')"
    using tpool_point_frame [of q' q "pc th'"] tpool_frame(1) [OF adv'] other by (simp add: tpool_ok_def)
  moreover have "tpool_of q' op (pc th')" if "tpool_of q op (pc th')" for op
    using tpool_of_frame [OF xs] tpool_frame(1) [OF adv'] that by blast
  ultimately show "tpool_ok j t q' th'"
    using other count_mutex.frame_ok [OF TrueI own(1) adv ne] handles_mutex.frame_ok [OF TrueI own(2) adv ne]
    by (auto simp: tpool_ok_def)
qed (simp_all add: tpool_ok_def owns_def)

section \<open>Every live thread has its handle somewhere\<close>

fun carried :: "'j tpool_pc \<Rightarrow> nat list" where
  "carried (PushLock k) = [k]"
| "carried (PushHandle k) = [k]"
| "carried (DisposeAt (Join ks)) = ks"
| "carried p = []"

definition carries :: "nat \<Rightarrow> 'j tpool_pc \<Rightarrow> nat" where
  "carries k p = of_bool (k \<in> set (carried p))"

definition handles_kept :: "('j pool_op, 'j tpool, 'j tpool_pc) sys \<Rightarrow> bool" where
  "handles_kept s \<longleftrightarrow> (\<forall>k. is_finished (shared s) k \<or> k \<in> set (handles (shared s))
     \<or> 0 < weight (carries k) (threads s))"

lemma swap_remove_keeps:
  assumes "k \<in> set xs" and "n < length xs" and "xs ! n \<noteq> k"
  shows "k \<in> set (swap_remove n xs)"
proof -
  obtain ys y where xs: "xs = ys @ [y]" using assms(2) by (cases xs rule: rev_cases) auto
  show ?thesis
  proof (cases "n < length ys")
    case True
    have "k = y \<or> k \<in> set (ys[n := y])"
    proof (cases "k = y")
      case False
      then obtain m where "m < length ys" "ys ! m = k"
        using assms(1) xs by (auto simp: in_set_conv_nth)
      moreover have "m \<noteq> n" using calculation assms(3) xs True by (auto simp: nth_append)
      ultimately show ?thesis by (metis length_list_update nth_list_update_neq nth_mem)
    qed simp
    with xs True show ?thesis by (auto simp: swap_remove_def set_update_memI)
  next
    case False
    with assms xs show ?thesis by (auto simp: swap_remove_def nth_append list_update_beyond split: if_splits)
  qed
qed

lemma snd_update_nth: "snd (xs[m := (a, b)] ! k) = (if k = m \<and> k < length xs then b else snd (xs ! k))"
  by (cases "m < length xs") (auto simp: nth_list_update list_update_beyond)

lemma handles_step:
  assumes "tpool_advance ok i t q p = Some (q', p', nt)" and "\<not> is_finished q' k"
  shows "carries k p' = 1 \<or> k \<in> set (handles q')
    \<or> (\<not> is_finished q k \<and> carries k p = 0 \<and> k \<notin> set (handles q))"
proof (cases "\<exists>n j. p = ReapAt (ReapLoop n) j")
  case True
  then obtain n j where p: "p = ReapAt (ReapLoop n) j" by blast
  with assms swap_remove_keeps [of k "handles q" n] show ?thesis
    by (cases "handles q ! n = k") (auto simp: is_finished_def carries_def split: if_splits)
next
  case False
  with assms show ?thesis
    by (cases rule: tpool_step_cases; (elim tpool_elims)?;
        auto simp: tpool_defs carries_def is_finished_def nth_append snd_update_nth
          split: if_splits list.splits)
qed

lemma handles_kept_exec:
  assumes ex: "exec (tpool_machine ok) l s = Some t" and kept: "handles_kept s"
  shows "handles_kept t"
  using ex
proof (cases rule: exec_cases)
  case (Call i op)
  have "carried (tpool_entry op) = []" by (cases op rule: tpool_entry.cases) auto
  moreover have "carried (pc (threads s ! i)) = []" using Call(3) by (cases "pc (threads s ! i)") auto
  ultimately show ?thesis
    using Call kept by (simp add: handles_kept_def weight_update_same carries_def)
next
  case (Run i ks q p nt us)
  let ?o = "pc (threads s ! i)" and ?mid = "(threads s)[i := (threads s ! i)\<lparr>pc := p\<rparr>]"
  show ?thesis
    unfolding handles_kept_def
  proof (intro allI)
    fix k
    have "weight (carries k) us = weight (carries k) ?mid"
      using Run(4) by (rule weight_deliver_same) (auto simp: carries_def elim!: tpool_dozing.elims)
    moreover have "weight (carries k) ?mid + carries k ?o = weight (carries k) (threads s) + carries k p"
      using weight_update [OF Run(2), of "carries k" "(threads s ! i)\<lparr>pc := p\<rparr>"] by simp
    moreover have "carries k p \<le> weight (carries k) us"
      using deliver_length [OF Run(4)] calculation weight_member [OF Run(2), of "carries k"] by simp
    ultimately show "is_finished (shared t) k \<or> k \<in> set (handles (shared t)) \<or> 0 < weight (carries k) (threads t)"
      using handles_step [of ok i "now s" "shared s" ?o q p nt k] Run kept
      by (auto simp: handles_kept_def)
  qed
next
  case (Spurious i)
  have "carries k (tpool_rouse (pc (threads s ! i))) = carries k (pc (threads s ! i))" for k
    using Spurious(3) by (auto simp: carries_def elim!: tpool_dozing.elims)
  with Spurious kept show ?thesis by (simp add: handles_kept_def weight_update_same)
qed (use kept in \<open>simp add: handles_kept_def\<close>)

section \<open>The invariant\<close>

definition tpool_inv :: "('j pool_op, 'j tpool, 'j tpool_pc) sys \<Rightarrow> bool" where
  "tpool_inv s \<longleftrightarrow> within_limit (shared s) \<and> all_threads tpool_ok s \<and> all_running s \<and> places.balanced s
     \<and> handles_kept s \<and> (\<forall>i < length (threads s). \<forall>who. pc (threads s ! i) \<noteq> TPanicked who)
     \<and> (\<forall>j. count_owner (shared s) = Some j \<longrightarrow> j < length (threads s))
     \<and> (\<forall>j. handles_owner (shared s) = Some j \<longrightarrow> j < length (threads s))"

lemma tpool_inv_owns:
  "tpool_inv s \<Longrightarrow> all_threads (owns count_owner holds_count) s"
  "tpool_inv s \<Longrightarrow> all_threads (owns handles_owner holds_handles) s"
  by (simp_all add: tpool_inv_def all_threads_def tpool_ok_def)

lemma no_panic_step:
  assumes "tpool_advance ok i t q p = Some (q', p', nt)" and "place p \<le> thread_count q" and "p' = TPanicked who"
  shows False
  using assms
  by (cases rule: tpool_step_cases; (elim tpool_elims)?;
      auto simp: tpool_defs split: if_splits list.splits elim: release_next.elims)

lemma tpool_inv_exec:
  assumes inv: "tpool_inv s" and ex: "exec (tpool_machine ok) l s = Some t"
  shows "tpool_inv t"
proof -
  have run: "all_running s" and bal: "places.balanced s" using inv by (simp_all add: tpool_inv_def)
  have "pc (threads t ! i) \<noteq> TPanicked who" if i: "i < length (threads s)" for i who
    using ex
  proof (cases rule: exec_cases)
    case (Call j op)
    moreover have "tpool_entry op \<noteq> TPanicked who" by (cases op rule: tpool_entry.cases) auto
    ultimately show ?thesis using inv i by (cases "i = j") (auto simp: tpool_inv_def)
  next
    case (Run j ks q p nt us)
    have "p \<noteq> TPanicked who"
      using no_panic_step [of ok j "now s" "shared s" "pc (threads s ! j)" q p nt who] Run(3)
        places.balanced_share [OF bal Run(2)] by auto
    with Run inv i deliver_nth [OF Run(4), of i] show ?thesis
      by (cases "i = j") (auto simp: tpool_inv_def elim!: tpool_dozing.elims)
  next
    case (Spurious j)
    then show ?thesis
      using inv i by (cases "i = j") (auto simp: tpool_inv_def elim!: tpool_dozing.elims)
  qed (use inv i in \<open>auto simp: tpool_inv_def\<close>)
  with inv tpool_ok.exec_guarded [OF ex] all_running_exec [OF run ex] places.exec_balanced [OF run ex bal]
    handles_kept_exec [OF ex] count_mutex.exec_owner_range [OF ex tpool_inv_owns(1) [OF inv]]
    handles_mutex.exec_owner_range [OF ex tpool_inv_owns(2) [OF inv]] exec_length [OF ex]
  show ?thesis by (auto simp: tpool_inv_def)
qed

lemma tpool_inv_start:
  assumes "s = tpool_start limit n"
  shows "tpool_inv s"
  using assms
  by (simp add: tpool_inv_def tpool_start_def tpool_new_def within_limit_def all_threads_def tpool_ok_def
      owns_def all_running_def task_running_def places.balanced_def waiting_tasks_def handles_kept_def
      is_finished_def)

lemma tpool_inv_run:
  assumes "run (tpool_machine ok) ls s = Some t" and "tpool_inv s"
  shows "tpool_inv t"
  using run_invariant [of tpool_inv "tpool_machine ok", OF tpool_inv_exec assms] .

end
