(* ===== verification/TaskPoolWake.thy ===== *)
theory TaskPoolWake
  imports TaskPoolInv
begin

text \<open>
  No wake-up of the thread-per-task pool is lost: a submit that sleeps at the limit is woken
  when a place becomes free and when the pool is disposed. A free place and disposal each have a
  thread that answers for them; and between a submit's test of the flag and its sleep, the
  disposer still has to pass the mutex (\<open>presleep\<close>).
\<close>

section \<open>Responsibility\<close>

definition free_places :: "'j tpool \<Rightarrow> nat" where
  "free_places q = (if disposed q \<or> max_threads q = 0 then 0 else max_threads q - thread_count q)"

fun place_token :: "'j tpool_pc \<Rightarrow> nat" where
  "place_token (AcquireAt pt j) =
     (case pt of WaitFlag \<Rightarrow> 1 | WaitCount \<Rightarrow> 1 | AcqWoken \<Rightarrow> 1 | AcqFlag \<Rightarrow> 1 | AcqBump \<Rightarrow> 1 | _ \<Rightarrow> 0)"
| "place_token (ReleaseAt pt who) = of_bool (pt = RelNotify)"
| "place_token p = 0"

definition pool_closed :: "'j tpool \<Rightarrow> nat" where
  "pool_closed q = of_bool (disposed q)"

fun close_token :: "'j tpool_pc \<Rightarrow> nat" where
  "close_token (DisposeAt pt) = of_bool (pt = DisposeLock \<or> pt = DisposeUnlock \<or> pt = DisposeNotify)"
| "close_token p = 0"

fun close_pre :: "'j tpool_pc \<Rightarrow> nat" where
  "close_pre (DisposeAt pt) = of_bool (pt = DisposeLock)"
| "close_pre p = 0"

fun open_read :: "'j tpool_pc \<Rightarrow> bool" where
  "open_read (AcquireAt pt j) = (pt = WaitCount \<or> pt = AcqDoze)"
| "open_read p = False"

lemma release_next_tokens [simp]: "place_token (release_next who) = 0" "close_token (release_next who) = 0"
  "close_pre (release_next who) = 0" "\<not> open_read (release_next who)"
  by (cases who; simp add: submit_ret_def)+

lemma tpool_quiet_tokens:
  assumes "tpool_resting p \<or> tpool_dozing p \<noteq> None"
  shows "place_token p = 0 \<and> close_token p = 0 \<and> close_pre p = 0"
  using assms by (auto elim!: tpool_resting.elims tpool_dozing.elims)

section \<open>Disposal is not missed\<close>

lemma pool_race_step:
  assumes "tpool_advance ok i t q p = Some (q', p', nt)"
  shows "open_read p' \<Longrightarrow> pool_closed q' \<noteq> 0 \<Longrightarrow> open_read p"
    and "count_owner q \<noteq> None \<Longrightarrow> pool_closed q' + close_pre p \<le> pool_closed q + close_pre p'"
  using assms
  by (cases rule: tpool_step_cases; (elim tpool_elims)?;
      auto simp: tpool_locks pool_closed_def split: if_splits list.splits)+

interpretation close_race: presleep "tpool_machine ok" count_owner holds_count tpool_inv open_read close_pre pool_closed
  for ok
proof
  fix p p' :: "'j tpool_pc" and op :: "'j pool_op" and s :: "('j pool_op, 'j tpool, 'j tpool_pc) sys" and i q' nt
  let ?M = "tpool_machine ok"
  show "tpool_inv s \<Longrightarrow> all_threads (owns count_owner holds_count) s" by (rule tpool_inv_owns)
  show "open_read p \<Longrightarrow> holds_count p \<and> close_pre p = 0" by (cases p) auto
  show "close_pre (entry ?M op) = 0" by (cases op rule: tpool_entry.cases) auto
  show "resting ?M p \<Longrightarrow> close_pre p = 0" by (simp add: tpool_quiet_tokens)
  show "dozing ?M p \<noteq> None \<Longrightarrow> close_pre (rouse ?M p) = close_pre p"
    by (cases p rule: tpool_dozing.cases) auto
  assume "advance ?M i (now s) (shared s) (pc (threads s ! i)) = Some (q', p', nt)"
  then have adv: "tpool_advance ok i (now s) (shared s) (pc (threads s ! i)) = Some (q', p', nt)" by simp
  show "pool_closed q' \<noteq> 0 \<Longrightarrow> open_read p' \<Longrightarrow> open_read (pc (threads s ! i))"
    using pool_race_step(1) [OF adv] by blast
  show "count_owner (shared s) \<noteq> None \<Longrightarrow>
      pool_closed q' + close_pre (pc (threads s ! i)) \<le> pool_closed (shared s) + close_pre p'"
    using pool_race_step(2) [OF adv] .
qed

definition tpool_live :: "('j pool_op, 'j tpool, 'j tpool_pc) sys \<Rightarrow> bool" where
  "tpool_live s \<longleftrightarrow> tpool_inv s \<and> unmissed open_read close_pre pool_closed s"

lemma tpool_live_exec: "tpool_live s \<Longrightarrow> exec (tpool_machine ok) l s = Some t \<Longrightarrow> tpool_live t"
  using tpool_inv_exec close_race.exec_unmissed unfolding tpool_live_def by blast

lemma tpool_point_at:
  "tpool_live s \<Longrightarrow> i < length (threads s) \<Longrightarrow> tpool_point (shared s) (pc (threads s ! i))"
  by (simp add: tpool_live_def tpool_inv_def all_threads_def tpool_ok_def)

section \<open>The two wake-up contracts\<close>

lemma place_need_step:
  assumes "tpool_advance ok i t q p = Some (q', p', nt)" and "tpool_point q p" and "nt \<noteq> WakeAll ()"
    and "tpool_dozing p' = None" and "free_places q' \<noteq> 0"
  shows "free_places q' + place_token p \<le> free_places q + place_token p' + woken_by () nt"
  using assms
  by (cases rule: tpool_step_cases; (elim tpool_elims)?;
      auto simp: tpool_defs free_places_def split: if_splits list.splits)

lemma close_need_step:
  assumes "tpool_advance ok i t q p = Some (q', p', nt)" and "nt \<noteq> WakeAll ()"
  shows "pool_closed q' + close_token p \<le> pool_closed q + close_token p'"
  using assms
  by (cases rule: tpool_step_cases; (elim tpool_elims)?;
      auto simp: tpool_locks pool_closed_def split: if_splits list.splits)

lemma tpool_doze_step:
  assumes "tpool_advance ok i t q p = Some (q', p', nt)" and "tpool_point q p" and "tpool_dozing p' \<noteq> None"
  shows "free_places q' = 0 \<and> open_read p \<and> pool_closed q' = pool_closed q"
  using assms
  by (cases rule: tpool_step_cases; (elim tpool_elims)?;
      auto simp: tpool_locks free_places_def pool_closed_def split: if_splits list.splits)

interpretation places_wake: wakeups "tpool_machine ok" tpool_live "()" 1 place_token free_places for ok
proof
  fix p p' :: "'j tpool_pc" and s :: "('j pool_op, 'j tpool, 'j tpool_pc) sys" and i q' nt
  let ?M = "tpool_machine ok"
  show "resting ?M p \<Longrightarrow> place_token p = 0" by (simp add: tpool_quiet_tokens)
  show "dozing ?M p = Some () \<Longrightarrow> place_token (rouse ?M p) = place_token p + 1"
    by (cases p rule: tpool_dozing.cases) auto
  show "dozing ?M p \<noteq> None \<Longrightarrow> dozing ?M p \<noteq> Some () \<Longrightarrow> place_token (rouse ?M p) = place_token p" by simp
  assume live: "tpool_live s" and i: "i < length (threads s)"
    and "advance ?M i (now s) (shared s) (pc (threads s ! i)) = Some (q', p', nt)"
  then have adv: "tpool_advance ok i (now s) (shared s) (pc (threads s ! i)) = Some (q', p', nt)" by simp
  { assume "dozing ?M p' \<noteq> Some ()" and "nt \<noteq> WakeAll ()" and "free_places q' \<noteq> 0"
    moreover have "tpool_dozing p' = None"
      using \<open>dozing ?M p' \<noteq> Some ()\<close> by (cases "tpool_dozing p'") auto
    ultimately show "free_places q' + place_token (pc (threads s ! i))
        \<le> free_places (shared s) + place_token p' + 1 * woken_by () nt"
      using place_need_step [OF adv tpool_point_at [OF live i]] by simp }
  assume "dozing ?M p' = Some ()"
  then show "free_places q' \<le> weight place_token ((threads s)[i := (threads s ! i)\<lparr>pc := p'\<rparr>])"
    using tpool_doze_step [OF adv tpool_point_at [OF live i]] by simp
qed

interpretation close_wake: wakeups "tpool_machine ok" tpool_live "()" 0 close_token pool_closed for ok
proof
  fix p p' :: "'j tpool_pc" and s :: "('j pool_op, 'j tpool, 'j tpool_pc) sys" and i q' nt
  let ?M = "tpool_machine ok"
  show "resting ?M p \<Longrightarrow> close_token p = 0" by (simp add: tpool_quiet_tokens)
  show "dozing ?M p = Some () \<Longrightarrow> close_token (rouse ?M p) = close_token p + 0"
    by (cases p rule: tpool_dozing.cases) auto
  show "dozing ?M p \<noteq> None \<Longrightarrow> dozing ?M p \<noteq> Some () \<Longrightarrow> close_token (rouse ?M p) = close_token p" by simp
  assume live: "tpool_live s" and i: "i < length (threads s)"
    and "advance ?M i (now s) (shared s) (pc (threads s ! i)) = Some (q', p', nt)"
  then have adv: "tpool_advance ok i (now s) (shared s) (pc (threads s ! i)) = Some (q', p', nt)" by simp
  show "nt \<noteq> WakeAll () \<Longrightarrow> pool_closed q' + close_token (pc (threads s ! i))
      \<le> pool_closed (shared s) + close_token p' + 0 * woken_by () nt"
    using close_need_step [OF adv] by simp
  assume "dozing ?M p' = Some ()"
  then have doze: "open_read (pc (threads s ! i))" "pool_closed q' = pool_closed (shared s)"
    using tpool_doze_step [OF adv tpool_point_at [OF live i]] by simp_all
  have "close_pre p \<le> close_token p" for p :: "'j tpool_pc" by (cases p) auto
  with close_race.doze_ready [OF _ i doze(1), of close_token p'] live doze(2)
  show "pool_closed q' \<le> weight close_token ((threads s)[i := (threads s ! i)\<lparr>pc := p'\<rparr>])"
    by (simp add: tpool_live_def)
qed

definition tpool_covered :: "('j pool_op, 'j tpool, 'j tpool_pc) sys \<Rightarrow> bool" where
  "tpool_covered s \<longleftrightarrow> tpool_live s
     \<and> (0 < inside (\<lambda>p. tpool_dozing p \<noteq> None) (threads s) \<longrightarrow>
          free_places (shared s) \<le> weight place_token (threads s)
          \<and> pool_closed (shared s) \<le> weight close_token (threads s))"

lemma tpool_sleeping: "sleeping (tpool_machine ok) () ts = inside (\<lambda>p. tpool_dozing p \<noteq> None) ts"
  by (simp add: sleeping_def inside_def)

lemma tpool_covered_exec:
  "tpool_covered s \<Longrightarrow> exec (tpool_machine ok) l s = Some t \<Longrightarrow> tpool_covered t"
  using tpool_live_exec [of s ok l t] places_wake.exec_covered [of s ok l t] close_wake.exec_covered [of s ok l t]
  by (auto simp: tpool_covered_def covered_def tpool_sleeping)

lemma tpool_covered_run:
  assumes "run (tpool_machine ok) ls (tpool_start limit n) = Some s"
  shows "tpool_covered s"
proof -
  have "tpool_covered (tpool_start limit n)"
    using tpool_inv_start [OF refl, of limit n]
    by (simp add: tpool_covered_def tpool_live_def unmissed_def inside_def tpool_start_def)
  then show ?thesis using run_invariant [OF _ assms, of tpool_covered] tpool_covered_exec by blast
qed

section \<open>Stuck states\<close>

text \<open>
  With the locks it needs free or its own, a thread can act unless it rests, sleeps, has
  panicked, or joins a thread that has not ended.
\<close>

definition joins_live :: "'j tpool \<Rightarrow> 'j tpool_pc \<Rightarrow> bool" where
  "joins_live q p \<longleftrightarrow> (\<exists>k ks. p = DisposeAt (Join (k # ks)) \<and> \<not> is_finished q k)"

lemma tpool_advance_enabled:
  assumes "holds_count p \<or> count_owner q = None" and "holds_handles p \<or> handles_owner q = None"
    and "\<not> tpool_resting p" and "tpool_dozing p = None" and "\<And>who. p \<noteq> TPanicked who" and "\<not> joins_live q p"
  shows "tpool_advance ok i t q p \<noteq> None"
proof (cases p)
  case (AcquireAt pt j) then show ?thesis using assms by (cases pt) (auto simp: tpool_locks)
next
  case (ReapAt pt j) then show ?thesis using assms by (cases pt) (auto simp: tpool_locks)
next
  case (ReleaseAt pt who) then show ?thesis using assms by (cases pt) (auto simp: tpool_locks)
next
  case (DisposeAt pt)
  then show ?thesis using assms by (cases pt) (auto simp: tpool_locks joins_live_def split: list.splits)
qed (use assms in \<open>auto simp: tpool_locks\<close>)

text \<open>The two locks are never held together, and a thread that holds one can act.\<close>

lemma tpool_holder_active:
  assumes "holds_count p \<or> holds_handles p"
  shows "\<not> tpool_resting p \<and> tpool_dozing p = None \<and> \<not> joins_live q p \<and> (\<forall>who. p \<noteq> TPanicked who)
    \<and> tpool_advance ok i t q p \<noteq> None"
proof (cases p)
  case (AcquireAt pt j) then show ?thesis using assms by (cases pt) (auto simp: tpool_locks joins_live_def)
next
  case (ReapAt pt j) then show ?thesis using assms by (cases pt) (auto simp: tpool_locks joins_live_def)
next
  case (ReleaseAt pt who) then show ?thesis using assms by (cases pt) (auto simp: tpool_locks joins_live_def)
next
  case (DisposeAt pt) then show ?thesis using assms by (cases pt) (auto simp: tpool_locks joins_live_def)
qed (use assms in \<open>auto simp: tpool_locks joins_live_def\<close>)

lemma tpool_stuck_threads:
  assumes inv: "tpool_inv s" and stuck: "\<And>i ks. exec (tpool_machine ok) (Run i ks) s = None"
    and i: "i < length (threads s)"
  shows "tpool_resting (pc (threads s ! i)) \<or> tpool_dozing (pc (threads s ! i)) \<noteq> None
    \<or> joins_live (shared s) (pc (threads s ! i))"
proof (rule ccontr)
  assume active: "\<not> ?thesis"
  have none: "tpool_advance ok j (now s) (shared s) (pc (threads s ! j)) = None" if "j < length (threads s)" for j
    using stuck_blocked [OF stuck that] by simp
  have "count_owner (shared s) = None"
  proof (rule ccontr)
    assume "count_owner (shared s) \<noteq> None"
    then obtain j where "count_owner (shared s) = Some j" by blast
    with inv tpool_inv_owns(1) [OF inv] have "j < length (threads s)" "holds_count (pc (threads s ! j))"
      by (auto simp: tpool_inv_def all_threads_def owns_def)
    with none tpool_holder_active show False by blast
  qed
  moreover have "handles_owner (shared s) = None"
  proof (rule ccontr)
    assume "handles_owner (shared s) \<noteq> None"
    then obtain j where "handles_owner (shared s) = Some j" by blast
    with inv tpool_inv_owns(2) [OF inv] have "j < length (threads s)" "holds_handles (pc (threads s ! j))"
      by (auto simp: tpool_inv_def all_threads_def owns_def)
    with none tpool_holder_active show False by blast
  qed
  moreover have "pc (threads s ! i) \<noteq> TPanicked who" for who using inv i by (simp add: tpool_inv_def)
  ultimately show False
    using tpool_advance_enabled [of "pc (threads s ! i)" "shared s"] active none [OF i] by blast
qed

end
