(* ===== verification/TaskPoolProps.thy ===== *)
theory TaskPoolProps
  imports TaskPoolWake "HOL-Library.Multiset"
begin

text \<open>
  The properties of the thread-per-task pool, over arbitrary schedules of \<open>n\<close> threads around a
  new pool with a limit (0 for none).
\<close>

section \<open>A schedule for the witnesses\<close>

lemmas tpool_eval = acts_def tpool_start_def tpool_new_def boot_def tpool_defs sleepers_def
  rouse_all_def replicate_numeral upt_rec swap_remove_def is_finished_def usize_mod_def

abbreviation can_spawn :: "tid \<Rightarrow> nat \<Rightarrow> bool" where
  "can_spawn \<equiv> \<lambda>_ _. True"

text \<open>
  A pool of one place: thread 0 submits job 7, thread 1 sleeps submitting job 8; then thread 2
  runs the first task, which makes room, and thread 1 goes on; thread 3 runs the second task.
\<close>

definition submitted :: "nat pool_op label list" where
  "submitted = Call 0 (Client (Submit 7)) # acts 0 12"

definition second_blocked :: "nat pool_op label list" where
  "second_blocked = submitted @ Call 1 (Client (Submit 8)) # acts 1 8"

definition second_admitted :: "nat pool_op label list" where
  "second_admitted = second_blocked @ Call 2 (Worker 0) # acts 2 4 @ Run 2 [1] # acts 2 2 @ acts 1 9"

lemma submitted_run:
  "\<exists>s. run (tpool_machine can_spawn) submitted (tpool_start 1 4) = Some s
    \<and> map pc (threads s) = [TDone (ClientRes (SubmitRes (Inr ()))), TIdle, TIdle, TIdle]
    \<and> tasks (shared s) = [(7, Pending)] \<and> thread_count (shared s) = 1 \<and> \<not> disposed (shared s)"
  by (simp add: tpool_eval submitted_def)

lemma second_blocked_run:
  "\<exists>s. run (tpool_machine can_spawn) second_blocked (tpool_start 1 4) = Some s
    \<and> map pc (threads s) = [TDone (ClientRes (SubmitRes (Inr ()))), AcquireAt AcqAsleep 8, TIdle, TIdle]"
  by (simp add: tpool_eval second_blocked_def submitted_def)

lemma second_admitted_run:
  "\<exists>s. run (tpool_machine can_spawn) second_admitted (tpool_start 1 4) = Some s
    \<and> map pc (threads s) = [TDone (ClientRes (SubmitRes (Inr ()))), TDone (ClientRes (SubmitRes (Inr ()))),
        TDone WorkerRes, TIdle]
    \<and> tasks (shared s) = [(7, Finished), (8, Pending)]"
  by (simp add: tpool_eval second_admitted_def second_blocked_def submitted_def)

section \<open>Bounds\<close>

text \<open>
  C23. The limit is respected: at any time the jobs being executed are at most the thread count,
  which accounts exactly for the closures waiting to start and the threads that hold a
  place, and which never exceeds a nonzero limit; no call panics, so no mutex is poisoned.
\<close>

theorem tpool_within_limit:
  assumes "run (tpool_machine ok) ls (tpool_start limit n) = Some s"
  shows "inside (\<lambda>p. \<exists>k. p = TaskRun k) (threads s) \<le> thread_count (shared s)
    \<and> thread_count (shared s) = waiting_tasks (shared s) + weight place (threads s)
    \<and> (0 < limit \<longrightarrow> thread_count (shared s) \<le> limit)
    \<and> (\<forall>i < n. \<forall>who. pc (threads s ! i) \<noteq> TPanicked who)"
proof -
  have inv: "tpool_inv s" using tpool_inv_run [OF assms tpool_inv_start [OF refl]] .
  have len: "length (threads s) = n" using run_length [OF assms] by (simp add: tpool_start_def)
  have "max_threads (shared s) = limit"
  proof (rule run_invariant [OF _ assms, of "\<lambda>s. max_threads (shared s) = limit"])
    fix l and s t :: "('a pool_op, 'a tpool, 'a tpool_pc) sys"
    assume "max_threads (shared s) = limit" and "exec (tpool_machine ok) l s = Some t"
    from this(2) this(1) show "max_threads (shared t) = limit"
      by (cases rule: exec_cases) (auto dest: tpool_frame(1))
  qed (simp add: tpool_start_def tpool_new_def)
  moreover have "inside (\<lambda>p. \<exists>k. p = TaskRun k) (threads s) \<le> weight place (threads s)"
    unfolding inside_def by (rule weight_mono) auto
  ultimately show ?thesis
    using inv len by (auto simp: tpool_inv_def within_limit_def places.balanced_def)
qed

theorem tpool_within_limit_witness:
  "\<exists>s. run (tpool_machine can_spawn) submitted (tpool_start 1 4) = Some s
    \<and> waiting_tasks (shared s) + weight place (threads s) = 1"
  using submitted_run tpool_within_limit [of can_spawn submitted 1 4] by fastforce

section \<open>Progress\<close>

text \<open>
  C24. No deadlock and no lost wake-up: when no thread can act, every thread rests, or sleeps
  in submit on an open pool whose places are all taken by closures still waiting for the
  system to start them, or joins such a closure. So once every spawned closure has been
  started, everybody gets on.
\<close>

theorem tpool_no_deadlock:
  assumes "run (tpool_machine ok) ls (tpool_start limit n) = Some s"
    and stuck: "\<And>i ks. exec (tpool_machine ok) (Run i ks) s = None" and i: "i < n"
  shows "tpool_resting (pc (threads s ! i))
    \<or> (0 < waiting_tasks (shared s)
        \<and> ((tpool_dozing (pc (threads s ! i)) \<noteq> None \<and> \<not> disposed (shared s)
              \<and> thread_count (shared s) = waiting_tasks (shared s)
              \<and> max_threads (shared s) \<le> waiting_tasks (shared s))
            \<or> (\<exists>k ks. pc (threads s ! i) = DisposeAt (Join (k # ks)) \<and> k < length (tasks (shared s))
                \<and> snd (tasks (shared s) ! k) = Pending)))"
proof -
  have cov: "tpool_covered s" using tpool_covered_run [OF assms(1)] .
  then have inv: "tpool_inv s" by (simp add: tpool_covered_def tpool_live_def)
  have len: "length (threads s) = n" using run_length [OF assms(1)] by (simp add: tpool_start_def)
  have quiet: "tpool_resting (pc (threads s ! j)) \<or> tpool_dozing (pc (threads s ! j)) \<noteq> None
      \<or> joins_live (shared s) (pc (threads s ! j))" if "j < n" for j
    using tpool_stuck_threads [OF inv stuck] that len by blast
  have zero: "place (pc (threads s ! j)) = 0 \<and> inside_task k (pc (threads s ! j)) = 0
      \<and> place_token (pc (threads s ! j)) = 0 \<and> close_token (pc (threads s ! j)) = 0" if "j < n" for j k
    using quiet [OF that] by (auto simp: joins_live_def elim!: tpool_resting.elims tpool_dozing.elims)
  have w: "weight place (threads s) = 0" "weight (inside_task k) (threads s) = 0"
    "weight place_token (threads s) = 0" "weight close_token (threads s) = 0" for k
    using zero len by (auto intro!: weight_zero)
  have count: "thread_count (shared s) = waiting_tasks (shared s)"
    using inv w(1) by (simp add: tpool_inv_def places.balanced_def)
  have pending: "0 < waiting_tasks (shared s)"
    if "k < length (tasks (shared s))" "snd (tasks (shared s) ! k) = Pending" for k
    using that by (auto simp: waiting_tasks_def tally_pos_nth)
  have idle: "task_running k (shared s) = 0" for k
    using inv w(2) [of k] by (simp add: tpool_inv_def all_running_def)
  from quiet [OF i] consider (rest) "tpool_resting (pc (threads s ! i))"
    | (doze) "tpool_dozing (pc (threads s ! i)) \<noteq> None" | (joins) "joins_live (shared s) (pc (threads s ! i))"
    by blast
  then show ?thesis
  proof cases
    case doze
    then have "0 < inside (\<lambda>p. tpool_dozing p \<noteq> None) (threads s)"
      unfolding inside_pos using i len by blast
    with cov w(3,4) have need: "free_places (shared s) = 0" "pool_closed (shared s) = 0"
      by (simp_all add: tpool_covered_def)
    have "tpool_point (shared s) (pc (threads s ! i))"
      using tpool_point_at [of s i] i len cov by (simp add: tpool_covered_def)
    with doze have "0 < max_threads (shared s)" by (auto elim!: tpool_dozing.elims)
    with need count doze show ?thesis by (auto simp: free_places_def pool_closed_def)
  next
    case joins
    then obtain k ks where k: "pc (threads s ! i) = DisposeAt (Join (k # ks))"
      "k < length (tasks (shared s))" "snd (tasks (shared s) ! k) \<noteq> Finished"
      by (auto simp: joins_live_def is_finished_def)
    with idle [of k] have "snd (tasks (shared s) ! k) = Pending"
      by (cases "snd (tasks (shared s) ! k)") (auto simp: task_running_def)
    with k pending show ?thesis by blast
  qed simp
qed

theorem tpool_no_deadlock_witness:
  "\<exists>s. run (tpool_machine can_spawn) second_blocked (tpool_start 1 4) = Some s
    \<and> pc (threads s ! 1) = AcquireAt AcqAsleep 8 \<and> 0 < waiting_tasks (shared s)"
proof -
  let ?M = "tpool_machine can_spawn :: (nat pool_op, nat tpool, nat tpool_pc, unit) machine"
  obtain s where s: "run ?M second_blocked (tpool_start 1 4) = Some s"
    "map pc (threads s) = [TDone (ClientRes (SubmitRes (Inr ()))), AcquireAt AcqAsleep 8, TIdle, TIdle]"
    using second_blocked_run by (elim exE conjE)
  have pc1: "pc (threads s ! 1) = AcquireAt AcqAsleep 8" using pcs_nth [OF s(2), of 1] by simp
  moreover have "exec ?M (Run i ks) s = None" for i ks
    by (rule blocked_stuck) (simp only: s(2), simp)
  ultimately have "0 < waiting_tasks (shared s)" using tpool_no_deadlock [OF s(1), of 1] by auto
  with s(1) pc1 show ?thesis by blast
qed

section \<open>Results\<close>

text \<open>
  Results: a submit that reports success has spawned a thread for exactly its job; one that
  reports \<open>ResourceUnavailable\<close> has found the pool disposed; the only other refusal is
  \<open>Failed\<close>, when the spawn failed; and a dispose that returns leaves the pool disposed.
\<close>

lemma tpool_results:
  assumes "run (tpool_machine ok) ls (tpool_start limit n) = Some s" and "i < n"
    and "pc (threads s ! i) = TDone r"
  shows "\<exists>op. cur (threads s ! i) = Some op \<and> tpool_answers (shared s) op r"
proof -
  have "length (threads s) = n" using run_length [OF assms(1)] by (simp add: tpool_start_def)
  moreover have "tpool_inv s" using tpool_inv_run [OF assms(1) tpool_inv_start [OF refl]] .
  ultimately have "tpool_ok i (now s) (shared s) (threads s ! i)"
    using assms(2) by (simp add: tpool_inv_def all_threads_def)
  with assms(3) show ?thesis by (auto simp: tpool_ok_def)
qed

lemma tpool_results_witness:
  "\<exists>s op. run (tpool_machine can_spawn) submitted (tpool_start 1 4) = Some s \<and> cur (threads s ! 0) = Some op
    \<and> tpool_answers (shared s) op (ClientRes (SubmitRes (Inr ())))"
proof -
  obtain s where s: "run (tpool_machine can_spawn) submitted (tpool_start 1 4) = Some s"
    "map pc (threads s) = [TDone (ClientRes (SubmitRes (Inr ()))), TIdle, TIdle, TIdle]"
    using submitted_run by (elim exE conjE)
  have "pc (threads s ! 0) = TDone (ClientRes (SubmitRes (Inr ())))" using pcs_nth [OF s(2), of 0] by simp
  from tpool_results [OF s(1) _ this] s(1) show ?thesis by auto
qed

section \<open>Dispose waits for every task\<close>

text \<open>
  \<open>dispose\<close> takes the pool by exclusive reference: no other method call is in progress or begins
  while it runs, only the spawned threads go on.
\<close>

fun tpool_worker :: "'j tpool_pc \<Rightarrow> bool" where
  "tpool_worker (TaskStart k) = True"
| "tpool_worker (TaskRun k) = True"
| "tpool_worker (TaskExit k) = True"
| "tpool_worker (ReleaseAt pt who) = (\<exists>k. who = AfterTask k)"
| "tpool_worker p = tpool_resting p"

definition workers_only :: "tid \<Rightarrow> 'j pool_op label \<Rightarrow> bool" where
  "workers_only d l \<longleftrightarrow> (case l of Call j op \<Rightarrow> j \<noteq> d \<and> (\<exists>k. op = Worker k) | _ \<Rightarrow> True)"

fun dispose_phase :: "'j tpool \<Rightarrow> 'j tpool_pc \<Rightarrow> bool" where
  "dispose_phase q (DisposeAt pt) =
     (case pt of DisposeCas \<Rightarrow> \<not> disposed q | Join ks \<Rightarrow> handles q = [] | _ \<Rightarrow> True)"
| "dispose_phase q (TDone r) = (handles q = [])"
| "dispose_phase q p = False"

definition disposing :: "tid \<Rightarrow> ('j pool_op, 'j tpool, 'j tpool_pc) sys \<Rightarrow> bool" where
  "disposing d s \<longleftrightarrow> tpool_inv s \<and> d < length (threads s) \<and> dispose_phase (shared s) (pc (threads s ! d))
     \<and> (\<forall>j < length (threads s). j \<noteq> d \<longrightarrow> tpool_worker (pc (threads s ! j)))"

lemma worker_step:
  assumes "tpool_advance ok i t q p = Some (q', p', nt)" and "tpool_worker p" and "place p \<le> thread_count q"
  shows "tpool_worker p' \<and> handles q' = handles q \<and> disposed q' = disposed q"
  using assms
  by (cases p) (auto simp: tpool_defs split: if_splits elim!: tp_release_stepE)

lemma dispose_phase_step:
  assumes "tpool_advance ok i t q p = Some (q', p', nt)" and "dispose_phase q p"
  shows "dispose_phase q' p'"
  using assms
  by (cases p) (auto simp: tpool_defs split: if_splits list.splits elim!: tp_dispose_stepE)

lemma dispose_phase_frame:
  "dispose_phase q p \<Longrightarrow> handles q' = handles q \<Longrightarrow> disposed q' = disposed q \<Longrightarrow> dispose_phase q' p"
  by (cases p) (auto split: tp_dispose_point.splits)

lemma worker_quiet: "tpool_worker p \<Longrightarrow> tpool_dozing p = None \<and> carried p = []"
  by (cases p) auto

lemma phase_awake: "dispose_phase q p \<Longrightarrow> tpool_dozing p = None"
  by (cases p) auto

lemma disposing_exec:
  assumes dis: "disposing d s" and ex: "exec (tpool_machine ok) l s = Some t" and lab: "workers_only d l"
  shows "disposing d t"
proof -
  have inv: "tpool_inv t" using dis tpool_inv_exec [OF _ ex] by (simp add: disposing_def)
  have len: "length (threads t) = length (threads s)" using ex by (rule exec_length)
  have d: "d < length (threads s)" and phase: "dispose_phase (shared s) (pc (threads s ! d))"
    and work: "\<And>j. j < length (threads s) \<Longrightarrow> j \<noteq> d \<Longrightarrow> tpool_worker (pc (threads s ! j))"
    using dis by (simp_all add: disposing_def)
  have awake: "tpool_dozing (pc (threads s ! j)) = None" if "j < length (threads s)" for j
    using phase_awake [OF phase] work [OF that] by (cases "j = d") (simp_all add: worker_quiet)
  show ?thesis
    using ex
  proof (cases rule: exec_cases)
    case (Call i op)
    with lab obtain k where "i \<noteq> d" "op = Worker k" by (auto simp: workers_only_def)
    with Call inv len d phase work show ?thesis by (auto simp: disposing_def nth_list_update)
  next
    case (Run i ks q p nt us)
    then have adv: "tpool_advance ok i (now s) (shared s) (pc (threads s ! i)) = Some (q, p, nt)" by simp
    let ?mid = "(threads s)[i := (threads s ! i)\<lparr>pc := p\<rparr>]"
    have "place (pc (threads s ! i)) \<le> thread_count (shared s)"
      using places.balanced_share [OF _ Run(2)] dis by (fastforce simp: disposing_def tpool_inv_def)
    then have p: "if i = d then dispose_phase q p else tpool_worker p \<and> dispose_phase q (pc (threads s ! d))"
      using dispose_phase_step [OF adv] worker_step [OF adv] phase work [OF Run(2)]
        dispose_phase_frame [OF phase, of q] by auto
    then have "tpool_dozing p = None" using phase_awake worker_quiet by (cases "i = d") auto
    then have "us ! j = ?mid ! j" if "j < length (threads s)" for j
      using deliver_awake [OF Run(4), of j] awake [OF that] that by (cases "j = i") auto
    moreover have "tpool_worker (pc (?mid ! j))" if "j < length (threads s)" "j \<noteq> d" for j
      using p work [OF that] that by (cases "j = i") auto
    moreover have "dispose_phase q (pc (?mid ! d))" using p d by (cases "i = d") auto
    ultimately show ?thesis using Run(5) inv len d by (auto simp: disposing_def)
  next
    case (Spurious i)
    with awake show ?thesis by simp
  next
    case (Tick e)
    with inv dis show ?thesis by (simp add: disposing_def)
  qed
qed

lemma disposing_run:
  "run (tpool_machine ok) ms s = Some u \<Longrightarrow> disposing d s \<Longrightarrow> \<forall>l \<in> set ms. workers_only d l \<Longrightarrow> disposing d u"
proof (induction ms arbitrary: s)
  case (Cons l ms)
  then obtain t where t: "exec (tpool_machine ok) l s = Some t" "run (tpool_machine ok) ms t = Some u"
    by (auto split: option.splits)
  with Cons disposing_exec [OF Cons.prems(2) t(1)] show ?case by simp
qed simp

text \<open>When a dispose has returned, everything the pool spawned has ended.\<close>

lemma disposing_done:
  assumes dis: "disposing d u" and d: "pc (threads u ! d) = TDone r"
  shows "(\<forall>k < length (tasks (shared u)). snd (tasks (shared u) ! k) = Finished)
    \<and> handles (shared u) = [] \<and> thread_count (shared u) = 0"
proof -
  have inv: "tpool_inv u" and hs: "handles (shared u) = []" using assms by (auto simp: disposing_def)
  have work: "tpool_worker (pc (threads u ! j))" if "j < length (threads u)" for j
    using dis d that by (cases "j = d") (auto simp: disposing_def)
  have "weight (carries k) (threads u) = 0" for k
    using work by (intro weight_zero) (simp add: carries_def worker_quiet)
  then have fin: "is_finished (shared u) k" for k
    using inv hs by (auto simp: tpool_inv_def handles_kept_def)
  have "\<not> 0 < waiting_tasks (shared u)"
  proof
    assume "0 < waiting_tasks (shared u)"
    then obtain k where "k < length (tasks (shared u))" "snd (tasks (shared u) ! k) = Pending"
      by (auto simp: waiting_tasks_def tally_pos_nth split: if_splits)
    with fin [of k] show False by (simp add: is_finished_def)
  qed
  then have "waiting_tasks (shared u) = 0" by simp
  moreover have "weight place (threads u) = 0"
  proof (rule weight_zero)
    fix j assume j: "j < length (threads u)"
    have "inside_task k (pc (threads u ! j)) = 0" for k
      using all_running_at [of u j k] inv j fin [of k]
      by (auto simp: tpool_inv_def task_running_def is_finished_def split: if_splits)
    then show "place (pc (threads u ! j)) = 0"
      using work [OF j] by (cases "pc (threads u ! j)") auto
  qed
  ultimately have "thread_count (shared u) = 0" using inv by (simp add: tpool_inv_def places.balanced_def)
  with fin hs show ?thesis by (auto simp: is_finished_def)
qed

text \<open>
  C25. When a dispose of an open pool returns, every thread the pool ever spawned has ended, its
  job executed; no handle is left and the worker count is zero. So no accepted job is lost.
\<close>

theorem tpool_dispose_joins:
  assumes "run (tpool_machine ok) ls (tpool_start limit n) = Some s" and "d < n" and "\<not> disposed (shared s)"
    and "\<forall>j < n. tpool_worker (pc (threads s ! j))"
    and "exec (tpool_machine ok) (Call d (Client Dispose)) s = Some t"
    and "run (tpool_machine ok) ms t = Some u" and "\<forall>l \<in> set ms. workers_only d l"
    and "pc (threads u ! d) = TDone r"
  shows "(\<forall>k < length (tasks (shared u)). snd (tasks (shared u) ! k) = Finished)
    \<and> handles (shared u) = [] \<and> thread_count (shared u) = 0"
proof -
  have len: "length (threads s) = n" using run_length [OF assms(1)] by (simp add: tpool_start_def)
  have "tpool_inv t" using tpool_inv_exec [OF tpool_inv_run [OF assms(1) tpool_inv_start [OF refl]] assms(5)] .
  then have "disposing d t"
    using assms(2-5) len by (auto simp: disposing_def nth_list_update split: if_splits)
  then have "disposing d u" using disposing_run [OF assms(6)] assms(7) by blast
  from disposing_done [OF this assms(8)] show ?thesis .
qed

definition disposed_after :: "nat pool_op label list" where
  "disposed_after = acts 0 6 @ Call 2 (Worker 0) # acts 2 7 @ acts 0 2"

lemma disposed_after_run:
  "\<exists>s t u. run (tpool_machine can_spawn) submitted (tpool_start 1 4) = Some s
    \<and> exec (tpool_machine can_spawn) (Call 0 (Client Dispose)) s = Some t
    \<and> run (tpool_machine can_spawn) disposed_after t = Some u \<and> \<not> disposed (shared s)
    \<and> map pc (threads s) = [TDone (ClientRes (SubmitRes (Inr ()))), TIdle, TIdle, TIdle]
    \<and> tasks (shared s) = [(7, Pending)] \<and> length (handles (shared s)) = 1
    \<and> pc (threads u ! 0) = TDone (ClientRes DisposeDone) \<and> tasks (shared u) = [(7, Finished)]
    \<and> disposed (shared u)"
  by (simp add: tpool_eval submitted_def disposed_after_def)

theorem tpool_dispose_joins_witness:
  "\<exists>s t u :: (nat pool_op, nat tpool, nat tpool_pc) sys.
    run (tpool_machine can_spawn) submitted (tpool_start 1 4) = Some s
    \<and> \<not> disposed (shared s) \<and> tasks (shared s) = [(7, Pending)] \<and> length (handles (shared s)) = 1
    \<and> exec (tpool_machine can_spawn) (Call 0 (Client Dispose)) s = Some t
    \<and> run (tpool_machine can_spawn) disposed_after t = Some u
    \<and> pc (threads u ! 0) = TDone (ClientRes DisposeDone)
    \<and> disposed (shared u) \<and> tasks (shared u) = [(7, Finished)]
    \<and> handles (shared u) = [] \<and> thread_count (shared u) = 0"
proof -
  let ?M = "tpool_machine can_spawn :: (nat pool_op, nat tpool, nat tpool_pc, unit) machine"
  obtain s t u where s: "run ?M submitted (tpool_start 1 4) = Some s" "\<not> disposed (shared s)"
    "map pc (threads s) = [TDone (ClientRes (SubmitRes (Inr ()))), TIdle, TIdle, TIdle]"
    "tasks (shared s) = [(7, Pending)]" "length (handles (shared s)) = 1"
    and tu: "exec ?M (Call 0 (Client Dispose)) s = Some t" "run ?M disposed_after t = Some u"
    "pc (threads u ! 0) = TDone (ClientRes DisposeDone)" "tasks (shared u) = [(7, Finished)]" "disposed (shared u)"
    using disposed_after_run by (elim exE conjE)
  have "\<forall>p \<in> set (map pc (threads s)). tpool_worker p" unfolding s(3) by simp
  moreover have "length (threads s) = 4" using arg_cong [OF s(3), of length] by simp
  ultimately have work: "\<forall>j < 4. tpool_worker (pc (threads s ! j))" by auto
  have only: "\<forall>l \<in> set disposed_after. workers_only 0 l"
    by (simp add: disposed_after_def acts_def workers_only_def)
  have "handles (shared u) = [] \<and> thread_count (shared u) = 0"
    using tpool_dispose_joins [OF s(1) _ s(2) work tu(1,2) only tu(3)] by simp
  with s(1,2,4,5) tu show ?thesis by (intro exI [of _ s] exI [of _ t] exI [of _ u]) simp
qed

section \<open>Reap\<close>

lemma swap_remove_split:
  assumes "m < length xs"
  shows "\<exists>rest. swap_remove m xs = take m xs @ rest \<and> mset rest = mset (drop (Suc m) xs)"
proof -
  have xs: "xs = take m xs @ xs ! m # drop (Suc m) xs" using assms by (rule id_take_nth_drop)
  show ?thesis
  proof (cases "drop (Suc m) xs" rule: rev_cases)
    case Nil
    then have "length xs = Suc m" using assms by simp
    then have "swap_remove m xs = take m xs"
      by (simp add: swap_remove_def butlast_conv_take list_update_beyond)
    with Nil show ?thesis by (intro exI [of _ "[]"]) simp
  next
    case (snoc cs y)
    with xs have "xs = (take m xs @ xs ! m # cs) @ [y]" by simp
    then have "swap_remove m xs = (take m xs @ xs ! m # cs)[m := y]"
      unfolding swap_remove_def by (metis butlast_snoc last_snoc)
    also have "\<dots> = take m xs @ y # cs" using assms by (simp add: list_update_append)
    finally show ?thesis using snoc by (intro exI [of _ "y # cs"]) simp
  qed
qed

lemma reap_from:
  "\<exists>k q'. k \<le> Suc (length (handles q) - m)
    \<and> solo (tpool_machine ok) i t k q (ReapAt (ReapLoop m) j) = Some (q', AcquireAt AcqLock j)
    \<and> tasks q' = tasks q \<and> handles_owner q' = None
    \<and> mset (handles q') = mset (take m (handles q)) + mset (filter (\<lambda>h. \<not> is_finished q h) (drop m (handles q)))"
proof (induction "length (handles q) - m" arbitrary: q m)
  case 0
  then show ?case by (intro exI [of _ 1]) simp
next
  case (Suc d)
  let ?hs = "handles q"
  from Suc.hyps(2) have m: "m < length ?hs" by simp
  then have split: "drop m ?hs = ?hs ! m # drop (Suc m) ?hs" "take (Suc m) ?hs = take m ?hs @ [?hs ! m]"
    by (simp_all add: Cons_nth_drop_Suc take_Suc_conv_app_nth)
  show ?case
  proof (cases "is_finished q (?hs ! m)")
    case True
    obtain rest where rest: "swap_remove m ?hs = take m ?hs @ rest" "mset rest = mset (drop (Suc m) ?hs)"
      using swap_remove_split [OF m] by blast
    let ?q = "q\<lparr>handles := swap_remove m ?hs\<rparr>"
    have len: "length rest = length ?hs - Suc m" using mset_eq_length [OF rest(2)] by simp
    then have "d = length (handles ?q) - m" using Suc.hyps(2) rest(1) m by simp
    from Suc.hyps(1) [OF this] obtain k q' where k: "k \<le> Suc (length (handles ?q) - m)"
      "solo (tpool_machine ok) i t k ?q (ReapAt (ReapLoop m) j) = Some (q', AcquireAt AcqLock j)"
      "tasks q' = tasks q" "handles_owner q' = None"
      "mset (handles q') = mset (take m (handles ?q)) + mset (filter (\<lambda>h. \<not> is_finished ?q h) (drop m (handles ?q)))"
      by auto
    have "is_finished ?q = is_finished q" by (rule ext) (simp add: is_finished_def)
    with k rest m True split len show ?thesis
      by (intro exI [of _ "Suc k"] exI [of _ q']) simp
  next
    case False
    have "d = length ?hs - Suc m" using Suc.hyps(2) by simp
    from Suc.hyps(1) [OF this] obtain k q' where k: "k \<le> Suc (length ?hs - Suc m)"
      "solo (tpool_machine ok) i t k q (ReapAt (ReapLoop (Suc m)) j) = Some (q', AcquireAt AcqLock j)"
      "tasks q' = tasks q" "handles_owner q' = None"
      "mset (handles q') = mset (take (Suc m) ?hs) + mset (filter (\<lambda>h. \<not> is_finished q h) (drop (Suc m) ?hs))"
      by blast
    with m False split show ?thesis by (intro exI [of _ "Suc k"] exI [of _ q']) simp
  qed
qed

text \<open>
  \<open>reap\<close> terminates, in at most one action per handle and one more, and is a filter: what it
  leaves are exactly the handles of the threads that have not ended, in some order, although it
  removes by swapping in the last element and does not advance then.
\<close>

lemma tpool_reap:
  "\<exists>k q'. k \<le> Suc (length (handles q))
    \<and> solo (tpool_machine ok) i t k q (ReapAt (ReapLoop 0) j) = Some (q', AcquireAt AcqLock j)
    \<and> tasks q' = tasks q \<and> handles_owner q' = None
    \<and> mset (handles q') = mset (filter (\<lambda>h. \<not> is_finished q h) (handles q))"
  using reap_from [of q 0 ok i t j] by simp

end
