(* ===== verification/TaskTests.thy ===== *)
theory TaskTests
  imports TaskPoolProps "HOL-Library.Sublist" "HOL-Library.Word"
begin

text \<open>
  The unit tests of \<open>thread_per_task.rs\<close>: one thread makes a list of calls and asserts their
  results, the spawned threads run the jobs. Every spawn succeeds here.
\<close>

section \<open>The stack size plays no part\<close>

definition unsized :: "('j pool_op, 'j tpool, 'j tpool_pc) sys \<Rightarrow> ('j pool_op, 'j tpool, 'j tpool_pc) sys" where
  "unsized s = s\<lparr>shared := (shared s)\<lparr>stack_size := None\<rparr>\<rparr>"

lemma unsized_simps [simp]:
  "threads (unsized s) = threads s" "now (unsized s) = now s"
  "shared (unsized s) = (shared s)\<lparr>stack_size := None\<rparr>"
  by (simp_all add: unsized_def)

lemma advance_stack_size:
  assumes "tpool_advance ok i t q p = Some (q', p', nt)"
  shows "tpool_advance ok i t (q\<lparr>stack_size := x\<rparr>) p = Some (q'\<lparr>stack_size := x\<rparr>, p', nt)"
  using assms
  by (cases rule: tpool_step_cases; (elim tpool_elims)?;
      auto simp: tpool_defs is_finished_def split: if_splits list.splits)

lemma advance_unsized_None:
  assumes "tpool_advance ok i t q p = None"
  shows "tpool_advance ok i t (q\<lparr>stack_size := x\<rparr>) p = None"
proof (rule ccontr)
  assume "\<not> ?thesis"
  then obtain q' p' nt where "tpool_advance ok i t (q\<lparr>stack_size := x\<rparr>) p = Some (q', p', nt)" by auto
  from advance_stack_size [OF this, of "stack_size q"] assms show False by simp
qed

lemma exec_unsized:
  assumes "exec (tpool_machine ok) l s = Some t"
  shows "exec (tpool_machine ok) l (unsized s) = Some (unsized t)"
  using assms
  by (cases rule: exec_cases) (auto simp: unsized_def dest: advance_stack_size [of _ _ _ _ _ _ _ _ None])

lemma run_unsized: "run (tpool_machine ok) ls s = Some t \<Longrightarrow> run (tpool_machine ok) ls (unsized s) = Some (unsized t)"
proof (induction ls arbitrary: s)
  case (Cons l ls)
  then obtain u where u: "exec (tpool_machine ok) l s = Some u" "run (tpool_machine ok) ls u = Some t"
    by (auto split: option.splits)
  from Cons.IH [OF u(2)] exec_unsized [OF u(1)] show ?case by simp
qed simp

section \<open>Every task is run once\<close>

text \<open>The spawned closures whose job is executed in a run, in this order.\<close>

fun at_run :: "'j tpool_pc \<Rightarrow> nat list" where
  "at_run (TaskRun k) = [k]"
| "at_run p = []"

definition tasks_run ::
    "('j pool_op, 'j tpool, 'j tpool_pc, unit) machine \<Rightarrow> 'j pool_op label list
      \<Rightarrow> ('j pool_op, 'j tpool, 'j tpool_pc) sys \<Rightarrow> nat list" where
  "tasks_run M ls s = observe M (\<lambda>l s t. case l of Run i ks \<Rightarrow> at_run (pc (threads s ! i)) | _ \<Rightarrow> []) ls s"

definition task_started :: "nat \<Rightarrow> 'j tpool \<Rightarrow> nat" where
  "task_started k q = of_bool (k < length (tasks q) \<and> snd (tasks q ! k) \<noteq> Pending)"

lemma at_run_entry [simp]: "at_run (tpool_entry op) = []"
  by (cases op rule: tpool_entry.cases) simp_all

lemma at_run_rouse [simp]: "at_run (tpool_rouse p) = at_run p"
  by (cases p) simp_all

lemma at_run_release [simp]: "at_run (release_next who) = []"
  by (cases who) (simp_all add: submit_ret_def)

lemma at_run_rest [simp]: "tpool_resting p \<Longrightarrow> at_run p = []"
  by (cases p) simp_all

lemma started_step:
  assumes "tpool_advance ok i t q p = Some (q', p', nt)"
    and "\<And>j. p = TaskExit j \<Longrightarrow> j < length (tasks q) \<and> snd (tasks q ! j) = Running"
  shows "task_started k q' = task_started k q + count_list (at_run p') k"
  using assms
  by (cases rule: tpool_step_cases; (elim tpool_elims)?;
      auto simp: tpool_defs task_started_def snd_update_nth nth_append split: if_splits list.splits)

text \<open>What has been run and what is being run are the tasks that have been started.\<close>

lemma run_tasks:
  assumes "run (tpool_machine ok) ls s = Some t" and "tpool_inv s"
  shows "count_list (tasks_run (tpool_machine ok) ls s) k + weight (\<lambda>p. count_list (at_run p) k) (threads t) + task_started k (shared s)
    = task_started k (shared t) + weight (\<lambda>p. count_list (at_run p) k) (threads s)"
  using assms
proof (induction ls arbitrary: s)
  case (Cons l ls)
  let ?f = "\<lambda>p. count_list (at_run p) k"
  let ?obs = "\<lambda>l s t. case l of Run i ks \<Rightarrow> at_run (pc (threads s ! i)) | _ \<Rightarrow> []"
  from Cons.prems(1) obtain u where u: "exec (tpool_machine ok) l s = Some u" "run (tpool_machine ok) ls u = Some t"
    by (auto split: option.splits)
  have inv: "tpool_inv u" using tpool_inv_exec [OF Cons.prems(2) u(1)] .
  have "count_list (?obs l s u) k + weight ?f (threads u) + task_started k (shared s)
      = task_started k (shared u) + weight ?f (threads s)"
    using u(1)
  proof (cases rule: exec_cases)
    case (Call i op)
    then have "weight ?f (threads u) = weight ?f (threads s)" by simp (intro weight_update_same, simp_all)
    with Call show ?thesis by simp
  next
    case (Run i ks q p nt us)
    let ?mid = "(threads s)[i := (threads s ! i)\<lparr>pc := p\<rparr>]"
    have "inside_task j (pc (threads s ! i)) \<le> task_running j (shared s)" for j
      using all_running_at [of s i j] Cons.prems(2) Run(2) by (simp add: tpool_inv_def)
    then have "pc (threads s ! i) = TaskExit j \<Longrightarrow> j < length (tasks (shared s)) \<and> snd (tasks (shared s) ! j) = Running" for j
      by (fastforce simp: task_running_def split: if_splits)
    with Run(3) have "task_started k q = task_started k (shared s) + ?f p" by (intro started_step) simp_all
    moreover have "weight ?f us = weight ?f ?mid" using Run(4) by (rule weight_deliver_same) simp
    moreover have "weight ?f ?mid + ?f (pc (threads s ! i)) = weight ?f (threads s) + ?f p"
      using weight_update [OF Run(2), of ?f "(threads s ! i)\<lparr>pc := p\<rparr>"] by simp
    ultimately show ?thesis using Run(1,5) by simp
  next
    case (Spurious i)
    then have "weight ?f (threads u) = weight ?f (threads s)" by simp (intro weight_update_same, simp_all)
    with Spurious show ?thesis by simp
  qed simp
  with Cons.IH [OF u(2) inv] u(1) show ?case by (simp add: tasks_run_def)
qed (simp add: tasks_run_def)

section \<open>The phases of a test\<close>

text \<open>While it submits: every earlier submit has returned \<open>Ok\<close> and has spawned its job.\<close>

fun submit_phase :: "'j tpool \<Rightarrow> 'j list \<Rightarrow> 'j tpool_pc \<Rightarrow> bool" where
  "submit_phase q js TIdle = (js = [] \<and> tasks q = [])"
| "submit_phase q js (TDone r) = (map fst (tasks q) = js \<and> r = ClientRes (SubmitRes (Inr ())))"
| "submit_phase q js (SubmitCheck j) = (js = map fst (tasks q) @ [j])"
| "submit_phase q js (ReapAt pt j) = (js = map fst (tasks q) @ [j])"
| "submit_phase q js (AcquireAt pt j) = (js = map fst (tasks q) @ [j] \<and> pt \<noteq> AcqFail)"
| "submit_phase q js (SubmitSeq j) = (js = map fst (tasks q) @ [j])"
| "submit_phase q js (SubmitSpawn j) = (js = map fst (tasks q) @ [j])"
| "submit_phase q js (PushLock k) = (map fst (tasks q) = js)"
| "submit_phase q js (PushHandle k) = (map fst (tasks q) = js)"
| "submit_phase q js p = False"

definition tp_submitting :: "'j list \<Rightarrow> ('j pool_op, 'j tpool, 'j tpool_pc) sys \<Rightarrow> bool" where
  "tp_submitting js s \<longleftrightarrow> tpool_inv s \<and> 0 < length (threads s) \<and> \<not> disposed (shared s)
     \<and> submit_phase (shared s) js (pc (threads s ! 0))
     \<and> (\<forall>j < length (threads s). j \<noteq> 0 \<longrightarrow> tpool_worker (pc (threads s ! j)))"

lemma submit_phase_step:
  assumes "tpool_advance (\<lambda>_ _. True) i t q p = Some (q', p', nt)" and "\<not> disposed q" and "submit_phase q js p"
  shows "submit_phase q' js p' \<and> \<not> disposed q'"
  using assms
  by (cases p) (auto simp: tpool_defs split: if_splits elim!: acquire_stepE reap_stepE)

lemma submit_phase_frame:
  "submit_phase q js p \<Longrightarrow> map fst (tasks q') = map fst (tasks q) \<Longrightarrow> submit_phase q' js p"
  by (cases p) auto

lemma submit_phase_rouse: "submit_phase q js p \<Longrightarrow> submit_phase q js (tpool_rouse p)"
  by (cases p) auto

lemma submit_phase_rest: "submit_phase q js p \<Longrightarrow> tpool_resting p \<Longrightarrow> map fst (tasks q) = js"
  by (cases p) auto

lemma worker_jobs:
  assumes "tpool_advance ok i t q p = Some (q', p', nt)" and "tpool_worker p"
  shows "map fst (tasks q') = map fst (tasks q)"
  using assms by (cases p) (auto simp: tpool_locks split: if_splits elim!: tp_release_stepE)

lemma worker_place: "tpool_inv s \<Longrightarrow> i < length (threads s) \<Longrightarrow> place (pc (threads s ! i)) \<le> thread_count (shared s)"
  using places.balanced_share [of s i] by (fastforce simp: tpool_inv_def)

lemma tp_submitting_exec:
  assumes sub: "tp_submitting js s" and ex: "exec (tpool_machine (\<lambda>_ _. True)) l s = Some t"
    and lab: "workers_only 0 l"
  shows "tp_submitting js t"
proof -
  have inv: "tpool_inv t" using sub tpool_inv_exec [OF _ ex] by (simp add: tp_submitting_def)
  have len: "length (threads t) = length (threads s)" using ex by (rule exec_length)
  have s: "0 < length (threads s)" "\<not> disposed (shared s)" "submit_phase (shared s) js (pc (threads s ! 0))" "tpool_inv s"
    and work: "\<And>j. j < length (threads s) \<Longrightarrow> j \<noteq> 0 \<Longrightarrow> tpool_worker (pc (threads s ! j))"
    using sub by (simp_all add: tp_submitting_def)
  show ?thesis
    using ex
  proof (cases rule: exec_cases)
    case (Call i op)
    with lab obtain k where "i \<noteq> 0" "op = Worker k" by (auto simp: workers_only_def)
    with Call inv len s work show ?thesis by (auto simp: tp_submitting_def nth_list_update)
  next
    case (Run i ks q p nt us)
    then have adv: "tpool_advance (\<lambda>_ _. True) i (now s) (shared s) (pc (threads s ! i)) = Some (q, p, nt)" by simp
    let ?mid = "(threads s)[i := (threads s ! i)\<lparr>pc := p\<rparr>]"
    have own: "submit_phase q js (pc (?mid ! 0)) \<and> \<not> disposed q
        \<and> (\<forall>j < length (threads s). j \<noteq> 0 \<longrightarrow> tpool_worker (pc (?mid ! j)))"
    proof (cases "i = 0")
      case True
      with submit_phase_step [OF adv s(2)] s(1,3) work show ?thesis by simp
    next
      case False
      with worker_step [OF adv work [OF Run(2)] worker_place [OF s(4) Run(2)]] worker_jobs [OF adv work [OF Run(2)]]
        submit_phase_frame [OF s(3), of q] s(2) work show ?thesis by (auto simp: nth_list_update Run(2))
    qed
    have "us ! j = ?mid ! j" if "j < length (threads s)" "j \<noteq> 0" for j
      using that own worker_quiet [of "pc (?mid ! j)"] by (intro deliver_awake [OF Run(4)]) simp_all
    moreover have "submit_phase q js (pc (us ! 0))"
      using deliver_nth [OF Run(4), of 0] own s(1) submit_phase_rouse [of q js "pc (?mid ! 0)"] by auto
    ultimately show ?thesis using Run(5) inv len s(1) own by (simp add: tp_submitting_def)
  next
    case (Spurious i)
    with work [of i] worker_quiet [of "pc (threads s ! i)"] have "i = 0" by (cases "i = 0") auto
    with Spurious inv s work submit_phase_rouse [OF s(3)] show ?thesis by (auto simp: tp_submitting_def nth_list_update)
  next
    case (Tick e)
    with inv sub show ?thesis by (simp add: tp_submitting_def)
  qed
qed

text \<open>Afterwards: the pool is disposed and empty, and every call says so.\<close>

fun answer :: "bool \<Rightarrow> 'j exec_op \<Rightarrow> exec_res" where
  "answer late (Submit j) = SubmitRes (if late then Inl ResourceUnavailable else Inr ())"
| "answer late Dispose = DisposeDone"
| "answer late IsDisposed = DisposedRes late"
| "answer late WorkerCount = CountRes 0"

definition late_phase :: "'j exec_op \<Rightarrow> 'j tpool_pc \<Rightarrow> bool" where
  "late_phase op p \<longleftrightarrow> p = tpool_entry (Client op) \<or> p = TDone (ClientRes (answer True op))
     \<or> (op = WorkerCount \<and> p = CountRead)"

definition emptied :: "'j tpool \<Rightarrow> bool" where
  "emptied q \<longleftrightarrow> disposed q \<and> thread_count q = 0 \<and> (\<forall>k < length (tasks q). snd (tasks q ! k) = Finished)"

definition late_by :: "'j list \<Rightarrow> 'j exec_op \<Rightarrow> ('j pool_op, 'j tpool, 'j tpool_pc) sys \<Rightarrow> bool" where
  "late_by js op s \<longleftrightarrow> tpool_inv s \<and> 0 < length (threads s) \<and> emptied (shared s)
     \<and> map fst (tasks (shared s)) = js \<and> late_phase op (pc (threads s ! 0))
     \<and> (\<forall>j < length (threads s). j \<noteq> 0 \<longrightarrow> tpool_worker (pc (threads s ! j)))"

lemma late_phase_step:
  assumes "tpool_advance ok i t q p = Some (q', p', nt)" and "emptied q" and "late_phase op p"
  shows "late_phase op p' \<and> emptied q' \<and> map fst (tasks q') = map fst (tasks q) \<and> nt = Quiet"
  using assms
  by (cases op) (auto simp: late_phase_def emptied_def tpool_locks split: if_splits)

lemma late_phase_awake: "late_phase op p \<Longrightarrow> tpool_dozing p = None"
  by (cases op) (auto simp: late_phase_def)

lemma emptied_worker_step:
  assumes "tpool_advance ok i t q p = Some (q', p', nt)" and "emptied q" and "tpool_worker p"
    and "\<And>k. inside_task k p \<le> task_running k q"
  shows "q' = q \<and> tpool_worker p' \<and> nt = Quiet"
proof (cases p)
  case (TaskStart k)
  with assms(1,2) show ?thesis by (auto simp: emptied_def split: if_splits)
next
  case (TaskRun k)
  with assms(2) assms(4) [of k] show ?thesis by (auto simp: emptied_def task_running_def split: if_splits)
next
  case (TaskExit k)
  with assms(2) assms(4) [of k] show ?thesis by (auto simp: emptied_def task_running_def split: if_splits)
next
  case (ReleaseAt pt who)
  with assms(3) obtain k where "who = AfterTask k" by auto
  with ReleaseAt assms(2) assms(4) [of k] show ?thesis by (auto simp: emptied_def task_running_def split: if_splits)
qed (use assms(1,3) in auto)

lemma late_by_exec:
  assumes late: "late_by js op s" and ex: "exec (tpool_machine ok) l s = Some t" and lab: "workers_only 0 l"
  shows "late_by js op t"
proof -
  have inv: "tpool_inv t" using late tpool_inv_exec [OF _ ex] by (simp add: late_by_def)
  have s: "0 < length (threads s)" "emptied (shared s)" "late_phase op (pc (threads s ! 0))" "tpool_inv s"
    and work: "\<And>j. j < length (threads s) \<Longrightarrow> j \<noteq> 0 \<Longrightarrow> tpool_worker (pc (threads s ! j))"
    using late by (simp_all add: late_by_def)
  show ?thesis
    using ex
  proof (cases rule: exec_cases)
    case (Call i op')
    with lab obtain k where "i \<noteq> 0" "op' = Worker k" by (auto simp: workers_only_def)
    with Call inv late show ?thesis by (auto simp: late_by_def nth_list_update)
  next
    case (Run i ks q p nt us)
    then have adv: "tpool_advance ok i (now s) (shared s) (pc (threads s ! i)) = Some (q, p, nt)" by simp
    have "inside_task k (pc (threads s ! i)) \<le> task_running k (shared s)" for k
      using all_running_at [of s i k] s(4) Run(2) by (simp add: tpool_inv_def)
    with late_phase_step [OF adv s(2)] emptied_worker_step [OF adv s(2)] work [OF Run(2)] s(2,3)
    have "nt = Quiet \<and> emptied q \<and> map fst (tasks q) = map fst (tasks (shared s))
        \<and> (if i = 0 then late_phase op p else tpool_worker p)" by auto
    with Run(2,4,5) inv late show ?thesis by (auto simp: late_by_def nth_list_update)
  next
    case (Spurious i)
    with work [of i] late_phase_awake [OF s(3)] worker_quiet [of "pc (threads s ! i)"] show ?thesis by (cases "i = 0") auto
  next
    case (Tick e)
    with inv late show ?thesis by (simp add: late_by_def)
  qed
qed

lemma disposing_jobs:
  assumes dis: "disposing d s" and ex: "exec (tpool_machine ok) l s = Some t" and lab: "workers_only d l"
  shows "map fst (tasks (shared t)) = map fst (tasks (shared s))"
  using ex
proof (cases rule: exec_cases)
  case (Run i ks q p nt us)
  then have adv: "tpool_advance ok i (now s) (shared s) (pc (threads s ! i)) = Some (q, p, nt)" by simp
  have "map fst (tasks q) = map fst (tasks (shared s))"
  proof (cases "i = d")
    case True
    with dis have "dispose_phase (shared s) (pc (threads s ! i))" by (simp add: disposing_def)
    with adv show ?thesis
      by (cases "pc (threads s ! i)") (auto simp: tpool_locks split: if_splits list.splits elim!: tp_dispose_stepE)
  next
    case False
    with dis Run(2) have "tpool_worker (pc (threads s ! i))" by (simp add: disposing_def)
    with worker_jobs [OF adv] show ?thesis .
  qed
  with Run(5) show ?thesis by simp
qed simp_all

section \<open>Tests\<close>

text \<open>
  What a test does: the limit of its pool, the calls of its thread with the assertion on each
  result, and the final assertion, on the jobs that have been run. A job counts, panics,
  records the number of jobs running, or does nothing that is asserted.
\<close>

datatype test_job = Count | Panic | Peak | Nothing

type_synonym pool_test = "nat \<times> (test_job exec_op \<times> (exec_res \<Rightarrow> bool)) list \<times> (test_job list \<Rightarrow> bool)"

definition unwrapped :: "test_job \<Rightarrow> test_job exec_op \<times> (exec_res \<Rightarrow> bool)" where
  "unwrapped j = (Submit j, \<lambda>r. r = SubmitRes (Inr ()))"

definition ignored :: "test_job exec_op \<Rightarrow> test_job exec_op \<times> (exec_res \<Rightarrow> bool)" where
  "ignored op = (op, \<lambda>r. True)"

definition count_ups :: "test_job list \<Rightarrow> 32 word" where
  "count_ups jobs = foldl (\<lambda>counter j. if j = Count then counter + 1 else counter) 0 jobs"

text \<open>The pool is dropped at the end of its block, and \<open>Drop\<close> is a \<open>dispose\<close>.\<close>

definition tp_drop :: "'j exec_op" where
  "tp_drop = Dispose"

definition test_dispose_joins_all_tasks :: pool_test where
  "test_dispose_joins_all_tasks =
     (8, replicate 64 (unwrapped Count) @ [ignored tp_drop], \<lambda>jobs. sint (count_ups jobs) = 64)"

definition test_backpressure_caps_concurrency :: pool_test where
  "test_backpressure_caps_concurrency = (4, replicate 32 (unwrapped Peak) @ [ignored tp_drop], \<lambda>jobs. True)"

definition test_panic_isolation :: pool_test where
  "test_panic_isolation =
     (2, replicate 8 (ignored (Submit Panic)) @ replicate 8 (unwrapped Count) @ [ignored tp_drop],
      \<lambda>jobs. sint (count_ups jobs) = 8)"

definition test_reject_after_dispose :: pool_test where
  "test_reject_after_dispose =
     (4, [unwrapped Nothing, ignored Dispose, (IsDisposed, \<lambda>r. r = DisposedRes True),
          (WorkerCount, \<lambda>r. r = CountRes 0),
          (Submit Nothing, \<lambda>r. case r of SubmitRes (Inl e) \<Rightarrow> True | _ \<Rightarrow> False), ignored Dispose, ignored tp_drop],
      \<lambda>jobs. True)"

text \<open>The last test asserts the number of handles kept, before its pool is dropped.\<close>

definition test_reap_bounds_handle_vec ::
    "nat \<times> (test_job exec_op \<times> (exec_res \<Rightarrow> bool)) list \<times> (test_job tpool \<Rightarrow> bool)" where
  "test_reap_bounds_handle_vec =
     (4, replicate 200 (unwrapped Nothing), \<lambda>pool. let remaining = length (handles pool) in remaining \<le> 8)"

definition pool_tests :: "pool_test list" where
  "pool_tests = [test_dispose_joins_all_tasks, test_backpressure_caps_concurrency, test_panic_isolation,
     test_reject_after_dispose]"

definition test_start :: "nat \<Rightarrow> nat \<Rightarrow> ('j pool_op, 'j tpool, 'j tpool_pc) sys" where
  "test_start limit n = boot (with_stack_size (256 * 1024) (tpool_new limit)) TIdle n"

lemma test_start_unsized: "unsized (test_start limit n) = tpool_start limit n"
  by (simp add: test_start_def tpool_start_def unsized_def with_stack_size_def tpool_new_def boot_def)

text \<open>A run of a program, as far as it has come: thread 0 makes its calls, the others carry tasks.\<close>

definition plays :: "'j exec_op list \<Rightarrow> 'j pool_op label list \<Rightarrow> bool" where
  "plays cs ls \<longleftrightarrow> prefix (calls_by 0 ls) (map Client cs)
     \<and> list_all (\<lambda>l. case l of Call i op \<Rightarrow> i = 0 \<or> (case op of Worker k \<Rightarrow> True | _ \<Rightarrow> False) | _ \<Rightarrow> True) ls"

lemma plays_append: "plays cs (ls @ ms) \<Longrightarrow> plays cs ls"
  by (auto simp: plays_def dest: append_prefixD)

text \<open>Only submits come before the first dispose.\<close>

fun later :: "bool \<Rightarrow> 'j exec_op list \<Rightarrow> bool" where
  "later late [] = True"
| "later late (op # ops) =
     (case op of
        Submit j \<Rightarrow> later late ops
      | Dispose \<Rightarrow> later True ops
      | _ \<Rightarrow> late \<and> later late ops)"

text \<open>Where a test stands.\<close>

definition test_phase :: "'j exec_op list \<Rightarrow> ('j pool_op, 'j tpool, 'j tpool_pc) sys \<Rightarrow> bool" where
  "test_phase cs s \<longleftrightarrow>
     (\<exists>js. cs = map Submit js \<and> tp_submitting js s)
     \<or> (\<exists>js. cs = map Submit js @ [Dispose] \<and> disposing 0 s \<and> map fst (tasks (shared s)) = js)
     \<or> (\<exists>js ops op. cs = map Submit js @ Dispose # ops @ [op] \<and> late_by js op s)"

lemma phase_others:
  assumes "test_phase cs s" and "exec (tpool_machine (\<lambda>_ _. True)) l s = Some t" and "workers_only 0 l"
  shows "test_phase cs t"
  using assms(1) unfolding test_phase_def
  using tp_submitting_exec [OF _ assms(2,3)] disposing_exec [OF _ assms(2,3)] disposing_jobs [OF _ assms(2,3)]
    late_by_exec [OF _ assms(2,3)] by metis

lemma dispose_phase_done: "dispose_phase q p \<Longrightarrow> tpool_resting p \<Longrightarrow> \<exists>r. p = TDone r"
  by (cases p) auto

lemma tpool_done_call:
  assumes "tpool_inv s" and "i < length (threads s)" and "pc (threads s ! i) = TDone r"
  shows "\<exists>op. cur (threads s ! i) = Some op \<and> tpool_answers (shared s) op r"
proof -
  have "tpool_ok i (now s) (shared s) (threads s ! i)" using assms(1,2) by (simp add: tpool_inv_def all_threads_def)
  with assms(3) show ?thesis by (auto simp: tpool_ok_def)
qed

lemma phase_call:
  assumes ph: "test_phase cs s" and ex: "exec (tpool_machine ok) (Call 0 (Client op)) s = Some t"
    and later: "later False (cs @ [op])" and cur: "cs \<noteq> [] \<Longrightarrow> cur (threads s ! 0) = Some (Client (last cs))"
  shows "test_phase (cs @ [op]) t"
proof -
  have rest: "0 < length (threads s)" "tpool_resting (pc (threads s ! 0))"
    and t: "t = s\<lparr>threads := (threads s)[0 := \<lparr>cur = Some (Client op), called = now s, pc = tpool_entry (Client op)\<rparr>]\<rparr>"
    using ex by (auto split: if_splits)
  from ph consider (submits) js where "cs = map Submit js" "tp_submitting js s"
    | (dispose) js where "cs = map Submit js @ [Dispose]" "disposing 0 s" "map fst (tasks (shared s)) = js"
    | (late) js ops op' where "cs = map Submit js @ Dispose # ops @ [op']" "late_by js op' s"
    unfolding test_phase_def by blast
  then show ?thesis
  proof cases
    case submits
    then have inv: "tpool_inv t" using tpool_inv_exec [OF _ ex] by (simp add: tp_submitting_def)
    have jobs: "map fst (tasks (shared s)) = js"
      using submits(2) by (intro submit_phase_rest [OF _ rest(2)]) (simp add: tp_submitting_def)
    have skip: "later False (map Submit js @ ops) = later False ops" for ops by (induction js) simp_all
    show ?thesis
    proof (cases op)
      case (Submit j)
      with submits inv jobs rest(1) have "tp_submitting (js @ [j]) t" by (auto simp: tp_submitting_def t)
      with Submit submits(1) show ?thesis unfolding test_phase_def by (intro disjI1 exI [of _ "js @ [j]"]) simp
    next
      case Dispose
      with submits inv rest(1) have "disposing 0 t" by (auto simp: tp_submitting_def disposing_def t)
      with Dispose submits(1) jobs show ?thesis unfolding test_phase_def by (intro disjI2 disjI1 exI [of _ js]) (simp add: t)
    qed (use later submits(1) skip in simp_all)
  next
    case dispose
    then have "dispose_phase (shared s) (pc (threads s ! 0))" by (simp add: disposing_def)
    from dispose_phase_done [OF this rest(2)] obtain r where r: "pc (threads s ! 0) = TDone r" by blast
    have inv: "tpool_inv s" using dispose(2) by (simp add: disposing_def)
    have "disposed (shared s)" using tpool_done_call [OF inv rest(1) r] cur dispose(1) by auto
    then have "emptied (shared s)" using disposing_done [OF dispose(2) r] by (simp add: emptied_def)
    then have "late_by js op t"
      using dispose(2,3) tpool_inv_exec [OF inv ex] rest(1) by (auto simp: late_by_def disposing_def late_phase_def t)
    with dispose(1) show ?thesis unfolding test_phase_def by (intro disjI2 exI [of _ js] exI [of _ "[]"] exI [of _ op]) simp
  next
    case late
    then have "late_by js op t"
      using tpool_inv_exec [OF _ ex] rest(1) by (auto simp: late_by_def late_phase_def t)
    with late(1) show ?thesis unfolding test_phase_def
      by (intro disjI2 exI [of _ js] exI [of _ "ops @ [op']"] exI [of _ op]) simp
  qed
qed

lemma test_phase_run:
  assumes "run (tpool_machine (\<lambda>_ _. True)) ls (tpool_start limit n) = Some s" and "0 < n"
    and "plays cs ls" and "later False cs"
  shows "\<exists>ds. calls_by 0 ls = map Client ds \<and> prefix ds cs \<and> test_phase ds s"
  using assms(1,3)
proof (induction ls arbitrary: s rule: rev_induct)
  case Nil
  have "tp_submitting [] s"
    using Nil.prems(1) assms(2) tpool_inv_start [OF refl, of limit n]
    by (auto simp: tp_submitting_def tpool_start_def tpool_new_def)
  then have "test_phase [] s" unfolding test_phase_def by simp
  then show ?case by simp
next
  case (snoc l ls)
  let ?M = "tpool_machine (\<lambda>_ _. True)"
  from snoc.prems(1) obtain u where u: "run ?M ls (tpool_start limit n) = Some u" "exec ?M l u = Some s"
    by (auto simp: run_append split: option.splits)
  from snoc.IH [OF u(1) plays_append [OF snoc.prems(2)]] obtain ds where
    ds: "calls_by 0 ls = map Client ds" "prefix ds cs" "test_phase ds u" by blast
  show ?case
  proof (cases "calls_by 0 [l] = []")
    case True
    have "workers_only 0 l"
      using True snoc.prems(2) by (cases l) (auto simp: workers_only_def plays_def split: pool_op.splits if_splits)
    with phase_others [OF ds(3) u(2)] ds True show ?thesis by auto
  next
    case False
    then obtain op where l: "l = Call 0 op" by (cases l) (auto split: if_splits)
    obtain zs where zs: "cs = ds @ zs" using ds(2) by (auto simp: prefix_def)
    with snoc.prems(2) ds(1) l have "prefix [op] (map Client zs)" by (simp add: plays_def)
    then obtain z ws where z: "zs = z # ws" "op = Client z" by (cases zs) auto
    have skip: "later b (xs @ ys) \<Longrightarrow> later b xs" for b and xs ys :: "'a exec_op list"
      by (induction xs arbitrary: b) (auto split: exec_op.splits)
    have later: "later False (ds @ [z])" using skip [of False "ds @ [z]" ws] assms(4) zs z(1) by simp
    have "cur (threads u ! 0) = Some (Client (last ds))" if "ds \<noteq> []"
      using run_cur [OF u(1), of 0] ds(1) assms(2) that by (simp add: tpool_start_def last_map)
    with phase_call [OF ds(3) _ later] u(2) l z(2) have "test_phase (ds @ [z]) s" by simp
    with ds(1) l z zs show ?thesis by (intro exI [of _ "ds @ [z]"]) simp
  qed
qed

text \<open>So every call of a test that has returned has given its answer.\<close>

lemma phase_answer:
  assumes "test_phase cs s" and "pc (threads s ! 0) = TDone (ClientRes r)" and "cs \<noteq> []"
    and "cur (threads s ! 0) = Some (Client (last cs))"
  shows "r = answer (Dispose \<in> set (butlast cs)) (last cs)"
proof -
  from assms(1) consider (submits) js where "cs = map Submit js" "tp_submitting js s"
    | (dispose) js where "cs = map Submit js @ [Dispose]" "disposing 0 s"
    | (late) js ops op where "cs = map Submit js @ Dispose # ops @ [op]" "late_by js op s"
    unfolding test_phase_def by blast
  then show ?thesis
  proof cases
    case submits
    with assms(3) obtain xs x where x: "js = xs @ [x]" by (cases js rule: rev_cases) auto
    have "Dispose \<notin> set (map Submit xs)" by auto
    with x submits assms(2) show ?thesis by (simp add: tp_submitting_def butlast_append)
  next
    case dispose
    have "tpool_answers (shared s) (Client Dispose) (ClientRes r)"
      using tpool_done_call [OF _ _ assms(2)] dispose assms(4) by (auto simp: disposing_def)
    with dispose(1) show ?thesis by auto
  next
    case late
    have "late_phase op (TDone (ClientRes r))" using late(2) assms(2) by (simp add: late_by_def)
    then have "r = answer True op" by (cases op) (auto simp: late_phase_def)
    moreover have "Dispose \<in> set (butlast cs)" using late(1) by (simp add: butlast_append)
    ultimately show ?thesis using late(1) by simp
  qed
qed

section \<open>The assertions\<close>

fun checks :: "bool \<Rightarrow> ('j exec_op \<times> (exec_res \<Rightarrow> bool)) list \<Rightarrow> bool" where
  "checks late [] = True"
| "checks late ((op, P) # rest) = (P (answer late op) \<and> checks (late \<or> op = Dispose) rest)"

lemma checks_nth:
  "checks late script \<Longrightarrow> i < length script \<Longrightarrow>
    snd (script ! i) (answer (late \<or> Dispose \<in> set (map fst (take i script))) (fst (script ! i)))"
proof (induction script arbitrary: late i)
  case (Cons x script)
  obtain op P where x: "x = (op, P)" by (cases x)
  show ?case
  proof (cases i)
    case (Suc m)
    with Cons x have "snd (script ! m) (answer ((late \<or> op = Dispose) \<or> Dispose \<in> set (map fst (take m script))) (fst (script ! m)))"
      by (intro Cons.IH) simp_all
    moreover have "((late \<or> op = Dispose) \<or> Dispose \<in> set (map fst (take m script)))
        = (late \<or> Dispose \<in> set (map fst (take i (x # script))))" using Suc x by auto
    ultimately show ?thesis using Suc by simp
  qed (use Cons.prems x in simp)
qed simp

fun jobs_of :: "'j exec_op list \<Rightarrow> 'j list" where
  "jobs_of (Submit j # ops) = j # jobs_of ops"
| "jobs_of ops = []"

lemma script_replicate:
  "later b (replicate m (Submit j) @ ops) = later b ops"
  "jobs_of (replicate m (Submit j) @ ops) = replicate m j @ jobs_of ops"
  "P (SubmitRes (Inr ())) \<Longrightarrow> checks False (replicate m (Submit j, P) @ script) = checks False script"
  by (induction m) simp_all

lemma jobs_of_submits: "jobs_of (map Submit js @ Dispose # ops) = js"
  by (induction js) simp_all

lemma count_ups_count: "count_ups jobs = of_nat (count (mset jobs) Count)"
proof -
  have "foldl (\<lambda>counter j. if j = Count then counter + 1 else counter) c jobs = c + of_nat (count (mset jobs) Count)"
    for c :: "32 word"
    by (induction jobs arbitrary: c) simp_all
  then show ?thesis by (simp add: count_ups_def)
qed

text \<open>Each test's assertions are those the answers satisfy, and its final one depends on the jobs only.\<close>

definition sound_test :: "pool_test \<Rightarrow> bool" where
  "sound_test test \<longleftrightarrow> (case test of (limit, script, final) \<Rightarrow>
     0 < limit \<and> later False (map fst script) \<and> checks False script \<and> Dispose \<in> set (map fst script)
     \<and> (\<forall>jobs. mset jobs = mset (jobs_of (map fst script)) \<longrightarrow> final jobs))"

lemma tests_sound: "test \<in> set pool_tests \<Longrightarrow> sound_test test"
proof -
  note defs = sound_test_def unwrapped_def ignored_def tp_drop_def script_replicate count_ups_count
  have "sound_test test_dispose_joins_all_tasks"
    by (auto simp: test_dispose_joins_all_tasks_def defs)
  moreover have "sound_test test_backpressure_caps_concurrency"
    by (auto simp: test_backpressure_caps_concurrency_def defs)
  moreover have "sound_test test_panic_isolation"
    by (auto simp: test_panic_isolation_def defs)
  moreover have "sound_test test_reject_after_dispose"
    by (auto simp: test_reject_after_dispose_def defs)
  ultimately show "test \<in> set pool_tests \<Longrightarrow> sound_test test" by (auto simp: pool_tests_def)
qed

section \<open>They pass\<close>

lemma tasks_run_unsized:
  "run (tpool_machine ok) ls s = Some t \<Longrightarrow> tasks_run (tpool_machine ok) ls (unsized s) = tasks_run (tpool_machine ok) ls s"
proof (induction ls arbitrary: s)
  case (Cons l ls)
  then obtain u where u: "exec (tpool_machine ok) l s = Some u" "run (tpool_machine ok) ls u = Some t"
    by (auto split: option.splits)
  from Cons.IH [OF u(2)] u(1) exec_unsized [OF u(1)] show ?case by (simp add: tasks_run_def split: label.splits)
qed (simp add: tasks_run_def)

text \<open>At the end every job submitted has been run once.\<close>

lemma finished_jobs:
  assumes run: "run (tpool_machine ok) ls (tpool_start limit n) = Some s"
    and fin: "\<forall>k < length (tasks (shared s)). snd (tasks (shared s) ! k) = Finished"
  shows "mset (map (\<lambda>k. fst (tasks (shared s) ! k)) (tasks_run (tpool_machine ok) ls (tpool_start limit n)))
    = mset (map fst (tasks (shared s)))"
proof -
  let ?xs = "tasks_run (tpool_machine ok) ls (tpool_start limit n)"
  have inv: "tpool_inv s" using tpool_inv_run [OF run tpool_inv_start [OF refl]] .
  have "at_run (pc (threads s ! i)) = []" if "i < length (threads s)" for i
  proof -
    have "inside_task k (pc (threads s ! i)) = 0" for k
      using all_running_at [of s i k] inv that fin by (auto simp: tpool_inv_def task_running_def split: if_splits)
    then show ?thesis by (cases "pc (threads s ! i)") auto
  qed
  then have "weight (\<lambda>p. count_list (at_run p) k) (threads s) = 0" for k by (intro weight_zero) simp
  then have "count_list ?xs k = task_started k (shared s)" for k
    using run_tasks [OF run tpool_inv_start [OF refl], of k]
    by (simp add: tpool_start_def tpool_new_def task_started_def)
  moreover have "count (mset xs) k = count_list xs k" for xs :: "nat list" and k by (induction xs) simp_all
  ultimately have "mset ?xs = mset [0..<length (tasks (shared s))]"
    using fin by (intro multiset_eqI) (auto simp: task_started_def count_mset_0_iff not_in_iff distinct_count_atmost_1)
  then have "mset (map (\<lambda>k. fst (tasks (shared s) ! k)) ?xs)
      = mset (map (\<lambda>k. fst (tasks (shared s) ! k)) [0..<length (tasks (shared s))])"
    by simp
  moreover have "map (\<lambda>k. fst (tasks (shared s) ! k)) [0..<length (tasks (shared s))] = map fst (tasks (shared s))"
    by (rule nth_equalityI) simp_all
  ultimately show ?thesis by simp
qed

lemma phase_finished:
  assumes "test_phase cs s" and "Dispose \<in> set cs" and "tpool_resting (pc (threads s ! 0))"
  shows "(\<forall>k < length (tasks (shared s)). snd (tasks (shared s) ! k) = Finished)
    \<and> map fst (tasks (shared s)) = jobs_of cs"
proof -
  have "cs \<noteq> map Submit js" for js using assms(2) by auto
  with assms(1) consider (dispose) js where "cs = map Submit js @ [Dispose]" "disposing 0 s" "map fst (tasks (shared s)) = js"
    | (late) js ops op where "cs = map Submit js @ Dispose # ops @ [op]" "late_by js op s"
    unfolding test_phase_def by blast
  then show ?thesis
  proof cases
    case dispose
    then have "dispose_phase (shared s) (pc (threads s ! 0))" by (simp add: disposing_def)
    from dispose_phase_done [OF this assms(3)] obtain r where "pc (threads s ! 0) = TDone r" by blast
    with disposing_done [OF dispose(2)] dispose(1,3) show ?thesis by (simp add: jobs_of_submits)
  next
    case late
    then show ?thesis by (simp add: late_by_def emptied_def jobs_of_submits)
  qed
qed

text \<open>
  C26. The tests of the thread-per-task pool pass under every schedule: every result that a test
  unwraps or asserts is as it says, the final assertion holds once its calls have returned,
  never more jobs run at a time than the limit, and when nobody can act and every spawned
  closure has been started, the test's thread is not waiting.
\<close>

theorem tpool_tests_pass:
  assumes test: "(limit, script, final) \<in> set pool_tests" and n: "0 < n"
    and run: "run (tpool_machine (\<lambda>_ _. True)) ls (test_start limit n) = Some s" and plays: "plays (map fst script) ls"
  shows "(\<forall>r. pc (threads s ! 0) = TDone (ClientRes r) \<longrightarrow> snd (script ! (length (calls_by 0 ls) - 1)) r)
    \<and> (length (calls_by 0 ls) = length script \<longrightarrow> tpool_resting (pc (threads s ! 0)) \<longrightarrow>
        final (map (\<lambda>k. fst (tasks (shared s) ! k)) (tasks_run (tpool_machine (\<lambda>_ _. True)) ls (test_start limit n))))
    \<and> inside (\<lambda>p. \<exists>k. p = TaskRun k) (threads s) \<le> limit
    \<and> ((\<forall>i ks. exec (tpool_machine (\<lambda>_ _. True)) (Run i ks) s = None) \<longrightarrow> Pending \<notin> snd ` set (tasks (shared s)) \<longrightarrow>
        tpool_resting (pc (threads s ! 0)))"
proof (intro conjI allI impI)
  let ?M = "tpool_machine (\<lambda>_ _. True) :: (test_job pool_op, test_job tpool, test_job tpool_pc, unit) machine"
  have run': "run ?M ls (tpool_start limit n) = Some (unsized s)"
    using run_unsized [OF run] by (simp add: test_start_unsized)
  have len: "length (threads s) = n" using run_length [OF run] by (simp add: test_start_def)
  note sound = tests_sound [OF test, unfolded sound_test_def, simplified]
  obtain ds where ds: "calls_by 0 ls = map Client ds" "prefix ds (map fst script)" "test_phase ds (unsized s)"
    using test_phase_run [OF run' n plays] sound by blast
  show "snd (script ! (length (calls_by 0 ls) - 1)) r" if r: "pc (threads s ! 0) = TDone (ClientRes r)" for r
  proof -
    have inv: "tpool_inv (unsized s)" using tpool_inv_run [OF run' tpool_inv_start [OF refl]] .
    have cur: "cur (threads s ! 0) \<noteq> None" using tpool_done_call [OF inv, of 0] r len n by auto
    then have ne: "ds \<noteq> []" using run_cur [OF run', of 0] ds(1) n by (auto simp: tpool_start_def)
    then have "cur (threads s ! 0) = Some (Client (last ds))"
      using run_cur [OF run', of 0] ds(1) n by (simp add: tpool_start_def last_map)
    then have ans: "r = answer (Dispose \<in> set (butlast ds)) (last ds)" using phase_answer [OF ds(3)] r ne by simp
    let ?i = "length ds - 1"
    have i: "?i < length script" using ne prefix_length_le [OF ds(2)] by (cases ds) simp_all
    have take: "ds = take (length ds) (map fst script)" using ds(2) by (auto simp: prefix_def)
    have "butlast ds = map fst (take ?i script)"
      using arg_cong [OF take, of butlast] prefix_length_le [OF ds(2)] by (simp add: butlast_take take_map flip: map_butlast)
    moreover have "last ds = fst (script ! ?i)"
      using take ne i by (metis last_conv_nth nth_map nth_take diff_less length_greater_0_conv zero_less_one)
    ultimately show ?thesis using checks_nth [of False script ?i] sound i ans ds(1) by simp
  qed
  show "final (map (\<lambda>k. fst (tasks (shared s) ! k)) (tasks_run ?M ls (test_start limit n)))"
    if "length (calls_by 0 ls) = length script" and rest: "tpool_resting (pc (threads s ! 0))"
  proof -
    obtain zs where zs: "map fst script = ds @ zs" using ds(2) by (auto simp: prefix_def)
    have "length script = length ds + length zs" using arg_cong [OF zs, of length] by simp
    with zs ds(1) that(1) have "ds = map fst script" by simp
    with phase_finished [OF ds(3)] rest sound have
      fin: "\<forall>k < length (tasks (shared s)). snd (tasks (shared s) ! k) = Finished"
        "map fst (tasks (shared s)) = jobs_of (map fst script)" by auto
    with finished_jobs [OF run'] tasks_run_unsized [OF run] sound show ?thesis by (simp add: test_start_unsized)
  qed
  show "inside (\<lambda>p. \<exists>k. p = TaskRun k) (threads s) \<le> limit"
    using tpool_within_limit [OF run'] sound by auto
  show "tpool_resting (pc (threads s ! 0))"
    if stuck: "\<forall>i ks. exec ?M (Run i ks) s = None" and none: "Pending \<notin> snd ` set (tasks (shared s))"
  proof -
    have "exec ?M (Run i ks) (unsized s) = None" for i ks
    proof (cases "i < length (threads s)")
      case True
      have "advance ?M i (now s) (shared s) (pc (threads s ! i)) = None"
        using stuck by (intro stuck_blocked [OF _ True]) simp
      then have "tpool_advance can_spawn i (now s) (shared s) (pc (threads s ! i)) = None" by simp
      from advance_unsized_None [OF this, of None] show ?thesis by simp
    qed simp
    moreover have "snd (tasks (shared s) ! k) \<noteq> Pending" if "k < length (tasks (shared s))" for k
      using none nth_mem [OF that] by (metis image_eqI)
    then have "\<not> 0 < waiting_tasks (shared (unsized s))"
      by (auto simp: waiting_tasks_def tally_pos_nth split: if_splits)
    ultimately show ?thesis using tpool_no_deadlock [OF run' _ n] by auto
  qed
qed

definition rejected_schedule :: "test_job pool_op label list" where
  "rejected_schedule = Call 0 (Client (Submit Nothing)) # acts 0 12 @ Call 1 (Worker 0) # acts 1 4 @ Run 1 [] # acts 1 2
     @ Call 0 (Client Dispose) # acts 0 8 @ Call 0 (Client IsDisposed) # acts 0 1 @ Call 0 (Client WorkerCount) # acts 0 2"

theorem tpool_tests_pass_witness:
  "\<exists>s r. run (tpool_machine can_spawn) rejected_schedule (test_start 4 2) = Some s
    \<and> pc (threads s ! 0) = TDone (ClientRes r) \<and> r = CountRes 0"
proof -
  let ?M = "tpool_machine can_spawn :: (test_job pool_op, test_job tpool, test_job tpool_pc, unit) machine"
  obtain s r where s: "run ?M rejected_schedule (test_start 4 2) = Some s"
    "map pc (threads s) = [TDone (ClientRes r), TDone WorkerRes]"
    by (simp add: rejected_schedule_def test_start_def with_stack_size_def tpool_eval)
  have pc0: "pc (threads s ! 0) = TDone (ClientRes r)" using pcs_nth [OF s(2), of 0] by simp
  obtain script final where test: "test_reject_after_dispose = (4, script, final)"
    "map fst script = [Submit Nothing, Dispose, IsDisposed, WorkerCount, Submit Nothing, Dispose, Dispose]"
    "snd (script ! 3) = (\<lambda>r. r = CountRes 0)"
    by (simp add: test_reject_after_dispose_def unwrapped_def ignored_def tp_drop_def)
  have "(4, script, final) \<in> set pool_tests" using test(1) by (simp add: pool_tests_def)
  moreover have calls: "calls_by 0 rejected_schedule = [Client (Submit Nothing), Client Dispose, Client IsDisposed, Client WorkerCount]"
    by (simp add: rejected_schedule_def acts_def replicate_numeral)
  moreover have "plays (map fst script) rejected_schedule"
    using calls test(2) by (simp add: plays_def) (simp add: rejected_schedule_def acts_def replicate_numeral)
  ultimately have "snd (script ! 3) r" using tpool_tests_pass [of 4 script final 2, OF _ _ s(1)] pc0
    by (simp add: numeral_3_eq_3)
  with test(3) s(1) pc0 show ?thesis by simp
qed

section \<open>The handles are not bounded\<close>

text \<open>
  A task releases its place before its thread ends, and \<open>reap\<close> drops only the handles of ended
  threads. \<open>lingering m\<close>: \<open>m\<close> tasks have been run and released, their threads have not ended.
\<close>

definition lingering :: "nat \<Rightarrow> nat \<Rightarrow> nat \<Rightarrow> (test_job pool_op, test_job tpool, test_job tpool_pc) sys" where
  "lingering limit n m = \<lparr>
     shared = \<lparr>thread_count = 0, count_owner = None, max_threads = limit, disposed = False,
       stack_size = Some (256 * 1024), handles = [0..<m], handles_owner = None, seqno = m mod usize_mod,
       tasks = replicate m (Nothing, Running)\<rparr>,
     now = 0,
     threads = (if m = 0 then \<lparr>cur = None, called = 0, pc = TIdle\<rparr>
         else \<lparr>cur = Some (Client (Submit Nothing)), called = 0, pc = TDone (ClientRes (SubmitRes (Inr ())))\<rparr>)
       # map (\<lambda>k. \<lparr>cur = Some (Worker k), called = 0, pc = TaskExit k\<rparr>) [0..<m]
       @ replicate (n - m) \<lparr>cur = None, called = 0, pc = TIdle\<rparr>\<rparr>"

definition linger_round :: "nat \<Rightarrow> test_job pool_op label list" where
  "linger_round m = Call 0 (Client (Submit Nothing)) # acts 0 (m + 12) @ Call (Suc m) (Worker m) # acts (Suc m) 6"

lemma reap_none:
  assumes "\<forall>h \<in> set (handles q). \<not> is_finished q h" and "m \<le> length (handles q)"
  shows "solo (tpool_machine ok) i t (Suc (length (handles q) - m)) q (ReapAt (ReapLoop m) j)
    = Some (q\<lparr>handles_owner := None\<rparr>, AcquireAt AcqLock j)"
  using assms(2)
proof (induction "length (handles q) - m" arbitrary: m)
  case (Suc d)
  then have m: "m < length (handles q)" "d = length (handles q) - Suc m" by simp_all
  with Suc.hyps(1) [OF m(2)] have "solo (tpool_machine ok) i t (Suc (length (handles q) - Suc m)) q (ReapAt (ReapLoop (Suc m)) j)
      = Some (q\<lparr>handles_owner := None\<rparr>, AcquireAt AcqLock j)" by simp
  moreover have "length (handles q) - m = Suc (length (handles q) - Suc m)" using m(1) by simp
  moreover have "\<not> is_finished q (handles q ! m)" using assms(1) m(1) by simp
  ultimately show ?case using m(1) by simp
qed simp

lemma linger_submit:
  assumes "0 < limit"
  shows "solo (tpool_machine can_spawn) 0 0 (m + 12) (shared (lingering limit n m)) (SubmitCheck Nothing)
    = Some ((shared (lingering limit n m))\<lparr>thread_count := 1, handles := [0..<Suc m], seqno := Suc m mod usize_mod,
          tasks := replicate m (Nothing, Running) @ [(Nothing, Pending)]\<rparr>, TDone (ClientRes (SubmitRes (Inr ()))))"
proof -
  let ?M = "tpool_machine can_spawn :: (test_job pool_op, test_job tpool, test_job tpool_pc, unit) machine"
  let ?q = "shared (lingering limit n m)"
  have "solo ?M 0 0 2 ?q (SubmitCheck Nothing) = Some (?q\<lparr>handles_owner := Some 0\<rparr>, ReapAt (ReapLoop 0) Nothing)"
    by (simp add: solo_numeral lingering_def lock_handles_def)
  moreover have "solo ?M 0 0 (Suc m) (?q\<lparr>handles_owner := Some 0\<rparr>) (ReapAt (ReapLoop 0) Nothing) = Some (?q, AcquireAt AcqLock Nothing)"
    using reap_none [of "?q\<lparr>handles_owner := Some 0\<rparr>" 0 can_spawn 0 0 Nothing]
    by (simp add: lingering_def is_finished_def del: solo.simps)
  moreover have "solo ?M 0 0 9 ?q (AcquireAt AcqLock Nothing)
      = Some (?q\<lparr>thread_count := 1, handles := [0..<Suc m], seqno := Suc m mod usize_mod,
          tasks := replicate m (Nothing, Running) @ [(Nothing, Pending)]\<rparr>, TDone (ClientRes (SubmitRes (Inr ()))))"
    using assms by (simp add: solo_numeral lingering_def tpool_defs mod_Suc_eq)
  ultimately have "solo ?M 0 0 (2 + Suc m + 9) ?q (SubmitCheck Nothing)
      = Some (?q\<lparr>thread_count := 1, handles := [0..<Suc m], seqno := Suc m mod usize_mod,
          tasks := replicate m (Nothing, Running) @ [(Nothing, Pending)]\<rparr>, TDone (ClientRes (SubmitRes (Inr ()))))"
    unfolding solo_add by simp
  moreover have "2 + Suc m + 9 = m + 12" by simp
  ultimately show ?thesis by metis
qed

lemma linger_update: "length L = m \<Longrightarrow> (L @ y # R)[m := z] = L @ z # R"
  by (simp add: list_update_append)

lemma linger_nth: "length L = m \<Longrightarrow> (L @ y # R) ! m = y"
  by (simp add: nth_append)

lemma linger_step:
  assumes "0 < limit" and "m < n"
  shows "run (tpool_machine can_spawn) (linger_round m) (lingering limit n m) = Some (lingering limit n (Suc m))"
proof -
  let ?M = "tpool_machine can_spawn :: (test_job pool_op, test_job tpool, test_job tpool_pc, unit) machine"
  let ?idle = "\<lparr>cur = None, called = 0, pc = TIdle\<rparr> :: (test_job pool_op, test_job tpool_pc) thread"
  let ?main = "\<lambda>p. \<lparr>cur = Some (Client (Submit Nothing)), called = 0, pc = p\<rparr> :: (test_job pool_op, test_job tpool_pc) thread"
  let ?work = "\<lambda>p. \<lparr>cur = Some (Worker m), called = 0, pc = p\<rparr> :: (test_job pool_op, test_job tpool_pc) thread"
  let ?L = "map (\<lambda>k. \<lparr>cur = Some (Worker k), called = 0, pc = TaskExit k\<rparr>) [0..<m]
      :: (test_job pool_op, test_job tpool_pc) thread list"
  let ?R = "replicate (n - Suc m) ?idle"
  let ?done = "TDone (ClientRes (SubmitRes (Inr ()))) :: test_job tpool_pc"
  define q0 where "q0 = shared (lingering limit n m)"
  let ?q = q0
  let ?q1 = "?q\<lparr>thread_count := 1, handles := [0..<Suc m], seqno := Suc m mod usize_mod,
      tasks := replicate m (Nothing, Running) @ [(Nothing, Pending)]\<rparr>"
  let ?q2 = "?q1\<lparr>thread_count := 0, count_owner := Some (Suc m), tasks := replicate (Suc m) (Nothing, Running)\<rparr>"
  define sys where "sys q ts = \<lparr>shared = q, now = 0, threads = ts\<rparr>"
    for q :: "test_job tpool" and ts :: "(test_job pool_op, test_job tpool_pc) thread list"
  have simps [simp]: "shared (sys q ts) = q" "now (sys q ts) = 0" "threads (sys q ts) = ts"
    "(sys q ts)\<lparr>shared := q'\<rparr> = sys q' ts" "(sys q ts)\<lparr>threads := us\<rparr> = sys q us"
    "(sys q ts)\<lparr>shared := q', threads := us\<rparr> = sys q' us" for q q' ts us
    by (simp_all add: sys_def)
  have tail: "replicate (n - m) ?idle = ?idle # ?R" using assms(2) by (simp flip: replicate_Suc add: Suc_diff_Suc)
  let ?a = "if m = 0 then ?idle else ?main ?done"
  have start: "lingering limit n m = sys ?q (?a # ?L @ ?idle # ?R)" by (simp add: q0_def lingering_def sys_def tail)
  have "exec ?M (Call 0 (Client (Submit Nothing))) (lingering limit n m) = Some (sys ?q (?main (SubmitCheck Nothing) # ?L @ ?idle # ?R))"
    unfolding start by simp
  moreover have "run ?M (acts 0 (m + 12)) (sys ?q (?main (SubmitCheck Nothing) # ?L @ ?idle # ?R))
      = Some (sys ?q1 (?main ?done # ?L @ ?idle # ?R))"
    using solo_run [of 0 "sys ?q (?main (SubmitCheck Nothing) # ?L @ ?idle # ?R)" ?M "m + 12"]
      linger_submit [OF assms(1), of m n] by (simp add: q0_def)
  moreover have "exec ?M (Call (Suc m) (Worker m)) (sys ?q1 (?main ?done # ?L @ ?idle # ?R))
      = Some (sys ?q1 (?main ?done # ?L @ ?work (TaskStart m) # ?R))"
    by (simp add: linger_update linger_nth nth_append)
  moreover have "run ?M (acts (Suc m) 4) (sys ?q1 (?main ?done # ?L @ ?work (TaskStart m) # ?R))
      = Some (sys ?q2 (?main ?done # ?L @ ?work (ReleaseAt RelNotify (AfterTask m)) # ?R))"
  proof -
    have "solo ?M (Suc m) 0 4 ?q1 (TaskStart m) = Some (?q2, ReleaseAt RelNotify (AfterTask m))"
      by (simp add: solo_numeral tpool_defs q0_def lingering_def nth_append list_update_append replicate_append_same)
    with solo_run [of "Suc m" "sys ?q1 (?main ?done # ?L @ ?work (TaskStart m) # ?R)" ?M 4] show ?thesis
      by (simp add: linger_update linger_nth nth_append)
  qed
  moreover have "exec ?M (Run (Suc m) []) (sys ?q2 (?main ?done # ?L @ ?work (ReleaseAt RelNotify (AfterTask m)) # ?R))
      = Some (sys ?q2 (?main ?done # ?L @ ?work (ReleaseAt RelUnlock (AfterTask m)) # ?R))"
  proof -
    have "sleepers ?M () (?main ?done # ?L @ ?work (ReleaseAt RelUnlock (AfterTask m)) # ?R) = []"
      by (rule none_asleep) auto
    then show ?thesis by (simp add: linger_update linger_nth nth_append)
  qed
  moreover have "run ?M (acts (Suc m) 1) (sys ?q2 (?main ?done # ?L @ ?work (ReleaseAt RelUnlock (AfterTask m)) # ?R))
      = Some (sys (?q2\<lparr>count_owner := None\<rparr>) (?main ?done # ?L @ ?work (TaskExit m) # ?R))"
    by (simp add: acts_def linger_update linger_nth nth_append)
  moreover have "sys (?q2\<lparr>count_owner := None\<rparr>) (?main ?done # ?L @ ?work (TaskExit m) # ?R) = lingering limit n (Suc m)"
    by (simp add: q0_def lingering_def sys_def)
  moreover have "linger_round m = [Call 0 (Client (Submit Nothing))] @ acts 0 (m + 12) @ [Call (Suc m) (Worker m)]
      @ acts (Suc m) 4 @ [Run (Suc m) []] @ acts (Suc m) 1"
    by (simp add: linger_round_def acts_def eval_nat_numeral)
  ultimately show ?thesis by (simp only: run_append run.simps option.case)
qed

lemma linger_run:
  assumes "0 < limit"
  shows "m \<le> n \<Longrightarrow> \<exists>ls. run (tpool_machine can_spawn) ls (test_start limit (Suc n)) = Some (lingering limit n m)
    \<and> calls_by 0 ls = replicate m (Client (Submit Nothing)) \<and> (\<forall>l \<in> set ls. workers_only 0 l \<or> l = Call 0 (Client (Submit Nothing)))"
proof (induction m)
  case 0
  have "run (tpool_machine can_spawn) [] (test_start limit (Suc n)) = Some (lingering limit n 0)"
    by (simp add: test_start_def boot_def with_stack_size_def tpool_new_def lingering_def)
  then show ?case by fastforce
next
  case (Suc m)
  then obtain ls where ls: "run (tpool_machine can_spawn) ls (test_start limit (Suc n)) = Some (lingering limit n m)"
    "calls_by 0 ls = replicate m (Client (Submit Nothing))"
    "\<forall>l \<in> set ls. workers_only 0 l \<or> l = Call 0 (Client (Submit Nothing))" by auto
  have "calls_by 0 (linger_round m) = [Client (Submit Nothing)]" by (simp add: linger_round_def)
  moreover have "\<forall>l \<in> set (linger_round m). workers_only 0 l \<or> l = Call 0 (Client (Submit Nothing))"
    by (auto simp: linger_round_def acts_def workers_only_def)
  ultimately show ?case using ls linger_step [OF assms, of m n] Suc.prems
    by (intro exI [of _ "ls @ linger_round m"]) (auto simp: run_append replicate_append_same)
qed

text \<open>
  C27. The handles the pool keeps are not bounded by its limit: after any number of submits, each
  of them having returned \<open>Ok\<close>, all of them may still be there, for a task frees its
  place before its thread ends. So \<open>test_reap_bounds_handle_vec\<close> asserts what the pool
  does not promise.
\<close>

theorem tpool_handles_unbounded:
  assumes "0 < limit"
  shows "\<exists>ls s. run (tpool_machine (\<lambda>_ _. True)) ls (test_start limit (Suc m)) = Some s
    \<and> plays (replicate m (Submit Nothing)) ls \<and> calls_by 0 ls = replicate m (Client (Submit Nothing))
    \<and> tpool_resting (pc (threads s ! 0)) \<and> length (handles (shared s)) = m"
proof -
  obtain ls where ls: "run (tpool_machine can_spawn) ls (test_start limit (Suc m)) = Some (lingering limit m m)"
    "calls_by 0 ls = replicate m (Client (Submit Nothing))"
    "\<forall>l \<in> set ls. workers_only 0 l \<or> l = Call 0 (Client (Submit Nothing))"
    using linger_run [OF assms, of m m] by auto
  have "plays (replicate m (Submit Nothing)) ls"
    using ls(2,3) by (auto simp: plays_def list_all_iff workers_only_def split: label.splits pool_op.splits)
  moreover have "tpool_resting (pc (threads (lingering limit m m) ! 0))" by (simp add: lingering_def)
  moreover have "length (handles (shared (lingering limit m m))) = m" by (simp add: lingering_def)
  ultimately show ?thesis using ls(1,2) by blast
qed

theorem tpool_handles_unbounded_witness:
  "case test_reap_bounds_handle_vec of (limit, script, final) \<Rightarrow>
     \<exists>ls s. run (tpool_machine can_spawn) ls (test_start limit 201) = Some s
       \<and> calls_by 0 ls = map (Client \<circ> fst) script \<and> tpool_resting (pc (threads s ! 0)) \<and> \<not> final (shared s)"
proof -
  obtain ls s where "run (tpool_machine can_spawn) ls (test_start 4 201) = Some s"
    "calls_by 0 ls = replicate 200 (Client (Submit Nothing))" "tpool_resting (pc (threads s ! 0))"
    "length (handles (shared s)) = 200"
    using tpool_handles_unbounded [of 4 200] by auto
  then show ?thesis unfolding test_reap_bounds_handle_vec_def prod.case
    by (intro exI [of _ ls] exI [of _ s]) (simp add: unwrapped_def)
qed

end
