(* ===== verification/Clients.thy ===== *)
theory Clients
  imports Contracts Waits
begin

text \<open>
  Client programs of a blocking queue: threads that call its methods, look at the results, start
  and join one another, share counters, and drop the queue in the end. \<open>client_step\<close> runs
  them over the machine of a queue, action by action. \<open>allowed\<close> says that, run over a sequential
  specification with each call at once, no interleaving fails an assertion or deadlocks;
  \<open>explore\<close> searches that out for a program that ends. In the locale \<open>client_queue\<close> a program
  that is allowed makes none of its assertions fail on the queue itself, whatever the schedule, and
  does not end in a deadlock.
\<close>

section \<open>Programs\<close>

text \<open>
  \<open>Do op k\<close> calls \<open>op\<close> and goes on with its result, \<open>Await\<close> is inside such a call; \<open>Fail\<close> is a
  failed assertion; \<open>Start j p q\<close> spawns the thread \<open>j\<close> with the program \<open>p\<close> and goes on with
  \<open>q\<close>; a thread ends with what its closure returns; \<open>Join\<close> waits for that; \<open>Unfinished\<close> asserts
  that a thread has not come to its end. \<open>Add c v\<close> is \<open>fetch_add\<close> on the counter \<open>c\<close>, an
  \<open>AtomicUsize\<close>, and \<open>Look\<close> its \<open>load\<close>. \<open>Destroy\<close>, in the last thread that has the queue, is the
  drop of the queue; the program goes on to drop the items that were left in it. Threads may loop
  for ever, so programs are a codatatype.
\<close>

codatatype 'a prog =
    Halt "'a bq_res option" | Fail
  | Do "'a bq_op" "'a bq_res \<Rightarrow> 'a prog"
  | Await "'a bq_op" "'a bq_res \<Rightarrow> 'a prog"
  | Start nat "'a prog" "'a prog"
  | Join nat "'a bq_res option \<Rightarrow> 'a prog"
  | Unfinished nat "'a prog"
  | Add nat nat "'a prog"
  | Look nat "nat \<Rightarrow> 'a prog"
  | Destroy "'a list \<Rightarrow> 'a prog"

fun halted :: "'a prog \<Rightarrow> bool" where
  "halted (Halt v) = True"
| "halted p = False"

lemma halted_iff: "halted p \<longleftrightarrow> (\<exists>v. p = Halt v)"
  by (cases p) auto

text \<open>Calls whose result is asserted, and loops of them.\<close>

definition want :: "'a bq_op \<Rightarrow> 'a bq_res \<Rightarrow> 'a prog \<Rightarrow> 'a prog" where
  "want op r p = Do op (\<lambda>r'. if r' = r then p else Fail)"

definition pushes_ok :: "'a list \<Rightarrow> 'a prog \<Rightarrow> 'a prog" where
  "pushes_ok xs p = foldr (\<lambda>x. want (OpPush x) (PushRes (Inr ()))) xs p"

definition pops_ok :: "'a list \<Rightarrow> 'a prog \<Rightarrow> 'a prog" where
  "pops_ok xs p = foldr (\<lambda>x. want OpPop (PopRes (Inr x))) xs p"

section \<open>Clients over a queue\<close>

text \<open>The counters, numbered; they are words and wrap.\<close>

type_synonym cells = "nat \<Rightarrow> nat"

definition fetch_add :: "nat \<Rightarrow> nat \<Rightarrow> cells \<Rightarrow> cells" where
  "fetch_add c v m = m(c := (m c + v) mod usize_mod)"

type_synonym ('a, 'q, 'r) client = "('a bq_op, 'q, 'r) sys \<times> 'a prog list \<times> cells"

text \<open>Every other thread has ended.\<close>

definition alone :: "nat \<Rightarrow> 'a prog list \<Rightarrow> bool" where
  "alone i ps \<longleftrightarrow> list_all (\<lambda>j. j = i \<or> halted (ps ! j)) [0..<length ps]"

lemma alone_iff: "alone i ps \<longleftrightarrow> (\<forall>j < length ps. j \<noteq> i \<longrightarrow> halted (ps ! j))"
  by (auto simp: alone_def list_all_iff)

text \<open>The moves of the threads, and what happens by itself: spurious wake-ups and time.\<close>

datatype mover = Thread | Environment

inductive client_step ::
    "('a bq_op, 'q, 'r, 'cv) machine \<Rightarrow> ('r \<Rightarrow> 'a bq_res option) \<Rightarrow> ('q \<Rightarrow> 'a list option) \<Rightarrow> mover
      \<Rightarrow> ('a, 'q, 'r) client \<Rightarrow> ('a, 'q, 'r) client \<Rightarrow> bool"
  for M :: "('a bq_op, 'q, 'r, 'cv) machine" and ret :: "'r \<Rightarrow> 'a bq_res option" and destroy :: "'q \<Rightarrow> 'a list option" where
  act: "exec M (Run i ks) s = Some t \<Longrightarrow> client_step M ret destroy Thread (s, ps, m) (t, ps, m)"
| call: "i < length ps \<Longrightarrow> ps ! i = Do op k \<Longrightarrow> exec M (Call i op) s = Some t \<Longrightarrow>
    client_step M ret destroy Thread (s, ps, m) (t, ps[i := Await op k], m)"
| return: "i < length ps \<Longrightarrow> ps ! i = Await op k \<Longrightarrow> ret (pc (threads s ! i)) = Some r \<Longrightarrow>
    client_step M ret destroy Thread (s, ps, m) (s, ps[i := k r], m)"
| start: "i < length ps \<Longrightarrow> ps ! i = Start j p q \<Longrightarrow> j < length ps \<Longrightarrow> halted (ps ! j) \<Longrightarrow>
    client_step M ret destroy Thread (s, ps, m) (s, ps[j := p, i := q], m)"
| join: "i < length ps \<Longrightarrow> ps ! i = Join j k \<Longrightarrow> j < length ps \<Longrightarrow> ps ! j = Halt v \<Longrightarrow>
    client_step M ret destroy Thread (s, ps, m) (s, ps[i := k v], m)"
| unfinished: "i < length ps \<Longrightarrow> ps ! i = Unfinished j p \<Longrightarrow> j < length ps \<Longrightarrow>
    client_step M ret destroy Thread (s, ps, m) (s, ps[i := if halted (ps ! j) then Fail else p], m)"
| add: "i < length ps \<Longrightarrow> ps ! i = Add c v p \<Longrightarrow>
    client_step M ret destroy Thread (s, ps, m) (s, ps[i := p], fetch_add c v m)"
| look: "i < length ps \<Longrightarrow> ps ! i = Look c k \<Longrightarrow>
    client_step M ret destroy Thread (s, ps, m) (s, ps[i := k (m c)], m)"
| destroy: "i < length ps \<Longrightarrow> ps ! i = Destroy k \<Longrightarrow> alone i ps \<Longrightarrow> destroy (shared s) = Some xs \<Longrightarrow>
    client_step M ret destroy Thread (s, ps, m) (s, ps[i := k xs], m)"
| spurious: "exec M (Spurious i) s = Some t \<Longrightarrow> client_step M ret destroy Environment (s, ps, m) (t, ps, m)"
| tick: "exec M (Tick d) s = Some t \<Longrightarrow> client_step M ret destroy Environment (s, ps, m) (t, ps, m)"

inductive client_reaches ::
    "('a bq_op, 'q, 'r, 'cv) machine \<Rightarrow> ('r \<Rightarrow> 'a bq_res option) \<Rightarrow> ('q \<Rightarrow> 'a list option)
      \<Rightarrow> ('a, 'q, 'r) client \<Rightarrow> ('a, 'q, 'r) client \<Rightarrow> bool"
  for M :: "('a bq_op, 'q, 'r, 'cv) machine" and ret :: "'r \<Rightarrow> 'a bq_res option" and destroy :: "'q \<Rightarrow> 'a list option" where
  here: "client_reaches M ret destroy c c"
| on: "client_reaches M ret destroy c d \<Longrightarrow> client_step M ret destroy m d e \<Longrightarrow> client_reaches M ret destroy c e"

definition client_stuck ::
    "('a bq_op, 'q, 'r, 'cv) machine \<Rightarrow> ('r \<Rightarrow> 'a bq_res option) \<Rightarrow> ('q \<Rightarrow> 'a list option) \<Rightarrow> ('a, 'q, 'r) client \<Rightarrow> bool" where
  "client_stuck M ret destroy c \<longleftrightarrow> (\<forall>d. \<not> client_step M ret destroy Thread c d)"

text \<open>
  The first program is the main thread's; the other threads are not there yet. Counters start at 0.
\<close>

definition launch :: "nat \<Rightarrow> 'a prog \<Rightarrow> 'a prog list" where
  "launch n p = p # replicate (n - 1) (Halt None)"

definition zeros :: cells where
  "zeros = (\<lambda>c. 0)"

section \<open>Clients over a specification\<close>

text \<open>
  \<open>outs op A\<close> lists what \<open>op\<close> may answer on \<open>A\<close>, with the queue it leaves; \<open>safe\<close> says which
  operations may be used, \<open>content\<close> what a drop finds in the queue. \<open>goes_on\<close>: no thread
  fails an assertion, this is no deadlock, and whichever thread moves, \<open>P\<close> holds next.
\<close>

fun waiting :: "('a bq_op \<Rightarrow> 'b \<Rightarrow> ('a bq_res \<times> 'b) list) \<Rightarrow> 'a prog list \<Rightarrow> 'b \<Rightarrow> 'a prog \<Rightarrow> bool" where
  "waiting outs ps A (Halt v) = True"
| "waiting outs ps A (Do op k) = (outs op A = [])"
| "waiting outs ps A (Join j k) = (\<not> halted (ps ! j))"
| "waiting outs ps A p = False"

definition goes_on :: "('a bq_op \<Rightarrow> bool) \<Rightarrow> ('a bq_op \<Rightarrow> 'b \<Rightarrow> ('a bq_res \<times> 'b) list) \<Rightarrow> ('b \<Rightarrow> 'a list)
      \<Rightarrow> ('a prog list \<Rightarrow> 'b \<Rightarrow> cells \<Rightarrow> bool) \<Rightarrow> 'a prog list \<Rightarrow> 'b \<Rightarrow> cells \<Rightarrow> bool" where
  "goes_on safe outs content P ps A m \<longleftrightarrow>
     list_all (\<lambda>i.
        case ps ! i of
          Halt v \<Rightarrow> True
        | Fail \<Rightarrow> False
        | Do op k \<Rightarrow> safe op \<and> list_all (\<lambda>(r, B). P (ps[i := k r]) B m) (outs op A)
        | Await op k \<Rightarrow> False
        | Start j p q \<Rightarrow> j < length ps \<and> j \<noteq> i \<and> halted (ps ! j) \<and> P (ps[j := p, i := q]) A m
        | Join j k \<Rightarrow> j < length ps \<and> (case ps ! j of Halt v \<Rightarrow> P (ps[i := k v]) A m | _ \<Rightarrow> True)
        | Unfinished j p \<Rightarrow> j < length ps \<and> \<not> halted (ps ! j) \<and> P (ps[i := p]) A m
        | Add c v p \<Rightarrow> P (ps[i := p]) A (fetch_add c v m)
        | Look c k \<Rightarrow> P (ps[i := k (m c)]) A m
        | Destroy k \<Rightarrow> alone i ps \<and> P (ps[i := k (content A)]) A m) [0..<length ps]
      \<and> (list_all (waiting outs ps A) ps \<longrightarrow> list_all halted ps)"

lemma goes_on_at:
  assumes "goes_on safe outs content P ps A m" and "i < length ps"
  shows "ps ! i \<noteq> Fail" and "ps ! i \<noteq> Await op k"
    and "ps ! i = Do op k \<Longrightarrow> safe op"
    and "ps ! i = Do op k \<Longrightarrow> (r, B) \<in> set (outs op A) \<Longrightarrow> P (ps[i := k r]) B m"
    and "ps ! i = Start j p q \<Longrightarrow> j < length ps \<and> j \<noteq> i \<and> halted (ps ! j) \<and> P (ps[j := p, i := q]) A m"
    and "ps ! i = Join j l \<Longrightarrow> j < length ps"
    and "ps ! i = Join j l \<Longrightarrow> ps ! j = Halt v \<Longrightarrow> P (ps[i := l v]) A m"
    and "ps ! i = Unfinished j p \<Longrightarrow> j < length ps \<and> \<not> halted (ps ! j) \<and> P (ps[i := p]) A m"
    and "ps ! i = Add c w p \<Longrightarrow> P (ps[i := p]) A (fetch_add c w m)"
    and "ps ! i = Look c f \<Longrightarrow> P (ps[i := f (m c)]) A m"
    and "ps ! i = Destroy g \<Longrightarrow> alone i ps \<and> P (ps[i := g (content A)]) A m"
proof -
  note now = assms(1) [unfolded goes_on_def list_all_iff, THEN conjunct1, rule_format, of i]
  show "ps ! i \<noteq> Fail" and "ps ! i \<noteq> Await op k"
    and "ps ! i = Do op k \<Longrightarrow> safe op"
    and "ps ! i = Do op k \<Longrightarrow> (r, B) \<in> set (outs op A) \<Longrightarrow> P (ps[i := k r]) B m"
    and "ps ! i = Start j p q \<Longrightarrow> j < length ps \<and> j \<noteq> i \<and> halted (ps ! j) \<and> P (ps[j := p, i := q]) A m"
    and "ps ! i = Join j l \<Longrightarrow> j < length ps"
    and "ps ! i = Join j l \<Longrightarrow> ps ! j = Halt v \<Longrightarrow> P (ps[i := l v]) A m"
    and "ps ! i = Unfinished j p \<Longrightarrow> j < length ps \<and> \<not> halted (ps ! j) \<and> P (ps[i := p]) A m"
    and "ps ! i = Add c w p \<Longrightarrow> P (ps[i := p]) A (fetch_add c w m)"
    and "ps ! i = Look c f \<Longrightarrow> P (ps[i := f (m c)]) A m"
    and "ps ! i = Destroy g \<Longrightarrow> alone i ps \<and> P (ps[i := g (content A)]) A m"
    using now assms(2) by (auto simp: list_all_iff)
qed

lemma goes_on_waiting:
  "goes_on safe outs content P ps A m \<Longrightarrow> (\<And>p. p \<in> set ps \<Longrightarrow> waiting outs ps A p) \<Longrightarrow> list_all halted ps"
  by (simp add: goes_on_def list_all_iff)

lemma goes_onI:
  assumes "\<And>i. i < length ps \<Longrightarrow>
      (case ps ! i of
          Halt v \<Rightarrow> True
        | Fail \<Rightarrow> False
        | Do op k \<Rightarrow> safe op \<and> (\<forall>(r, B) \<in> set (outs op A). P (ps[i := k r]) B m)
        | Await op k \<Rightarrow> False
        | Start j p q \<Rightarrow> j < length ps \<and> j \<noteq> i \<and> halted (ps ! j) \<and> P (ps[j := p, i := q]) A m
        | Join j k \<Rightarrow> j < length ps \<and> (\<forall>v. ps ! j = Halt v \<longrightarrow> P (ps[i := k v]) A m)
        | Unfinished j p \<Rightarrow> j < length ps \<and> \<not> halted (ps ! j) \<and> P (ps[i := p]) A m
        | Add c v p \<Rightarrow> P (ps[i := p]) A (fetch_add c v m)
        | Look c k \<Rightarrow> P (ps[i := k (m c)]) A m
        | Destroy k \<Rightarrow> alone i ps \<and> P (ps[i := k (content A)]) A m)"
    and "(\<And>i. i < length ps \<Longrightarrow> waiting outs ps A (ps ! i)) \<Longrightarrow> list_all halted ps"
  shows "goes_on safe outs content P ps A m"
  unfolding goes_on_def
proof (intro conjI impI, unfold list_all_iff, intro ballI)
  fix i assume "i \<in> set [0..<length ps]"
  with assms(1) [of i] show "case ps ! i of
          Halt v \<Rightarrow> True
        | Fail \<Rightarrow> False
        | Do op k \<Rightarrow> safe op \<and> (\<forall>x \<in> set (outs op A). case x of (r, B) \<Rightarrow> P (ps[i := k r]) B m)
        | Await op k \<Rightarrow> False
        | Start j p q \<Rightarrow> j < length ps \<and> j \<noteq> i \<and> halted (ps ! j) \<and> P (ps[j := p, i := q]) A m
        | Join j k \<Rightarrow> j < length ps \<and> (case ps ! j of Halt v \<Rightarrow> P (ps[i := k v]) A m | _ \<Rightarrow> True)
        | Unfinished j p \<Rightarrow> j < length ps \<and> \<not> halted (ps ! j) \<and> P (ps[i := p]) A m
        | Add c v p \<Rightarrow> P (ps[i := p]) A (fetch_add c v m)
        | Look c k \<Rightarrow> P (ps[i := k (m c)]) A m
        | Destroy k \<Rightarrow> alone i ps \<and> P (ps[i := k (content A)]) A m"
    by (cases "ps ! i") (simp_all split: prog.split)
next
  show "\<forall>p \<in> set ps. halted p" if "\<forall>p \<in> set ps. waiting outs ps A p"
    using that assms(2) by (simp add: list_all_iff)
qed

lemma goes_on_mono [mono]:
  assumes "\<And>ps A m. P ps A m \<longrightarrow> Q ps A m"
  shows "goes_on safe outs content P ps A m \<longrightarrow> goes_on safe outs content Q ps A m"
proof
  assume go: "goes_on safe outs content P ps A m"
  note at = goes_on_at [OF go]
  show "goes_on safe outs content Q ps A m"
  proof (rule goes_onI)
    fix i assume "i < length ps"
    with at [OF this] assms show "case ps ! i of
          Halt v \<Rightarrow> True
        | Fail \<Rightarrow> False
        | Do op k \<Rightarrow> safe op \<and> (\<forall>(r, B) \<in> set (outs op A). Q (ps[i := k r]) B m)
        | Await op k \<Rightarrow> False
        | Start j p q \<Rightarrow> j < length ps \<and> j \<noteq> i \<and> halted (ps ! j) \<and> Q (ps[j := p, i := q]) A m
        | Join j k \<Rightarrow> j < length ps \<and> (\<forall>v. ps ! j = Halt v \<longrightarrow> Q (ps[i := k v]) A m)
        | Unfinished j p \<Rightarrow> j < length ps \<and> \<not> halted (ps ! j) \<and> Q (ps[i := p]) A m
        | Add c v p \<Rightarrow> Q (ps[i := p]) A (fetch_add c v m)
        | Look c k \<Rightarrow> Q (ps[i := k (m c)]) A m
        | Destroy k \<Rightarrow> alone i ps \<and> Q (ps[i := k (content A)]) A m"
      by (auto split: prog.splits)
  next
    assume "\<And>i. i < length ps \<Longrightarrow> waiting outs ps A (ps ! i)"
    then show "list_all halted ps" by (intro goes_on_waiting [OF go]) (auto simp: in_set_conv_nth)
  qed
qed

text \<open>It goes on like this for ever.\<close>

coinductive allowed :: "('a bq_op \<Rightarrow> bool) \<Rightarrow> ('a bq_op \<Rightarrow> 'b \<Rightarrow> ('a bq_res \<times> 'b) list) \<Rightarrow> ('b \<Rightarrow> 'a list)
      \<Rightarrow> 'a prog list \<Rightarrow> 'b \<Rightarrow> cells \<Rightarrow> bool"
  for safe :: "'a bq_op \<Rightarrow> bool" and outs :: "'a bq_op \<Rightarrow> 'b \<Rightarrow> ('a bq_res \<times> 'b) list" and content :: "'b \<Rightarrow> 'a list" where
  allowedI: "goes_on safe outs content (allowed safe outs content) ps A m \<Longrightarrow> allowed safe outs content ps A m"

lemma allowed_goes_on: "allowed safe outs content ps A m \<Longrightarrow> goes_on safe outs content (allowed safe outs content) ps A m"
  by (erule allowed.cases) simp

text \<open>An invariant that \<open>goes_on\<close> keeps proves it.\<close>

lemma allowed_invariant:
  assumes step: "\<And>ps A m. Q ps A m \<Longrightarrow> goes_on safe outs content Q ps A m" and "Q ps A m"
  shows "allowed safe outs content ps A m"
  using assms(2)
proof (coinduction arbitrary: ps A m rule: allowed.coinduct)
  case (allowed ps A m)
  from step [OF this] have "goes_on safe outs content (\<lambda>ps A m. Q ps A m \<or> allowed safe outs content ps A m) ps A m"
    by (rule goes_on_mono [THEN mp, rotated]) simp
  then show ?case by simp
qed

text \<open>A search with fuel, for a program that ends; it rejects what it cannot finish.\<close>

fun explore :: "('a bq_op \<Rightarrow> bool) \<Rightarrow> ('a bq_op \<Rightarrow> 'b \<Rightarrow> ('a bq_res \<times> 'b) list) \<Rightarrow> ('b \<Rightarrow> 'a list) \<Rightarrow> nat
      \<Rightarrow> 'a prog list \<Rightarrow> 'b \<Rightarrow> cells \<Rightarrow> bool" where
  "explore safe outs content 0 ps A m = False"
| "explore safe outs content (Suc n) ps A m = goes_on safe outs content (explore safe outs content n) ps A m"

lemma explore_allowed: "explore safe outs content n ps A m \<Longrightarrow> allowed safe outs content ps A m"
proof (induction n arbitrary: ps A m)
  case (Suc n)
  then have "goes_on safe outs content (allowed safe outs content) ps A m"
    using goes_on_mono [of "explore safe outs content n" "allowed safe outs content"] by simp
  then show ?case by (rule allowedI)
qed simp

declare explore.simps [simp del]

section \<open>A thread that has called is inside its call or has returned\<close>

definition begun :: "('r \<Rightarrow> bool) \<Rightarrow> ('op, 'q, 'r) sys \<Rightarrow> bool" where
  "begun P s \<longleftrightarrow> (\<forall>i < length (threads s). cur (threads s ! i) \<noteq> None \<longrightarrow> P (pc (threads s ! i)))"

context machine_rules
begin

lemma begun_exec:
  assumes "\<And>op. P (entry M op)" and "\<And>i t q p q' p' nt. advance M i t q p = Some (q', p', nt) \<Longrightarrow> P p'"
    and "\<And>p. dozing M p \<noteq> None \<Longrightarrow> P (rouse M p)"
    and b: "begun P s" and ex: "exec M l s = Some t"
  shows "begun P t"
proof (cases l)
  case (Run i ks)
  with ex have "exec M (Run i ks) s = Some t" by simp
  then show ?thesis
  proof (rule run_mover)
    fix q p nt
    assume i: "i < length (threads s)" and adv: "advance M i (now s) (shared s) (pc (threads s ! i)) = Some (q, p, nt)"
      and own: "threads t ! i = (threads s ! i)\<lparr>pc := p\<rparr>"
      and oth: "\<And>j. j < length (threads s) \<Longrightarrow> j \<noteq> i \<Longrightarrow> threads t ! j = threads s ! j \<or>
        (dozing M (pc (threads s ! j)) \<noteq> None
          \<and> threads t ! j = (threads s ! j)\<lparr>pc := rouse M (pc (threads s ! j))\<rparr>)"
    have "cur (threads t ! j) \<noteq> None \<longrightarrow> P (pc (threads t ! j))" if "j < length (threads s)" for j
      using that oth [OF that] own assms(2) [OF adv] assms(3) [of "pc (threads s ! j)"] b by (cases "j = i") (auto simp: begun_def)
    then show ?thesis using exec_length [OF ex] by (simp add: begun_def)
  qed
qed (use assms in \<open>auto simp: begun_def nth_list_update split: if_splits\<close>)

end

section \<open>Soundness\<close>

text \<open>
  The queue is linearizable; a returned call of a \<open>safe\<close> operation returned what it was
  decided with, which is among \<open>outs\<close>; and when no thread can act, a call that has not returned
  waits for what \<open>outs\<close> says is not there, or is a timed wait. A queue that nobody is calling is
  dropped with what it contains.
\<close>

locale client_queue = machine_rules M + linearizable M inv dec absf spec
  for M :: "('a bq_op, 'q, 'r, 'cv) machine" and inv :: "('a bq_op, 'q, 'r) sys \<Rightarrow> bool"
    and dec :: "'q \<Rightarrow> 'r \<Rightarrow> 'a bq_res option" and absf :: "('a bq_op, 'q, 'r) sys \<Rightarrow> 'b"
    and spec :: "'a bq_op \<Rightarrow> 'a bq_res \<Rightarrow> 'b \<Rightarrow> 'b option" +
  fixes ret :: "'r \<Rightarrow> 'a bq_res option" and safe :: "'a bq_op \<Rightarrow> bool"
    and outs :: "'a bq_op \<Rightarrow> 'b \<Rightarrow> ('a bq_res \<times> 'b) list" and live :: "('a bq_op, 'q, 'r) sys \<Rightarrow> bool"
    and destroy :: "'q \<Rightarrow> 'a list option" and content :: "'b \<Rightarrow> 'a list"
  assumes live_inv: "live s \<Longrightarrow> inv s"
    and live_exec: "live s \<Longrightarrow> exec M l s = Some t \<Longrightarrow> live t"
    and ret_resting: "ret p = Some r \<Longrightarrow> resting M p"
    and ret_decided: "\<lbrakk>inv s; i < length (threads s); cur (threads s ! i) = Some op; safe op;
      ret (pc (threads s ! i)) = Some r\<rbrakk> \<Longrightarrow> dec (shared s) (pc (threads s ! i)) = Some r"
    and spec_outs: "safe op \<Longrightarrow> spec op r A = Some B \<Longrightarrow> (r, B) \<in> set (outs op A)"
    and stuck_waits: "\<lbrakk>live s; \<And>i ks. exec M (Run i ks) s = None; i < length (threads s);
      cur (threads s ! i) = Some op; safe op; ret (pc (threads s ! i)) = None\<rbrakk> \<Longrightarrow>
      dec (shared s) (pc (threads s ! i)) = None \<and> (op_limit op = None \<longrightarrow> outs op (absf s) = [])"
    and destroy_content: "\<lbrakk>live s; \<And>i. i < length (threads s) \<Longrightarrow> resting M (pc (threads s ! i))\<rbrakk> \<Longrightarrow>
      destroy (shared s) = Some (content (absf s))"
begin

text \<open>The program a thread has left, its call in progress taken as done once it is decided.\<close>

definition left :: "('a bq_op, 'q, 'r) sys \<Rightarrow> nat \<Rightarrow> 'a prog \<Rightarrow> 'a prog" where
  "left s i p =
     (case p of
        Await op k \<Rightarrow> (case dec (shared s) (pc (threads s ! i)) of None \<Rightarrow> Do op k | Some r \<Rightarrow> k r)
      | _ \<Rightarrow> p)"

definition all_left :: "('a bq_op, 'q, 'r) sys \<Rightarrow> 'a prog list \<Rightarrow> 'a prog list" where
  "all_left s ps = map (\<lambda>i. left s i (ps ! i)) [0..<length ps]"

definition in_step :: "('a bq_op, 'q, 'r) sys \<Rightarrow> nat \<Rightarrow> 'a prog \<Rightarrow> bool" where
  "in_step s i p =
     (case p of
        Await op k \<Rightarrow> cur (threads s ! i) = Some op \<and> safe op
      | _ \<Rightarrow> resting M (pc (threads s ! i)))"

definition client_ok :: "('a, 'q, 'r) client \<Rightarrow> bool" where
  "client_ok c \<longleftrightarrow> (case c of (s, ps, m) \<Rightarrow>
     live s \<and> length ps = length (threads s) \<and> (\<forall>i < length ps. in_step s i (ps ! i))
     \<and> allowed safe outs content (all_left s ps) (absf s) m)"

lemma all_left_simps [simp]:
  "length (all_left s ps) = length ps" "i < length ps \<Longrightarrow> all_left s ps ! i = left s i (ps ! i)"
  by (simp_all add: all_left_def)

lemma left_simps [simp]:
  "left s i (Halt v) = Halt v" "left s i Fail = Fail" "left s i (Do op k) = Do op k"
  "left s i (Start j p q) = Start j p q" "left s i (Join j l) = Join j l"
  "left s i (Unfinished j p) = Unfinished j p" "left s i (Add c d p) = Add c d p"
  "left s i (Look c f) = Look c f" "left s i (Destroy g) = Destroy g"
  by (simp_all add: left_def)

lemma left_plain: "\<forall>op k. p \<noteq> Await op k \<Longrightarrow> left s i p = p"
  by (cases p) auto

lemma in_step_plain: "\<forall>op k. p \<noteq> Await op k \<Longrightarrow> in_step s i p = resting M (pc (threads s ! i))"
  by (cases p) (auto simp: in_step_def)

text \<open>A program step, seen in what is left: only the programs \<open>goes_on\<close> goes on with appear.\<close>

lemma all_left_update:
  assumes "i < length ps" and "\<forall>op k. p \<noteq> Await op k"
  shows "all_left s (ps[i := p]) = (all_left s ps)[i := p]"
  using assms by (intro nth_equalityI) (auto simp: nth_list_update left_plain)

lemma allowed_plain: "allowed safe outs content ps A m \<Longrightarrow> i < length ps \<Longrightarrow> \<forall>op k. ps ! i \<noteq> Await op k"
  by (intro allI goes_on_at(2) [OF allowed_goes_on])

lemma in_step_update:
  assumes "\<forall>j < length ps. in_step s j (ps ! j)" and "i < length ps" and "\<forall>op k. p \<noteq> Await op k"
    and "resting M (pc (threads s ! i))" and "j < length ps"
  shows "in_step s j (ps[i := p] ! j)"
  using assms by (auto simp: nth_list_update in_step_plain)

text \<open>A thread at rest is left alone by everybody else.\<close>

lemma resting_kept:
  assumes "exec M l s = Some t" and "\<And>i op. l \<noteq> Call i op" and "j < length (threads s)"
    and "resting M (pc (threads s ! j))"
  shows "threads t ! j = threads s ! j"
proof (cases l)
  case (Run i ks)
  with assms(1) have ex: "exec M (Run i ks) s = Some t" by simp
  from ex show ?thesis
  proof (rule run_mover)
    fix q p nt
    assume adv: "advance M i (now s) (shared s) (pc (threads s ! i)) = Some (q, p, nt)"
      and oth: "\<And>j. j < length (threads s) \<Longrightarrow> j \<noteq> i \<Longrightarrow> threads t ! j = threads s ! j \<or>
        (dozing M (pc (threads s ! j)) \<noteq> None
          \<and> threads t ! j = (threads s ! j)\<lparr>pc := rouse M (pc (threads s ! j))\<rparr>)"
    have "j \<noteq> i" using adv rest_blocked [OF assms(4)] by auto
    with oth [OF assms(3)] rest_awake [OF assms(4)] show ?thesis by simp
  qed
next
  case (Spurious i)
  with assms rest_awake [OF assms(4)] show ?thesis by (auto simp: nth_list_update split: if_splits)
qed (use assms in auto)

lemma client_ok_at:
  assumes "client_ok (s, ps, m)" and "i < length ps"
  shows "i < length (threads s)" and "in_step s i (ps ! i)"
  using assms by (auto simp: client_ok_def)

lemma client_ok_allowed: "client_ok (s, ps, m) \<Longrightarrow> allowed safe outs content (all_left s ps) (absf s) m"
  by (simp add: client_ok_def)

lemma client_ok_next:
  "client_ok (s, ps, m) \<Longrightarrow> goes_on safe outs content (allowed safe outs content) (all_left s ps) (absf s) m"
  by (rule allowed_goes_on [OF client_ok_allowed])

lemma client_ok_others:
  assumes "client_ok (s, ps, m)" and "exec M l s = Some t" and "\<And>i op. l \<noteq> Call i op"
    and "\<And>j. j < length (threads s) \<Longrightarrow> cur (threads t ! j) = cur (threads s ! j)"
    and "allowed safe outs content (all_left t ps) (absf t) m"
  shows "client_ok (t, ps, m)"
proof -
  have "in_step t j (ps ! j)" if j: "j < length ps" for j
  proof -
    note at = client_ok_at [OF assms(1) j]
    show ?thesis
      using at(2) resting_kept [OF assms(2,3) at(1)] assms(4) [OF at(1)]
      by (auto simp: in_step_def split: prog.splits)
  qed
  then show ?thesis
    using assms(1,5) live_exec [OF _ assms(2)] exec_length [OF assms(2)] by (auto simp: client_ok_def)
qed

lemma left_kept:
  assumes "\<And>j. j < length ps \<Longrightarrow> dec (shared t) (pc (threads t ! j)) = dec (shared s) (pc (threads s ! j))"
  shows "all_left t ps = all_left s ps"
  using assms by (intro nth_equalityI) (auto simp: left_def split: prog.splits)

lemma client_ok_environment:
  assumes ok: "client_ok (s, ps, m)" and ex: "exec M l s = Some t" and l: "l = Tick d \<or> l = Spurious i"
  shows "client_ok (t, ps, m)"
proof -
  have inv: "inv s" and len: "length ps = length (threads s)"
    using ok live_inv by (auto simp: client_ok_def)
  have same: "cur (threads t ! j) = cur (threads s ! j)
      \<and> dec (shared t) (pc (threads t ! j)) = dec (shared s) (pc (threads s ! j))"
    if "j < length (threads s)" for j
    using ex l that rouse_undecided by (auto simp: nth_list_update split: if_splits)
  have "absf t = absf s" using l ex quiet_abs [OF inv] tick_abs [OF inv] by auto
  moreover have "all_left t ps = all_left s ps" using same len by (intro left_kept) simp
  ultimately have "allowed safe outs content (all_left t ps) (absf t) m" using client_ok_allowed [OF ok] by simp
  with l same show ?thesis by (intro client_ok_others [OF ok ex]) auto
qed

lemma client_ok_act:
  assumes ok: "client_ok (s, ps, m)" and ex: "exec M (Run i ks) s = Some t"
  shows "client_ok (t, ps, m)"
proof -
  have inv: "inv s" and len: "length ps = length (threads s)"
    using ok live_inv by (auto simp: client_ok_def)
  from ex have i: "i < length ps" and moved: "\<not> resting M (pc (threads s ! i))"
    and own: "cur (threads t ! i) = cur (threads s ! i)"
    by (rule run_mover, use len rest_blocked in auto)+
  from client_ok_at(2) [OF ok i] moved obtain op k where
    p: "ps ! i = Await op k" "cur (threads s ! i) = Some op" "safe op"
    by (cases "ps ! i") (auto simp: in_step_def)
  note others = exec_others [OF inv ex]
  have same: "cur (threads t ! j) = cur (threads s ! j)" if "j < length (threads s)" for j
    using others [OF that] own by (cases "j = i") auto
  have "allowed safe outs content (all_left t ps) (absf t) m"
  proof (cases "dec (shared t) (pc (threads t ! i)) = dec (shared s) (pc (threads s ! i))")
    case True
    then have "all_left t ps = all_left s ps"
      using others len by (intro left_kept) metis
    moreover have "absf t = absf s" using step_self [OF inv ex] True by (auto split: option.splits)
    ultimately show ?thesis using client_ok_allowed [OF ok] by simp
  next
    case False
    with step_self [OF inv ex] p(2) obtain r where
      r: "dec (shared s) (pc (threads s ! i)) = None" "dec (shared t) (pc (threads t ! i)) = Some r"
        "spec op r (absf s) = Some (absf t)"
      by (auto split: option.splits)
    have "all_left t ps = (all_left s ps)[i := k r]"
    proof (rule nth_equalityI)
      fix j assume "j < length (all_left t ps)"
      then have j: "j < length ps" by simp
      then show "all_left t ps ! j = (all_left s ps)[i := k r] ! j"
        using others [of j] len p(1) r(2) by (cases "j = i") (auto simp: left_def split: prog.splits)
    qed simp
    moreover have "all_left s ps ! i = Do op k" using i p(1) r(1) by (simp add: left_def)
    ultimately show ?thesis
      using goes_on_at(4) [OF client_ok_next [OF ok], of i op k] i spec_outs [OF p(3) r(3)] by simp
  qed
  with same show ?thesis by (intro client_ok_others [OF ok ex]) auto
qed

lemma client_ok_call:
  assumes ok: "client_ok (s, ps, m)" and i: "i < length ps" and p: "ps ! i = Do op k"
    and ex: "exec M (Call i op) s = Some t"
  shows "client_ok (t, ps[i := Await op k], m)"
proof -
  have inv: "inv s" and len: "length ps = length (threads s)"
    using ok live_inv by (auto simp: client_ok_def)
  have "all_left s ps ! i = Do op k" using i p by simp
  then have safe: "safe op" using goes_on_at(3) [OF client_ok_next [OF ok], of i] i by simp
  have t: "t = s\<lparr>threads := (threads s)[i := \<lparr>cur = Some op, called = now s, pc = entry M op\<rparr>]\<rparr>"
    using ex by (auto split: if_splits)
  have "all_left t (ps[i := Await op k]) = all_left s ps"
    using i len p by (intro nth_equalityI) (auto simp: t left_def nth_list_update call_undecided split: prog.splits)
  moreover have "in_step t j (ps[i := Await op k] ! j)" if "j < length ps" for j
    using client_ok_at(2) [OF ok that] i that len safe
    by (cases "j = i") (auto simp: t in_step_def split: prog.splits)
  ultimately show ?thesis
    using ok call_abs [OF inv ex] live_exec [OF _ ex] len by (auto simp: client_ok_def t)
qed

text \<open>The steps of the programs themselves.\<close>

lemma client_ok_program:
  assumes ok: "client_ok (s, ps, m)" and i: "i < length ps"
    and n: "allowed safe outs content ((all_left s ps)[i := p]) (absf s) m'"
    and rest: "resting M (pc (threads s ! i))"
  shows "client_ok (s, ps[i := p], m')"
proof -
  have p: "\<forall>op k. p \<noteq> Await op k" using allowed_plain [OF n, of i] i by simp
  with ok n i rest show ?thesis
    using in_step_update [of ps s i p] all_left_update [OF i p, of s] by (auto simp: client_ok_def)
qed

lemma client_ok_return:
  assumes ok: "client_ok (s, ps, m)" and i: "i < length ps" and p: "ps ! i = Await op k"
    and r: "ret (pc (threads s ! i)) = Some r"
  shows "client_ok (s, ps[i := k r], m)"
proof -
  have inv: "inv s" using ok live_inv by (auto simp: client_ok_def)
  note at = client_ok_at [OF ok i]
  have dec: "dec (shared s) (pc (threads s ! i)) = Some r"
    using at(2) p r by (intro ret_decided [OF inv at(1)]) (auto simp: in_step_def)
  then have "all_left s ps ! i = k r" using i p by (simp add: left_def)
  then have "(all_left s ps)[i := k r] = all_left s ps" by (metis list_update_id)
  with client_ok_allowed [OF ok] ret_resting [OF r] show ?thesis by (auto intro: client_ok_program [OF ok i])
qed

lemma left_at_rest:
  assumes "client_ok (s, ps, m)" and "i < length ps" and "\<forall>op k. ps ! i \<noteq> Await op k"
  shows "resting M (pc (threads s ! i))" and "all_left s ps ! i = ps ! i"
  using client_ok_at(2) [OF assms(1,2)] assms(2,3) by (simp_all add: in_step_plain left_plain)

lemma client_ok_start:
  assumes ok: "client_ok (s, ps, m)" and i: "i < length ps" and p: "ps ! i = Start j p q"
    and j: "j < length ps" "halted (ps ! j)"
  shows "client_ok (s, ps[j := p, i := q], m)"
proof -
  have "\<forall>op k. ps ! j \<noteq> Await op k" using j(2) by (auto simp: halted_iff)
  note at = left_at_rest [OF ok i] left_at_rest [OF ok j(1) this]
  have new: "j \<noteq> i" "allowed safe outs content ((all_left s ps)[j := p, i := q]) (absf s) m"
    using goes_on_at(5) [OF client_ok_next [OF ok], of i j p q] i at p by simp_all
  have plain: "\<forall>op k. p \<noteq> Await op k" "\<forall>op k. q \<noteq> Await op k"
    using allowed_plain [OF new(2), of j] allowed_plain [OF new(2), of i] new(1) i j(1) by simp_all
  have "in_step s l (ps[j := p] ! l)" if "l < length ps" for l
    using client_ok_at(2) [OF ok] j plain(1) at that by (intro in_step_update) auto
  then have "in_step s l (ps[j := p, i := q] ! l)" if "l < length ps" for l
    using i plain(2) at p that by (intro in_step_update) auto
  with ok new(2) show ?thesis
    using all_left_update [of i "ps[j := p]" q s] all_left_update [of j ps p s] i j(1) plain by (auto simp: client_ok_def)
qed

lemma client_ok_join:
  assumes ok: "client_ok (s, ps, m)" and i: "i < length ps" and p: "ps ! i = Join j k"
    and j: "j < length ps" "ps ! j = Halt v"
  shows "client_ok (s, ps[i := k v], m)"
proof -
  note at = left_at_rest [OF ok i] left_at_rest [OF ok j(1)]
  have "allowed safe outs content ((all_left s ps)[i := k v]) (absf s) m"
    using goes_on_at(7) [OF client_ok_next [OF ok], of i j k v] i at p j by simp
  with at p show ?thesis by (intro client_ok_program [OF ok i]) auto
qed

lemma client_ok_unfinished:
  assumes ok: "client_ok (s, ps, m)" and i: "i < length ps" and p: "ps ! i = Unfinished j p" and j: "j < length ps"
  shows "client_ok (s, ps[i := if halted (ps ! j) then Fail else p], m)"
proof -
  note at = left_at_rest [OF ok i]
  have new: "\<not> halted (all_left s ps ! j)" "allowed safe outs content ((all_left s ps)[i := p]) (absf s) m"
    using goes_on_at(8) [OF client_ok_next [OF ok], of i j p] i at p by (simp_all del: all_left_simps(2))
  from new(1) j have "\<not> halted (ps ! j)" by (auto simp: halted_iff)
  with new(2) at p show ?thesis by (auto intro: client_ok_program [OF ok i])
qed

lemma client_ok_add:
  assumes ok: "client_ok (s, ps, m)" and i: "i < length ps" and p: "ps ! i = Add c v p"
  shows "client_ok (s, ps[i := p], fetch_add c v m)"
proof -
  note at = left_at_rest [OF ok i]
  have "allowed safe outs content ((all_left s ps)[i := p]) (absf s) (fetch_add c v m)"
    using goes_on_at(9) [OF client_ok_next [OF ok], of i c v p] i at p by simp
  with at p show ?thesis by (intro client_ok_program [OF ok i]) auto
qed

lemma client_ok_look:
  assumes ok: "client_ok (s, ps, m)" and i: "i < length ps" and p: "ps ! i = Look c k"
  shows "client_ok (s, ps[i := k (m c)], m)"
proof -
  note at = left_at_rest [OF ok i]
  have "allowed safe outs content ((all_left s ps)[i := k (m c)]) (absf s) m"
    using goes_on_at(10) [OF client_ok_next [OF ok], of i c k] i at p by simp
  with at p show ?thesis by (intro client_ok_program [OF ok i]) auto
qed

lemma alone_resting:
  assumes ok: "client_ok (s, ps, m)" and i: "i < length ps" and p: "ps ! i = Destroy k" and alone: "alone i ps"
    and j: "j < length (threads s)"
  shows "resting M (pc (threads s ! j))"
proof -
  have "j < length ps" using ok j by (simp add: client_ok_def)
  moreover from this p alone have "\<forall>op k. ps ! j \<noteq> Await op k" by (cases "j = i") (auto simp: alone_iff halted_iff)
  ultimately show ?thesis by (rule left_at_rest(1) [OF ok])
qed

lemma client_ok_destroy:
  assumes ok: "client_ok (s, ps, m)" and i: "i < length ps" and p: "ps ! i = Destroy k" and alone: "alone i ps"
    and xs: "destroy (shared s) = Some xs"
  shows "client_ok (s, ps[i := k xs], m)"
proof -
  note at = left_at_rest [OF ok i]
  have "live s" using ok by (simp add: client_ok_def)
  then have "xs = content (absf s)" using destroy_content [of s] alone_resting [OF ok i p alone] xs by simp
  then have "allowed safe outs content ((all_left s ps)[i := k xs]) (absf s) m"
    using goes_on_at(11) [OF client_ok_next [OF ok], of i k] i at p by simp
  with at p show ?thesis by (intro client_ok_program [OF ok i]) auto
qed

lemma client_ok_step: "client_step M ret destroy mv c d \<Longrightarrow> client_ok c \<Longrightarrow> client_ok d"
  by (induction rule: client_step.induct)
    (blast intro: client_ok_act client_ok_call client_ok_return client_ok_start client_ok_join
      client_ok_unfinished client_ok_add client_ok_look client_ok_destroy client_ok_environment)+

lemma client_ok_reaches: "client_reaches M ret destroy c d \<Longrightarrow> client_ok c \<Longrightarrow> client_ok d"
  by (induction rule: client_reaches.induct) (auto intro: client_ok_step)

lemma client_never_fails:
  assumes "client_ok (s, ps, m)"
  shows "Fail \<notin> set ps"
proof
  assume "Fail \<in> set ps"
  then obtain i where i: "i < length ps" "ps ! i = Fail" by (auto simp: in_set_conv_nth)
  then show False using goes_on_at(1) [OF client_ok_next [OF assms], of i] by simp
qed

lemma client_ok_safe: "client_ok (s, ps, m) \<Longrightarrow> Await op k \<in> set ps \<Longrightarrow> safe op"
  using client_ok_at(2) [of s ps] by (fastforce simp: in_set_conv_nth in_step_def)

lemma client_not_stuck:
  assumes ok: "client_ok (s, ps, m)" and stuck: "client_stuck M ret destroy (s, ps, m)"
    and untimed: "\<And>op k. Await op k \<in> set ps \<Longrightarrow> op_limit op = None"
  shows "list_all halted ps"
proof -
  have len: "length ps = length (threads s)" and live: "live s" using ok by (auto simp: client_ok_def)
  have idle: "exec M (Run i ks) s = None" for i ks
  proof (cases "exec M (Run i ks) s")
    case (Some t)
    from client_step.act [OF this] stuck show ?thesis unfolding client_stuck_def by blast
  qed
  note go = goes_on_at [OF client_ok_next [OF ok]]
  have undec: "dec (shared s) (pc (threads s ! i)) = None \<and> outs op (absf s) = []"
    if i: "i < length ps" and p: "ps ! i = Await op k" for i op k
  proof -
    have "op_limit op = None" using untimed i p by (metis nth_mem)
    moreover have "ret (pc (threads s ! i)) = None"
      using stuck i p by (cases "ret (pc (threads s ! i))") (auto simp: client_stuck_def dest: client_step.return)
    ultimately show ?thesis
      using client_ok_at(1,2) [OF ok i] p stuck_waits [OF live idle, of i op] by (auto simp: in_step_def)
  qed
  have halt: "ps ! i = Halt v" if "i < length ps" "left s i (ps ! i) = Halt v" for i v
    using that undec by (cases "ps ! i") (auto simp: left_def)
  have wait: "waiting outs (all_left s ps) (absf s) (left s i (ps ! i))" if i: "i < length ps" for i
  proof (cases "ps ! i")
    case (Do op k)
    then obtain t where "exec M (Call i op) s = Some t" using left_at_rest(1) [OF ok i] client_ok_at(1) [OF ok i] by simp
    from client_step.call [OF i Do this] stuck show ?thesis unfolding client_stuck_def by blast
  next
    case (Await op k)
    with undec [OF i this] show ?thesis by (simp add: left_def)
  next
    case (Start j p q)
    with go(5) [of i j p q] i obtain v where "j < length ps" "left s j (ps ! j) = Halt v"
      by (auto simp: halted_iff)
    then have "j < length ps" "halted (ps ! j)" using halt [of j v] by simp_all
    with stuck i Start show ?thesis by (auto simp: client_stuck_def dest: client_step.start)
  next
    case (Join j k)
    with go(6) [of i j k] i have j: "j < length ps" by simp
    have "\<not> halted (left s j (ps ! j))"
    proof
      assume "halted (left s j (ps ! j))"
      then obtain v where "ps ! j = Halt v" using halt [OF j] by (auto simp: halted_iff)
      from client_step.join [OF i Join j this] stuck show False unfolding client_stuck_def by blast
    qed
    with Join j show ?thesis by simp
  next
    case (Unfinished j p)
    with go(8) [of i j p] i have "j < length ps" by simp
    with stuck i Unfinished show ?thesis by (auto simp: client_stuck_def dest: client_step.unfinished)
  next
    case Fail
    with go(1) [of i] i show ?thesis by simp
  next
    case (Add c v p)
    with stuck i show ?thesis by (auto simp: client_stuck_def dest: client_step.add)
  next
    case (Look c k)
    with stuck i show ?thesis by (auto simp: client_stuck_def dest: client_step.look)
  next
    case (Destroy k)
    have "halted (ps ! j)" if "j < length ps" "j \<noteq> i" for j
      using go(11) [of i k] i Destroy that halt [of j] by (auto simp: alone_iff halted_iff)
    then have alone: "alone i ps" by (simp add: alone_iff)
    with destroy_content [OF live alone_resting [OF ok i Destroy alone]] stuck i Destroy show ?thesis
      by (auto simp: client_stuck_def dest: client_step.destroy)
  qed simp
  have "list_all halted (all_left s ps)"
    using wait by (intro goes_on_waiting [OF client_ok_next [OF ok]]) (auto simp: in_set_conv_nth)
  then have "halted (left s i (ps ! i))" if "i < length ps" for i
    using that nth_mem [of i "all_left s ps"] by (auto simp: list_all_iff)
  with halt show ?thesis by (fastforce simp: list_all_iff in_set_conv_nth halted_iff)
qed

lemma client_ok_launch:
  assumes "live s" and "length (threads s) = n" and "0 < n" and "\<And>th. th \<in> set (threads s) \<Longrightarrow> resting M (pc th)"
    and ex: "allowed safe outs content (launch n p) (absf s) m"
  shows "client_ok (s, launch n p, m)"
proof -
  have p: "\<forall>op k. p \<noteq> Await op k" using allowed_plain [OF ex, of 0] by (simp add: launch_def)
  then have plain: "\<forall>op k. launch n p ! i \<noteq> Await op k" if "i < n" for i
    using that by (cases i) (auto simp: launch_def)
  have len: "length (launch n p) = n" using assms(3) by (simp add: launch_def)
  then have "all_left s (launch n p) = launch n p"
    using left_plain [OF plain] by (intro nth_equalityI) simp_all
  with assms plain len show ?thesis by (auto simp: client_ok_def in_step_plain)
qed

end

text \<open>Actions of the queue's threads, one after the other.\<close>

lemma client_reaches_acts:
  assumes "run M (acts i n) s = Some t" and "client_reaches M ret destroy c (s, ps, m)"
  shows "client_reaches M ret destroy c (t, ps, m)"
  using assms
proof (induction n arbitrary: s)
  case (Suc n)
  then obtain u where u: "exec M (Run i []) s = Some u" "run M (acts i n) u = Some t"
    by (auto simp: acts_def split: option.splits)
  from Suc.IH [OF u(2) client_reaches.on [OF Suc.prems(2) client_step.act [OF u(1)]]] show ?case .
qed (simp add: acts_def)

text \<open>A whole call of a thread that is alone.\<close>

lemma client_reaches_alone:
  assumes "client_reaches M ret destroy c (s, [Do op k], m)" and "exec M (Call 0 op) s = Some t"
    and "run M (acts 0 n) t = Some u" and "ret (pc (threads u ! 0)) = Some r"
  shows "client_reaches M ret destroy c (u, [k r], m)"
proof -
  have "client_step M ret destroy Thread (s, [Do op k], m) (t, [Do op k][0 := Await op k], m)"
    using assms(2) by (intro client_step.call) simp_all
  from client_reaches.on [OF assms(1) this] have "client_reaches M ret destroy c (t, [Await op k], m)" by simp
  then have "client_reaches M ret destroy c (u, [Await op k], m)" by (rule client_reaches_acts [OF assms(3)])
  moreover have "client_step M ret destroy Thread (u, [Await op k], m) (u, [Await op k][0 := k r], m)"
    using assms(4) by (intro client_step.return) simp_all
  ultimately show ?thesis by (auto dest: client_reaches.on)
qed

end
