(* ===== verification/WorkerPool.thy ===== *)
theory WorkerPool
  imports Contracts Executors Bq
begin

text \<open>
  The thread pool (\<open>crates/hio-concurrent/src/executor/thread_pool.rs\<close>): a fixed number of
  worker threads that pop jobs from a shared queue. The queue is an argument of the
  definitions, a record of the operations the pool calls (\<open>dyn BQ<Job>\<close>), each one atomic
  action, as the linearizability of the queues allows; what the pool relies on is the locale
  \<open>job_queue_contract\<close>, which the sequential queue specification satisfies. The scheduler's call
  \<open>Proc k\<close> gives the spawned worker \<open>k\<close> its thread; \<open>panics j\<close> says whether job \<open>j\<close> panics,
  which ends the worker's thread. That \<open>thread::spawn\<close> itself may panic is not modelled.
\<close>

section \<open>The queue the pool is given\<close>

text \<open>
  \<open>jq_push\<close>: \<open>None\<close> when it blocks, else whether the job was accepted. \<open>jq_pop\<close>: \<open>None\<close> when it
  blocks, else the job or the error of a disposed empty queue.
\<close>

record ('q, 'j) job_queue =
  jq_push :: "'j \<Rightarrow> 'q \<Rightarrow> ('q \<times> bool) option"
  jq_pop :: "'q \<Rightarrow> ('q \<times> 'j option) option"
  jq_dispose :: "'q \<Rightarrow> 'q"

definition spec_queue :: "('j bq_abs, 'j) job_queue" where
  "spec_queue = \<lparr>
     jq_push = (\<lambda>j A. case bq_spec (OpPush j) (PushRes (Inr ())) A of
         Some B \<Rightarrow> Some (B, True)
       | None \<Rightarrow> map_option (\<lambda>B. (B, False)) (bq_spec (OpPush j) (PushRes (Inl (ResourceUnavailable, j))) A)),
     jq_pop = (\<lambda>A. case items A of
         x # _ \<Rightarrow> map_option (\<lambda>B. (B, Some x)) (bq_spec OpPop (PopRes (Inr x)) A)
       | [] \<Rightarrow> map_option (\<lambda>B. (B, None)) (bq_spec OpPop (PopRes (Inl ResourceUnavailable)) A)),
     jq_dispose = (\<lambda>A. case bq_spec OpDispose DisposeRes A of Some B \<Rightarrow> B | None \<Rightarrow> A)\<rparr>"

locale job_queue_contract =
  fixes Q :: "('q, 'j) job_queue" and contents :: "'q \<Rightarrow> 'j list" and shut full :: "'q \<Rightarrow> bool"
  assumes push_law: "jq_push Q j q = Some (q', b) \<Longrightarrow>
      shut q' = shut q \<and> b = (\<not> shut q) \<and> contents q' = (if b then contents q @ [j] else contents q)"
    and pop_law: "jq_pop Q q = Some (q', r) \<Longrightarrow> shut q' = shut q
      \<and> (case r of Some j \<Rightarrow> contents q = j # contents q' | None \<Rightarrow> shut q \<and> contents q = [] \<and> contents q' = [])"
    and dispose_law: "shut (jq_dispose Q q) \<and> contents (jq_dispose Q q) = contents q"
    and push_blocks: "jq_push Q j q = None \<Longrightarrow> \<not> shut q \<and> full q"
    and pop_blocks: "jq_pop Q q = None \<Longrightarrow> \<not> shut q \<and> contents q = []"

interpretation spec_queue: job_queue_contract spec_queue items closed "\<lambda>A. \<not> has_room A"
proof
  fix j :: 'j and q q' b r
  show "jq_push spec_queue j q = Some (q', b) \<Longrightarrow>
      closed q' = closed q \<and> b = (\<not> closed q) \<and> items q' = (if b then items q @ [j] else items q)"
    by (auto simp: spec_queue_def push_spec_def ensure_def split: if_splits option.splits)
  show "jq_pop spec_queue q = Some (q', r :: 'j option) \<Longrightarrow> closed q' = closed q
      \<and> (case r of Some j \<Rightarrow> items q = j # items q' | None \<Rightarrow> closed q \<and> items q = [] \<and> items q' = [])"
    by (auto simp: spec_queue_def pop_spec_def ensure_def split: if_splits option.splits list.splits)
  show "closed (jq_dispose spec_queue q) \<and> items (jq_dispose spec_queue q) = items (q :: 'j bq_abs)"
    by (simp add: spec_queue_def)
  show "jq_push spec_queue j q = None \<Longrightarrow> \<not> closed q \<and> \<not> has_room q"
    by (auto simp: spec_queue_def push_spec_def ensure_def split: if_splits option.splits)
  show "jq_pop spec_queue (q :: 'j bq_abs) = None \<Longrightarrow> \<not> closed q \<and> items q = []"
    by (auto simp: spec_queue_def pop_spec_def ensure_def split: if_splits option.splits list.splits)
qed

section \<open>State\<close>

datatype worker_status = Unstarted | Alive | Exited | Died

record 'q wpool =
  num_workers :: nat
  pool_disposed :: bool
  job_queue :: 'q
  workers :: "nat list"
  statuses :: "worker_status list"

definition with_jq :: "'q \<Rightarrow> nat \<Rightarrow> 'q wpool" where
  "with_jq jq n = \<lparr>num_workers = n, pool_disposed = False, job_queue = jq,
     workers = [0..<n], statuses = replicate n Unstarted\<rparr>"

text \<open>\<open>ThreadPool::new\<close>: over a queue that \<open>create_bq\<close> makes, linked and unlimited.\<close>

definition thread_pool_new :: "(BQType \<Rightarrow> nat \<Rightarrow> 'q option) \<Rightarrow> nat \<Rightarrow> 'q wpool option" where
  "thread_pool_new create n = map_option (\<lambda>jq. with_jq jq n) (create Linked 0)"

datatype 'j wpool_op = Client "'j exec_op" | Proc nat

datatype wpool_res = ClientRes exec_res | ProcRes

datatype 'j wpool_pc =
    WIdle
  | WDone wpool_res
  | SubmitPush 'j
  | DisposeCas | DisposeQueue | DrainWorkers | JoinAll "nat list"
  | CountAt | IsDisposedAt
  | ProcStart nat | ProcPop nat | ProcJob nat 'j | ProcExit nat

section \<open>Steps\<close>

definition set_worker :: "nat \<Rightarrow> worker_status \<Rightarrow> 'q wpool \<Rightarrow> 'q wpool" where
  "set_worker k st q = q\<lparr>statuses := (statuses q)[k := st]\<rparr>"

definition worker_ended :: "'q wpool \<Rightarrow> nat \<Rightarrow> bool" where
  "worker_ended q k \<longleftrightarrow> (k < length (statuses q) \<longrightarrow> statuses q ! k = Exited \<or> statuses q ! k = Died)"

text \<open>\<open>worker_thread_proc\<close>: pop and execute until the queue reports an error.\<close>

fun proc_step :: "('q, 'j) job_queue \<Rightarrow> ('j \<Rightarrow> bool) \<Rightarrow> 'q wpool \<Rightarrow> 'j wpool_pc \<Rightarrow> ('q wpool \<times> 'j wpool_pc) option" where
  "proc_step Q panics q (ProcStart k) =
     (if k < length (statuses q) \<and> statuses q ! k = Unstarted
      then Some (set_worker k Alive q, ProcPop k) else Some (q, WDone ProcRes))"
| "proc_step Q panics q (ProcPop k) =
     (case jq_pop Q (job_queue q) of
        None \<Rightarrow> None
      | Some (jq, Some j) \<Rightarrow> Some (q\<lparr>job_queue := jq\<rparr>, ProcJob k j)
      | Some (jq, None) \<Rightarrow> Some (q\<lparr>job_queue := jq\<rparr>, ProcExit k))"
| "proc_step Q panics q (ProcJob k j) =
     (if panics j then Some (set_worker k Died q, WDone ProcRes) else Some (q, ProcPop k))"
| "proc_step Q panics q (ProcExit k) = Some (set_worker k Exited q, WDone ProcRes)"
| "proc_step Q panics q p = None"

definition wsubmit_step :: "('q, 'j) job_queue \<Rightarrow> 'q wpool \<Rightarrow> 'j \<Rightarrow> ('q wpool \<times> 'j wpool_pc) option" where
  "wsubmit_step Q q j =
     (case jq_push Q j (job_queue q) of
        None \<Rightarrow> None
      | Some (jq, b) \<Rightarrow> Some (q\<lparr>job_queue := jq\<rparr>,
          WDone (ClientRes (SubmitRes (if b then Inr () else Inl ResourceUnavailable)))))"

fun wdispose_step :: "('q, 'j) job_queue \<Rightarrow> 'q wpool \<Rightarrow> 'j wpool_pc \<Rightarrow> ('q wpool \<times> 'j wpool_pc) option" where
  "wdispose_step Q q DisposeCas =
     (if pool_disposed q then Some (q, WDone (ClientRes DisposeDone))
      else Some (q\<lparr>pool_disposed := True\<rparr>, DisposeQueue))"
| "wdispose_step Q q DisposeQueue =
     Some (q\<lparr>job_queue := jq_dispose Q (job_queue q)\<rparr>, DrainWorkers)"
| "wdispose_step Q q DrainWorkers = Some (q\<lparr>workers := []\<rparr>, JoinAll (workers q))"
| "wdispose_step Q q (JoinAll ks) =
     (case ks of
        [] \<Rightarrow> Some (q, WDone (ClientRes DisposeDone))
      | k # rest \<Rightarrow> if worker_ended q k then Some (q, JoinAll rest) else None)"
| "wdispose_step Q q p = None"

section \<open>The machine\<close>

fun wpool_step :: "('q, 'j) job_queue \<Rightarrow> ('j \<Rightarrow> bool) \<Rightarrow> 'q wpool \<Rightarrow> 'j wpool_pc \<Rightarrow> ('q wpool \<times> 'j wpool_pc) option" where
  "wpool_step Q panics q (SubmitPush j) = wsubmit_step Q q j"
| "wpool_step Q panics q DisposeCas = wdispose_step Q q DisposeCas"
| "wpool_step Q panics q DisposeQueue = wdispose_step Q q DisposeQueue"
| "wpool_step Q panics q DrainWorkers = wdispose_step Q q DrainWorkers"
| "wpool_step Q panics q (JoinAll ks) = wdispose_step Q q (JoinAll ks)"
| "wpool_step Q panics q CountAt = Some (q, WDone (ClientRes (CountRes (num_workers q))))"
| "wpool_step Q panics q IsDisposedAt = Some (q, WDone (ClientRes (DisposedRes (pool_disposed q))))"
| "wpool_step Q panics q p = proc_step Q panics q p"

text \<open>The waiting is inside the queue, so no thread sleeps here and no action notifies.\<close>

definition wpool_advance ::
    "('q, 'j) job_queue \<Rightarrow> ('j \<Rightarrow> bool) \<Rightarrow> tid \<Rightarrow> nat \<Rightarrow> 'q wpool \<Rightarrow> 'j wpool_pc
      \<Rightarrow> ('q wpool \<times> 'j wpool_pc \<times> unit notice) option" where
  "wpool_advance Q panics i t q p = map_option (\<lambda>(q', p'). (q', p', Quiet)) (wpool_step Q panics q p)"

fun wpool_entry :: "'j wpool_op \<Rightarrow> 'j wpool_pc" where
  "wpool_entry (Client (Submit j)) = SubmitPush j"
| "wpool_entry (Client Dispose) = DisposeCas"
| "wpool_entry (Client IsDisposed) = IsDisposedAt"
| "wpool_entry (Client WorkerCount) = CountAt"
| "wpool_entry (Proc k) = ProcStart k"

fun wpool_resting :: "'j wpool_pc \<Rightarrow> bool" where
  "wpool_resting WIdle = True"
| "wpool_resting (WDone r) = True"
| "wpool_resting p = False"

definition wpool_machine ::
    "('q, 'j) job_queue \<Rightarrow> ('j \<Rightarrow> bool) \<Rightarrow> ('j wpool_op, 'q wpool, 'j wpool_pc, unit) machine" where
  "wpool_machine Q panics = \<lparr>entry = wpool_entry, resting = wpool_resting,
     advance = wpool_advance Q panics, dozing = (\<lambda>p. None), rouse = id\<rparr>"

lemma wpool_machine_simps [simp]:
  "entry (wpool_machine Q panics) = wpool_entry" "resting (wpool_machine Q panics) = wpool_resting"
  "advance (wpool_machine Q panics) = wpool_advance Q panics"
  "dozing (wpool_machine Q panics) = (\<lambda>p. None)" "rouse (wpool_machine Q panics) = id"
  by (simp_all add: wpool_machine_def)

definition wpool_start :: "'q \<Rightarrow> nat \<Rightarrow> nat \<Rightarrow> ('j wpool_op, 'q wpool, 'j wpool_pc) sys" where
  "wpool_start jq w n = boot (with_jq jq w) WIdle n"

end
