(* ===== verification/PoolOver.thy ===== *)
theory PoolOver
  imports WorkerPool
begin

text \<open>
  The thread pool over a queue that is itself a concurrent object: a thread that submits, a
  worker that pops and the disposing thread run the queue's own method, action by action, in
  between the actions of everybody else. \<open>over_machine M ret panics\<close> composes the pool with the
  machine \<open>M\<close> of a queue; \<open>queue_object\<close> is what the composition needs of that machine, its
  linearizability above all, and the simulation shows that the composed system behaves as the pool
  over the sequential queue: each queue call acts at its linearization point.
\<close>

section \<open>The composition\<close>

text \<open>
  \<open>InQueue p c r\<close>: the thread is at point \<open>p\<close> of the pool's code, in a queue call begun at time \<open>c\<close>,
  and at point \<open>r\<close> of the queue's code.
\<close>

datatype ('j, 'r) over_pc = AtPool "'j wpool_pc" | InQueue "'j wpool_pc" nat 'r

text \<open>The queue methods the pool calls, and where it goes on with the result.\<close>

fun queue_op :: "'j wpool_pc \<Rightarrow> 'j bq_op option" where
  "queue_op (SubmitPush j) = Some (OpPush j)"
| "queue_op (ProcPop k) = Some OpPop"
| "queue_op DisposeQueue = Some OpDispose"
| "queue_op p = None"

fun resume :: "'j wpool_pc \<Rightarrow> 'j bq_res \<Rightarrow> 'j wpool_pc" where
  "resume (SubmitPush j) r = WDone (ClientRes (SubmitRes (case r of PushRes (Inl (e, _)) \<Rightarrow> Inl e | _ \<Rightarrow> Inr ())))"
| "resume (ProcPop k) r = (case r of PopRes (Inr j) \<Rightarrow> ProcJob k j | _ \<Rightarrow> ProcExit k)"
| "resume DisposeQueue r = DrainWorkers"
| "resume p r = p"

text \<open>The other actions do not touch the queue.\<close>

definition no_queue :: "('q, 'j) job_queue" where
  "no_queue = \<lparr>jq_push = (\<lambda>j q. None), jq_pop = (\<lambda>q. None), jq_dispose = id\<rparr>"

fun over_advance ::
    "('j bq_op, 'o, 'r, 'cv) machine \<Rightarrow> ('r \<Rightarrow> 'j bq_res option) \<Rightarrow> ('j \<Rightarrow> bool) \<Rightarrow> tid \<Rightarrow> nat
      \<Rightarrow> 'o wpool \<Rightarrow> ('j, 'r) over_pc \<Rightarrow> ('o wpool \<times> ('j, 'r) over_pc \<times> 'cv notice) option" where
  "over_advance M ret panics i t q (AtPool p) =
     (case queue_op p of
        Some op \<Rightarrow> Some (q, InQueue p t (entry M op), Quiet)
      | None \<Rightarrow> map_option (\<lambda>(q', p'). (q', AtPool p', Quiet)) (wpool_step no_queue panics q p))"
| "over_advance M ret panics i t q (InQueue p c r) =
     (case ret r of
        Some res \<Rightarrow> Some (q, AtPool (resume p res), Quiet)
      | None \<Rightarrow> map_option (\<lambda>(jq, r', nt). (q\<lparr>job_queue := jq\<rparr>, InQueue p c r', nt))
                  (advance M i t (job_queue q) r))"

fun over_resting :: "('j, 'r) over_pc \<Rightarrow> bool" where
  "over_resting (AtPool p) = wpool_resting p"
| "over_resting (InQueue p c r) = False"

fun over_dozing :: "('j bq_op, 'o, 'r, 'cv) machine \<Rightarrow> ('j, 'r) over_pc \<Rightarrow> 'cv option" where
  "over_dozing M (AtPool p) = None"
| "over_dozing M (InQueue p c r) = dozing M r"

fun over_rouse :: "('j bq_op, 'o, 'r, 'cv) machine \<Rightarrow> ('j, 'r) over_pc \<Rightarrow> ('j, 'r) over_pc" where
  "over_rouse M (AtPool p) = AtPool p"
| "over_rouse M (InQueue p c r) = InQueue p c (rouse M r)"

definition over_machine ::
    "('j bq_op, 'o, 'r, 'cv) machine \<Rightarrow> ('r \<Rightarrow> 'j bq_res option) \<Rightarrow> ('j \<Rightarrow> bool)
      \<Rightarrow> ('j wpool_op, 'o wpool, ('j, 'r) over_pc, 'cv) machine" where
  "over_machine M ret panics = \<lparr>entry = (\<lambda>op. AtPool (wpool_entry op)), resting = over_resting,
     advance = over_advance M ret panics, dozing = over_dozing M, rouse = over_rouse M\<rparr>"

lemma over_machine_simps [simp]:
  "entry (over_machine M ret panics) = (\<lambda>op. AtPool (wpool_entry op))"
  "resting (over_machine M ret panics) = over_resting"
  "advance (over_machine M ret panics) = over_advance M ret panics"
  "dozing (over_machine M ret panics) = over_dozing M" "rouse (over_machine M ret panics) = over_rouse M"
  by (simp_all add: over_machine_def)

definition over_start :: "'o \<Rightarrow> nat \<Rightarrow> nat \<Rightarrow> ('j wpool_op, 'o wpool, ('j, 'r) over_pc) sys" where
  "over_start jq w n = boot (with_jq jq w) (AtPool WIdle) n"

section \<open>The queue's part of the composed system\<close>

definition at_rest :: "'r \<Rightarrow> ('op, 'r) thread" where
  "at_rest idle = \<lparr>cur = None, called = 0, pc = idle\<rparr>"

definition queue_thread :: "'r \<Rightarrow> ('j wpool_op, ('j, 'r) over_pc) thread \<Rightarrow> ('j bq_op, 'r) thread" where
  "queue_thread idle th =
     (case pc th of
        AtPool p \<Rightarrow> at_rest idle
      | InQueue p c r \<Rightarrow> \<lparr>cur = queue_op p, called = c, pc = r\<rparr>)"

definition queue_sys :: "'r \<Rightarrow> ('j wpool_op, 'o wpool, ('j, 'r) over_pc) sys \<Rightarrow> ('j bq_op, 'o, 'r) sys" where
  "queue_sys idle s = \<lparr>shared = job_queue (shared s), now = now s, threads = map (queue_thread idle) (threads s)\<rparr>"

lemma queue_sys_simps [simp]:
  "shared (queue_sys idle s) = job_queue (shared s)" "now (queue_sys idle s) = now s"
  "threads (queue_sys idle s) = map (queue_thread idle) (threads s)"
  by (simp_all add: queue_sys_def)

lemma queue_thread_simps [simp]:
  "pc th = AtPool p \<Longrightarrow> queue_thread idle th = at_rest idle"
  "pc th = InQueue p c r \<Longrightarrow> queue_thread idle th = \<lparr>cur = queue_op p, called = c, pc = r\<rparr>"
  by (simp_all add: queue_thread_def)

lemma at_rest_simps [simp]: "pc (at_rest idle) = idle" "cur (at_rest idle) = None"
  by (simp_all add: at_rest_def)

text \<open>A notification of the queue wakes in the composed system the threads it wakes in the queue.\<close>

lemma over_dozing_thread:
  "dozing M idle = None \<Longrightarrow> over_dozing M (pc th) = dozing M (pc (queue_thread idle th))"
  by (cases "pc th") simp_all

lemma over_sleepers:
  "dozing M idle = None \<Longrightarrow>
    sleepers (over_machine M ret panics) cv ts = sleepers M cv (map (queue_thread idle) ts)"
  by (auto simp: sleepers_def over_dozing_thread intro: filter_cong)

lemma over_rouse_all:
  assumes "\<And>j. j \<in> set ks \<Longrightarrow> j < length ts \<Longrightarrow> over_dozing M (pc (ts ! j)) \<noteq> None"
  shows "map (queue_thread idle) (rouse_all (over_machine M ret panics) ks ts)
    = rouse_all M ks (map (queue_thread idle) ts)"
proof (rule nth_equalityI)
  fix j assume "j < length (map (queue_thread idle) (rouse_all (over_machine M ret panics) ks ts))"
  then have j: "j < length ts" by simp
  show "map (queue_thread idle) (rouse_all (over_machine M ret panics) ks ts) ! j
      = rouse_all M ks (map (queue_thread idle) ts) ! j"
  proof (cases "j \<in> set ks")
    case True
    with assms [OF _ j] obtain p c r where "pc (ts ! j) = InQueue p c r" by (cases "pc (ts ! j)") auto
    with True j show ?thesis by (simp add: rouse_all_nth)
  qed (use j in \<open>simp add: rouse_all_nth\<close>)
qed simp

lemma over_deliver:
  assumes del: "deliver (over_machine M ret panics) ks nt ts = Some us" and "dozing M idle = None"
  shows "deliver M ks nt (map (queue_thread idle) ts) = Some (map (queue_thread idle) us)"
proof -
  note sl = over_sleepers [OF assms(2), of ret panics _ ts]
  have dz: "over_dozing M (pc (ts ! j)) \<noteq> None" if "j \<in> set (sleepers (over_machine M ret panics) cv ts)" for j cv
    using that by (simp add: sleepers_set)
  show ?thesis
  proof (cases nt)
    case (Wake n cv)
    with del have ks: "us = rouse_all (over_machine M ret panics) ks ts" "distinct ks"
      "set ks \<subseteq> set (sleepers (over_machine M ret panics) cv ts)"
      "length ks = min n (length (sleepers (over_machine M ret panics) cv ts))"
      by (auto split: if_splits)
    with dz have "map (queue_thread idle) us = rouse_all M ks (map (queue_thread idle) ts)"
      by (simp only:) (rule over_rouse_all, blast)
    with Wake ks(2-4) show ?thesis by (simp add: sl)
  next
    case (WakeAll cv)
    with del have "us = rouse_all (over_machine M ret panics) (sleepers (over_machine M ret panics) cv ts) ts" by simp
    then have "map (queue_thread idle) us
        = rouse_all M (sleepers (over_machine M ret panics) cv ts) (map (queue_thread idle) ts)"
      by (simp only:) (rule over_rouse_all, rule dz)
    with WakeAll show ?thesis by (simp add: sl)
  qed (use del in simp)
qed

end
