(* ===== verification/PoolOverSim.thy ===== *)
theory PoolOverSim
  imports PoolOver "HOL-Library.Sublist"
begin

text \<open>
  The simulation between the pool over a concurrent queue and the pool over the sequential one:
  a composed action either leaves the abstract system alone or is one action of it, by the same
  thread.
\<close>

section \<open>The abstract system\<close>

definition abs_pool :: "'b \<Rightarrow> 'o wpool \<Rightarrow> 'b wpool" where
  "abs_pool A q = \<lparr>num_workers = num_workers q, pool_disposed = pool_disposed q, job_queue = A,
     workers = workers q, statuses = statuses q\<rparr>"

lemma abs_pool_simps [simp]:
  "num_workers (abs_pool A q) = num_workers q" "pool_disposed (abs_pool A q) = pool_disposed q"
  "job_queue (abs_pool A q) = A" "workers (abs_pool A q) = workers q" "statuses (abs_pool A q) = statuses q"
  by (simp_all add: abs_pool_def)

text \<open>A call that has taken effect is already past the queue.\<close>

fun abs_pc :: "('o \<Rightarrow> 'r \<Rightarrow> 'j bq_res option) \<Rightarrow> 'o \<Rightarrow> ('j, 'r) over_pc \<Rightarrow> 'j wpool_pc" where
  "abs_pc dec jq (AtPool p) = p"
| "abs_pc dec jq (InQueue p c r) = (case dec jq r of None \<Rightarrow> p | Some res \<Rightarrow> resume p res)"

definition abs_thread ::
    "('o \<Rightarrow> 'r \<Rightarrow> 'j bq_res option) \<Rightarrow> 'o \<Rightarrow> ('j wpool_op, ('j, 'r) over_pc) thread \<Rightarrow> ('j wpool_op, 'j wpool_pc) thread" where
  "abs_thread dec jq th = \<lparr>cur = cur th, called = called th, pc = abs_pc dec jq (pc th)\<rparr>"

definition over_abs ::
    "('o \<Rightarrow> 'r \<Rightarrow> 'j bq_res option) \<Rightarrow> (('j bq_op, 'o, 'r) sys \<Rightarrow> 'b) \<Rightarrow> 'r
      \<Rightarrow> ('j wpool_op, 'o wpool, ('j, 'r) over_pc) sys \<Rightarrow> ('j wpool_op, 'b wpool, 'j wpool_pc) sys" where
  "over_abs dec absf idle s = \<lparr>shared = abs_pool (absf (queue_sys idle s)) (shared s), now = now s,
     threads = map (abs_thread dec (job_queue (shared s))) (threads s)\<rparr>"

text \<open>The labels the abstract system sees: no wake-up lists.\<close>

fun quieten :: "'op label \<Rightarrow> 'op label" where
  "quieten (Run i ks) = Run i []"
| "quieten l = l"

lemma local_step_abs:
  assumes "wpool_step no_queue panics q p = Some (q', p')" and "queue_op p = None"
  shows "wpool_step Q panics (abs_pool A q) p = Some (abs_pool A q', p') \<and> job_queue q' = job_queue q"
  using assms
  by (cases p) (auto simp: abs_pool_def set_worker_def worker_ended_def split: if_splits list.splits)

fun is_call :: "'op label \<Rightarrow> bool" where
  "is_call (Call i op) = True"
| "is_call l = False"

text \<open>A predicate that holds at every state of a run.\<close>

fun always ::
    "('op, 'q, 'pc, 'cv) machine \<Rightarrow> (('op, 'q, 'pc) sys \<Rightarrow> bool) \<Rightarrow> 'op label list \<Rightarrow> ('op, 'q, 'pc) sys \<Rightarrow> bool" where
  "always M P [] s = P s"
| "always M P (l # ls) s = (P s \<and> (case exec M l s of None \<Rightarrow> True | Some t \<Rightarrow> always M P ls t))"

lemma always_all: "(\<And>s. P s) \<Longrightarrow> always M P ls s"
  by (induction ls arbitrary: s) (simp_all split: option.splits)

lemma always_mono: "always M P ls s \<Longrightarrow> (\<And>s. P s \<Longrightarrow> P' s) \<Longrightarrow> always M P' ls s"
  by (induction ls arbitrary: s) (auto split: option.splits)

section \<open>What the composition needs of the queue\<close>

text \<open>
  \<open>M\<close> is linearizable to \<open>spec\<close>; \<open>ret\<close> reads the result off a returned call, which is, for
  the pool, the one it was decided with; a thread whose call has returned may as well never have called; and
  what \<open>spec\<close> allows is what the sequential queue \<open>Q\<close> does, for the calls that are \<open>fine\<close> there.
\<close>

locale queue_object = machine_rules M + linearizable M inv dec absf spec
  for M :: "('j bq_op, 'o, 'r, 'cv) machine" and inv :: "('j bq_op, 'o, 'r) sys \<Rightarrow> bool"
    and dec :: "'o \<Rightarrow> 'r \<Rightarrow> 'j bq_res option" and absf :: "('j bq_op, 'o, 'r) sys \<Rightarrow> 'b"
    and spec :: "'j bq_op \<Rightarrow> 'j bq_res \<Rightarrow> 'b \<Rightarrow> 'b option" +
  fixes ret :: "'r \<Rightarrow> 'j bq_res option" and idle :: 'r and Q :: "('b, 'j) job_queue"
    and fine :: "'b \<Rightarrow> 'j bq_op \<Rightarrow> bool"
  assumes ret_resting: "ret r = Some x \<Longrightarrow> resting M r"
    and ret_decided: "ret r = Some x \<Longrightarrow> \<exists>y. dec q r = Some y \<and> (\<forall>p. resume p y = resume p x)"
    and idle_resting: "resting M idle"
    and forget: "\<lbrakk>inv s; i < length (threads s); resting M (pc (threads s ! i))\<rbrakk> \<Longrightarrow>
      inv (s\<lparr>threads := (threads s)[i := at_rest idle]\<rparr>)
      \<and> absf (s\<lparr>threads := (threads s)[i := at_rest idle]\<rparr>) = absf s"
    and spec_push: "spec (OpPush j) x A = Some B \<Longrightarrow> fine A (OpPush j) \<Longrightarrow>
      (x = PushRes (Inr ()) \<and> jq_push Q j A = Some (B, True))
      \<or> (\<exists>y. x = PushRes (Inl (ResourceUnavailable, y)) \<and> jq_push Q j A = Some (B, False))"
    and spec_pop: "spec OpPop x A = Some B \<Longrightarrow> fine A OpPop \<Longrightarrow>
      (\<exists>j. x = PopRes (Inr j) \<and> jq_pop Q A = Some (B, Some j))
      \<or> (\<exists>e. x = PopRes (Inl e) \<and> jq_pop Q A = Some (B, None))"
    and spec_dispose: "spec OpDispose x A = Some B \<Longrightarrow> B = jq_dispose Q A"
begin

abbreviation abs_sys :: "('j wpool_op, 'o wpool, ('j, 'r) over_pc) sys \<Rightarrow> ('j wpool_op, 'b wpool, 'j wpool_pc) sys" where
  "abs_sys \<equiv> over_abs dec absf idle"

text \<open>The points inside the queue belong to a queue call, and the queue's invariant holds.\<close>

definition over_ok :: "('j wpool_op, 'o wpool, ('j, 'r) over_pc) sys \<Rightarrow> bool" where
  "over_ok s \<longleftrightarrow> inv (queue_sys idle s)
     \<and> (\<forall>th \<in> set (threads s). \<forall>p c r. pc th = InQueue p c r \<longrightarrow> queue_op p \<noteq> None)"

text \<open>Every queue call in progress is one whose effect the sequential queue determines.\<close>

definition calls_fine :: "('j wpool_op, 'o wpool, ('j, 'r) over_pc) sys \<Rightarrow> bool" where
  "calls_fine s \<longleftrightarrow> (\<forall>th \<in> set (threads s). \<forall>p c r op. pc th = InQueue p c r \<longrightarrow> queue_op p = Some op \<longrightarrow>
     fine (absf (queue_sys idle s)) op)"

lemma spec_step:
  assumes "spec op x A = Some B" and "queue_op p = Some op" and "fine A op"
  shows "wpool_step Q panics (abs_pool A q) p = Some (abs_pool B q, resume p x)"
proof (cases p)
  case (SubmitPush j)
  with assms spec_push [of j x A B] show ?thesis by (auto simp: wsubmit_step_def abs_pool_def)
next
  case (ProcPop k)
  with assms spec_pop [of x A B] show ?thesis by (auto simp: abs_pool_def)
next
  case DisposeQueue
  with assms spec_dispose [of x A B] show ?thesis by (auto simp: abs_pool_def)
qed (use assms(2) in simp_all)

lemma abs_sys_same:
  assumes "absf (queue_sys idle t) = absf (queue_sys idle s)" and "now t = now s"
    and "abs_pool A (shared t) = abs_pool A (shared s)"
    and "length (threads t) = length (threads s)"
    and "\<And>j. j < length (threads s) \<Longrightarrow>
      abs_thread dec (job_queue (shared t)) (threads t ! j) = abs_thread dec (job_queue (shared s)) (threads s ! j)"
  shows "abs_sys t = abs_sys s"
proof -
  have "map (abs_thread dec (job_queue (shared t))) (threads t) = map (abs_thread dec (job_queue (shared s))) (threads s)"
    using assms(4,5) by (intro nth_equalityI) auto
  with assms(1-3) show ?thesis by (simp add: over_abs_def abs_pool_def)
qed

lemma over_okD:
  "over_ok s \<Longrightarrow> i < length (threads s) \<Longrightarrow> pc (threads s ! i) = InQueue p c r \<Longrightarrow> \<exists>op. queue_op p = Some op"
  using nth_mem [of i "threads s"] by (fastforce simp: over_ok_def)

lemma over_ok_update:
  assumes "over_ok s" and "inv (queue_sys idle t)" and "threads t = (threads s)[i := th]"
    and "\<And>p c r. pc th = InQueue p c r \<Longrightarrow> queue_op p \<noteq> None"
  shows "over_ok t"
proof -
  have "set (threads t) \<subseteq> insert th (set (threads s))" using assms(3) by (simp add: set_update_subset_insert)
  with assms(1,2,4) show ?thesis unfolding over_ok_def by blast
qed

text \<open>Beginning a queue call.\<close>

lemma enter_step:
  assumes ok: "over_ok s" and i: "i < length (threads s)" and p: "pc (threads s ! i) = AtPool p" "queue_op p = Some op"
    and t: "t = s\<lparr>threads := (threads s)[i := (threads s ! i)\<lparr>pc := InQueue p (now s) (entry M op)\<rparr>]\<rparr>"
  shows "over_ok t \<and> abs_sys t = abs_sys s"
proof -
  have q: "exec M (Call i op) (queue_sys idle s) = Some (queue_sys idle t)"
    using i p t idle_resting by (simp add: queue_sys_def map_update)
  have "inv (queue_sys idle t)" "absf (queue_sys idle t) = absf (queue_sys idle s)"
    using ok inv_exec [OF _ q] call_abs [OF _ q] by (simp_all add: over_ok_def)
  moreover have "over_ok t"
    by (rule over_ok_update [OF ok calculation(1), of i]) (use t p in auto)
  moreover have "abs_sys t = abs_sys s"
    using calculation(2) t i p call_undecided
    by (intro abs_sys_same) (auto simp: abs_thread_def nth_list_update)
  ultimately show ?thesis by blast
qed

text \<open>Returning from one.\<close>

lemma leave_step:
  assumes ok: "over_ok s" and i: "i < length (threads s)" and p: "pc (threads s ! i) = InQueue p c r" "ret r = Some x"
    and t: "t = s\<lparr>threads := (threads s)[i := (threads s ! i)\<lparr>pc := AtPool (resume p x)\<rparr>]\<rparr>"
  shows "over_ok t \<and> abs_sys t = abs_sys s"
proof -
  have q: "queue_sys idle t = (queue_sys idle s)\<lparr>threads := (threads (queue_sys idle s))[i := at_rest idle]\<rparr>"
    using i p t by (simp add: queue_sys_def map_update)
  have "inv (queue_sys idle t) \<and> absf (queue_sys idle t) = absf (queue_sys idle s)"
    unfolding q using ok i p ret_resting [OF p(2)] by (intro forget) (simp_all add: over_ok_def)
  moreover from this have "over_ok t"
    by (intro over_ok_update [OF ok _, of t i]) (use t in auto)
  moreover have "abs_sys t = abs_sys s"
    using calculation(1) t i p ret_decided [OF p(2), of "job_queue (shared s)"]
    by (intro abs_sys_same) (auto simp: abs_thread_def nth_list_update)
  ultimately show ?thesis by blast
qed

text \<open>An action of the pool's own code.\<close>

lemma local_step:
  assumes ok: "over_ok s" and i: "i < length (threads s)" and p: "pc (threads s ! i) = AtPool p" "queue_op p = None"
    and step: "wpool_step no_queue panics (shared s) p = Some (q', p')"
    and t: "t = s\<lparr>shared := q', threads := (threads s)[i := (threads s ! i)\<lparr>pc := AtPool p'\<rparr>]\<rparr>"
  shows "over_ok t \<and> exec (wpool_machine Q panics) (Run i []) (abs_sys s) = Some (abs_sys t)"
proof -
  note step' = local_step_abs [OF step p(2), of Q "absf (queue_sys idle s)"]
  have th: "(map (queue_thread idle) (threads s))[i := at_rest idle] = map (queue_thread idle) (threads s)"
    using i p(1) by (intro list_update_same_conv [THEN iffD2]) simp_all
  have q: "queue_sys idle t = queue_sys idle s"
    using i p t step' th by (simp add: queue_sys_def map_update)
  have "over_ok t" by (rule over_ok_update [OF ok, of t i]) (use ok t q in \<open>auto simp: over_ok_def\<close>)
  moreover have "exec (wpool_machine Q panics) (Run i []) (abs_sys s) = Some (abs_sys t)"
    using i p t step' q by (simp add: over_abs_def wpool_advance_def abs_thread_def map_update)
  ultimately show ?thesis ..
qed

text \<open>An action inside the queue is one of the queue's machine.\<close>

lemma queue_exec:
  assumes i: "i < length (threads s)" and p: "pc (threads s ! i) = InQueue p c r"
    and adv: "advance M i (now s) (job_queue (shared s)) r = Some (jq, r', nt)"
    and del: "deliver (over_machine M ret panics) ks nt ((threads s)[i := (threads s ! i)\<lparr>pc := InQueue p c r'\<rparr>]) = Some us"
    and t: "t = s\<lparr>shared := (shared s)\<lparr>job_queue := jq\<rparr>, threads := us\<rparr>"
  shows "exec M (Run i ks) (queue_sys idle s) = Some (queue_sys idle t) \<and> us ! i = (threads s ! i)\<lparr>pc := InQueue p c r'\<rparr>"
proof -
  let ?mid = "(threads s)[i := (threads s ! i)\<lparr>pc := InQueue p c r'\<rparr>]"
  have "dozing M idle = None" using idle_resting by (rule rest_awake)
  with del have "deliver M ks nt (map (queue_thread idle) ?mid) = Some (map (queue_thread idle) us)"
    by (rule over_deliver)
  then have "exec M (Run i ks) (queue_sys idle s) = Some (queue_sys idle t)"
    using i p adv t by (simp add: map_update queue_sys_def)
  moreover have "us ! i = (threads s ! i)\<lparr>pc := InQueue p c r'\<rparr>"
    using deliver_nth [OF del, of i] i doze_quiet [OF adv] by (cases nt) auto
  ultimately show ?thesis ..
qed

text \<open>The linearization point is the abstract action.\<close>

lemma queue_step:
  assumes ok: "over_ok s" and fine: "calls_fine s" and i: "i < length (threads s)"
    and p: "pc (threads s ! i) = InQueue p c r" "ret r = None"
    and adv: "advance M i (now s) (job_queue (shared s)) r = Some (jq, r', nt)"
    and del: "deliver (over_machine M ret panics) ks nt ((threads s)[i := (threads s ! i)\<lparr>pc := InQueue p c r'\<rparr>]) = Some us"
    and t: "t = s\<lparr>shared := (shared s)\<lparr>job_queue := jq\<rparr>, threads := us\<rparr>"
  shows "over_ok t \<and> (abs_sys t = abs_sys s
    \<or> exec (wpool_machine Q panics) (Run i []) (abs_sys s) = Some (abs_sys t))"
proof -
  let ?q = "queue_sys idle s"
  have len: "length us = length (threads s)" using deliver_length [OF del] by simp
  have ex: "exec M (Run i ks) ?q = Some (queue_sys idle t)" and us_i: "us ! i = (threads s ! i)\<lparr>pc := InQueue p c r'\<rparr>"
    using queue_exec [OF i p(1) adv del t] by simp_all
  have inv: "inv ?q" using ok by (simp add: over_ok_def)
  obtain op where op: "queue_op p = Some op" using over_okD [OF ok i p(1)] by blast
  have others: "us ! j = threads s ! j \<or> (\<exists>p c r. pc (threads s ! j) = InQueue p c r \<and> dozing M r \<noteq> None
      \<and> us ! j = (threads s ! j)\<lparr>pc := InQueue p c (rouse M r)\<rparr>)" if "j < length (threads s)" "j \<noteq> i" for j
    using deliver_nth [OF del, of j] that by (cases "pc (threads s ! j)") auto
  have ok': "over_ok t"
    unfolding over_ok_def
  proof (intro conjI ballI allI impI)
    show "inv (queue_sys idle t)" using inv ex by (rule inv_exec)
    fix th p' c' r'' assume "th \<in> set (threads t)" and pc: "pc th = InQueue p' c' r''"
    then obtain j where j: "j < length (threads s)" "th = us ! j" using t len by (auto simp: in_set_conv_nth)
    show "queue_op p' \<noteq> None"
      using us_i op pc j over_okD [OF ok j(1)] others [OF j(1)] by (cases "j = i") auto
  qed
  have same: "abs_thread dec jq (us ! j) = abs_thread dec (job_queue (shared s)) (threads s ! j)"
    if j: "j < length (threads s)" "j \<noteq> i" for j
  proof (cases "pc (threads s ! j)")
    case (AtPool p')
    with others [OF j] show ?thesis by (auto simp: abs_thread_def)
  next
    case (InQueue p' c' r'')
    have "dec jq (pc (threads (queue_sys idle t) ! j)) = dec (job_queue (shared s)) r''"
      using exec_others [OF inv ex, of j] j InQueue t by simp
    with others [OF j] InQueue j t len show ?thesis by (auto simp: abs_thread_def)
  qed
  have self: "case dec (job_queue (shared s)) r of
      Some x \<Rightarrow> dec jq r' = Some x \<and> absf (queue_sys idle t) = absf ?q
    | None \<Rightarrow> (case dec jq r' of
          None \<Rightarrow> absf (queue_sys idle t) = absf ?q
        | Some x \<Rightarrow> spec op x (absf ?q) = Some (absf (queue_sys idle t)))"
    using step_self [OF inv ex] i p us_i op t len by (simp split: option.splits)
  show ?thesis
  proof (cases "dec (job_queue (shared s)) r = None \<and> dec jq r' \<noteq> None")
    case True
    then obtain x where x: "dec jq r' = Some x" "dec (job_queue (shared s)) r = None" by blast
    with self have sp: "spec op x (absf ?q) = Some (absf (queue_sys idle t))" by simp
    have "fine (absf ?q) op" using fine i p op nth_mem [OF i] unfolding calls_fine_def by blast
    from spec_step [OF sp op this, of panics "shared s"]
    have step: "wpool_step Q panics (abs_pool (absf ?q) (shared s)) p
        = Some (abs_pool (absf (queue_sys idle t)) (shared s), resume p x)" .
    have "map (abs_thread dec jq) us
        = (map (abs_thread dec (job_queue (shared s))) (threads s))[i := (abs_thread dec (job_queue (shared s)) (threads s ! i))\<lparr>pc := resume p x\<rparr>]"
      using same us_i x i p len by (intro nth_equalityI) (auto simp: nth_list_update abs_thread_def)
    then have "exec (wpool_machine Q panics) (Run i []) (abs_sys s) = Some (abs_sys t)"
      using step i p x t by (simp add: over_abs_def wpool_advance_def abs_thread_def abs_pool_def)
    with ok' show ?thesis by blast
  next
    case False
    with self have "dec jq r' = dec (job_queue (shared s)) r" "absf (queue_sys idle t) = absf ?q"
      by (auto split: option.splits)
    moreover from this have "abs_thread dec jq (us ! i) = abs_thread dec (job_queue (shared s)) (threads s ! i)"
      using us_i p by (simp add: abs_thread_def)
    then have "abs_thread dec jq (us ! j) = abs_thread dec (job_queue (shared s)) (threads s ! j)"
      if "j < length (threads s)" for j using same [OF that] by (cases "j = i") simp_all
    ultimately have "abs_sys t = abs_sys s"
      using t len by (intro abs_sys_same) (simp_all add: abs_pool_def)
    with ok' show ?thesis by blast
  qed
qed

theorem over_exec:
  assumes ok: "over_ok s" and fine: "calls_fine s" and ex: "exec (over_machine M ret panics) l s = Some t"
  shows "over_ok t \<and> ((abs_sys t = abs_sys s \<and> \<not> is_call l)
    \<or> exec (wpool_machine Q panics) (quieten l) (abs_sys s) = Some (abs_sys t))"
  using ex
proof (cases rule: exec_cases)
  case (Call i op)
  then obtain p where p: "pc (threads s ! i) = AtPool p" "wpool_resting p" by (cases "pc (threads s ! i)") auto
  have th: "(map (queue_thread idle) (threads s))[i := at_rest idle] = map (queue_thread idle) (threads s)"
    using Call(2) p(1) by (intro list_update_same_conv [THEN iffD2]) simp_all
  have q: "queue_sys idle t = queue_sys idle s" using Call th by (simp add: queue_sys_def map_update)
  have "over_ok t" by (rule over_ok_update [OF ok, of t i]) (use ok q Call in \<open>auto simp: over_ok_def\<close>)
  moreover have "exec (wpool_machine Q panics) l (abs_sys s) = Some (abs_sys t)"
    using Call p q by (simp add: over_abs_def abs_thread_def map_update)
  ultimately show ?thesis using Call(1) by simp
next
  case (Run i ks q' p' nt us)
  show ?thesis
  proof (cases "pc (threads s ! i)")
    case (AtPool p)
    show ?thesis
    proof (cases "queue_op p")
      case None
      with Run AtPool obtain p'' where w: "wpool_step no_queue panics (shared s) p = Some (q', p'')"
        "p' = AtPool p''" "nt = Quiet" by auto
      with Run local_step [OF ok Run(2) AtPool None w(1), of t] show ?thesis by simp
    next
      case (Some op)
      with Run AtPool have "q' = shared s" "p' = InQueue p (now s) (entry M op)" "nt = Quiet" by auto
      with Run enter_step [OF ok Run(2) AtPool Some, of t] show ?thesis by simp
    qed
  next
    case (InQueue p c r)
    show ?thesis
    proof (cases "ret r")
      case None
      with Run InQueue obtain jq r' where w: "advance M i (now s) (job_queue (shared s)) r = Some (jq, r', nt)"
        "q' = (shared s)\<lparr>job_queue := jq\<rparr>" "p' = InQueue p c r'" by auto
      have del: "deliver (over_machine M ret panics) ks nt ((threads s)[i := (threads s ! i)\<lparr>pc := InQueue p c r'\<rparr>]) = Some us"
        using Run(4) w(3) by simp
      from queue_step [OF ok fine Run(2) InQueue None w(1) del Run(5) [unfolded w(2)]]
      show ?thesis using Run(1) by simp
    next
      case (Some x)
      with Run InQueue have "q' = shared s" "p' = AtPool (resume p x)" "nt = Quiet" by auto
      with Run leave_step [OF ok Run(2) InQueue Some, of t] show ?thesis by simp
    qed
  qed
next
  case (Spurious i)
  then obtain p c r where p: "pc (threads s ! i) = InQueue p c r" "dozing M r \<noteq> None"
    by (cases "pc (threads s ! i)") auto
  obtain op where op: "queue_op p = Some op" using over_okD [OF ok Spurious(2) p(1)] by blast
  have q: "exec M (Spurious i) (queue_sys idle s) = Some (queue_sys idle t)"
    using Spurious p by (simp add: queue_sys_def map_update)
  have inv: "inv (queue_sys idle t)" "absf (queue_sys idle t) = absf (queue_sys idle s)"
    using ok inv_exec [OF _ q] quiet_abs [OF _ q] by (simp_all add: over_ok_def)
  have "over_ok t" by (rule over_ok_update [OF ok inv(1), of i]) (use Spurious p op in auto)
  moreover have "abs_sys t = abs_sys s"
    using inv(2) Spurious p rouse_undecided
    by (intro abs_sys_same) (auto simp: abs_thread_def nth_list_update)
  ultimately show ?thesis using Spurious(1) by simp
next
  case (Tick d)
  have q: "queue_sys idle t = (queue_sys idle s)\<lparr>now := now s + d\<rparr>" using Tick by (simp add: queue_sys_def)
  then have ex': "exec M (Tick d) (queue_sys idle s) = Some (queue_sys idle t)" by simp
  have inv: "inv (queue_sys idle t)" using ok inv_exec [OF _ ex'] by (simp add: over_ok_def)
  have "absf (queue_sys idle t) = absf (queue_sys idle s)"
    unfolding q using ok by (intro tick_abs) (simp add: over_ok_def)
  with inv Tick ok show ?thesis by (simp add: over_ok_def over_abs_def)
qed

theorem over_run:
  assumes "run (over_machine M ret panics) ls s = Some t" and "over_ok s"
    and "always (over_machine M ret panics) calls_fine ls s"
  shows "over_ok t \<and> (\<exists>ms. run (wpool_machine Q panics) ms (abs_sys s) = Some (abs_sys t)
    \<and> subseq ms (map quieten ls) \<and> filter is_call ms = filter is_call ls)"
  using assms
proof (induction ls arbitrary: s)
  case (Cons l ls)
  then obtain u where u: "exec (over_machine M ret panics) l s = Some u" "run (over_machine M ret panics) ls u = Some t"
    by (auto split: option.splits)
  have sim: "over_ok u \<and> ((abs_sys u = abs_sys s \<and> \<not> is_call l)
      \<or> exec (wpool_machine Q panics) (quieten l) (abs_sys s) = Some (abs_sys u))"
    using Cons.prems u(1) by (intro over_exec) simp_all
  with Cons.IH [OF u(2)] Cons.prems(3) u(1) obtain ms where ms: "over_ok t"
    "run (wpool_machine Q panics) ms (abs_sys u) = Some (abs_sys t)" "subseq ms (map quieten ls)"
    "filter is_call ms = filter is_call ls" by auto
  have qc: "is_call (quieten l) = is_call l" "is_call l \<Longrightarrow> quieten l = l" by (cases l; simp)+
  from sim consider (stay) "abs_sys u = abs_sys s" "\<not> is_call l"
    | (move) "exec (wpool_machine Q panics) (quieten l) (abs_sys s) = Some (abs_sys u)" by blast
  then show ?case
  proof cases
    case stay
    with ms show ?thesis by (intro conjI exI [of _ ms]) (auto intro: subseq_Cons')
  next
    case move
    with ms qc show ?thesis by (intro conjI exI [of _ "quieten l # ms"]) auto
  qed
next
  case Nil
  then show ?case by (intro conjI exI [of _ "[]"]) auto
qed

end

end
