(* ===== verification/WorkerPoolInv.thy ===== *)
theory WorkerPoolInv
  imports WorkerPool
begin

text \<open>
  Invariants of the thread pool over any job queue that keeps its contract: the jobs accepted
  are the jobs started followed by the jobs queued, every live worker has exactly one thread,
  and a worker exits only when the queue is disposed and empty.
\<close>

section \<open>The machine rules\<close>

interpretation wpool: machine_rules "wpool_machine Q panics"
  for Q :: "('q, 'j) job_queue" and panics :: "'j \<Rightarrow> bool"
proof
  fix p :: "'j wpool_pc" and i t q q' p' nt
  let ?M = "wpool_machine Q panics"
  show "resting ?M p \<Longrightarrow> advance ?M i t q p = None"
    by (cases p) (simp_all add: wpool_advance_def)
qed simp_all

lemma wpool_run_step:
  assumes "exec (wpool_machine Q panics) (Run i ks) s = Some t"
  obtains q p where "i < length (threads s)" "wpool_step Q panics (shared s) (pc (threads s ! i)) = Some (q, p)"
    "t = s\<lparr>shared := q, threads := (threads s)[i := (threads s ! i)\<lparr>pc := p\<rparr>]\<rparr>"
  using assms by (auto simp: wpool_advance_def split: if_splits option.splits)

section \<open>What goes in and what comes out\<close>

text \<open>The jobs accepted by a submit, and the jobs a worker takes, in order.\<close>

definition accepts :: "'j wpool_pc \<Rightarrow> 'j wpool_pc \<Rightarrow> 'j list" where
  "accepts p p' = (case p of
     SubmitPush j \<Rightarrow> if p' = WDone (ClientRes (SubmitRes (Inr ()))) then [j] else []
   | _ \<Rightarrow> [])"

definition starts :: "'j wpool_pc \<Rightarrow> 'j wpool_pc \<Rightarrow> 'j list" where
  "starts p p' = (case p' of ProcJob k j \<Rightarrow> [j] | _ \<Rightarrow> [])"

definition by_actor ::
    "('pc \<Rightarrow> 'pc \<Rightarrow> 'e list) \<Rightarrow> 'op label \<Rightarrow> ('op, 'q, 'pc) sys \<Rightarrow> ('op, 'q, 'pc) sys \<Rightarrow> 'e list" where
  "by_actor f l s t = (case l of Run i ks \<Rightarrow> f (pc (threads s ! i)) (pc (threads t ! i)) | _ \<Rightarrow> [])"

definition jobs_accepted ::
    "('j wpool_op, 'q wpool, 'j wpool_pc, unit) machine \<Rightarrow> 'j wpool_op label list
      \<Rightarrow> ('j wpool_op, 'q wpool, 'j wpool_pc) sys \<Rightarrow> 'j list" where
  "jobs_accepted M ls s = observe M (by_actor accepts) ls s"

definition jobs_started ::
    "('j wpool_op, 'q wpool, 'j wpool_pc, unit) machine \<Rightarrow> 'j wpool_op label list
      \<Rightarrow> ('j wpool_op, 'q wpool, 'j wpool_pc) sys \<Rightarrow> 'j list" where
  "jobs_started M ls s = observe M (by_actor starts) ls s"

context job_queue_contract
begin

lemma step_contents:
  assumes "wpool_step Q panics q p = Some (q', p')"
  shows "contents (job_queue q) @ accepts p p' = starts p p' @ contents (job_queue q')"
  using assms
  by (cases p) (auto simp: accepts_def starts_def wsubmit_step_def set_worker_def dispose_law
      split: if_splits option.splits list.splits dest!: push_law pop_law)

lemma run_contents:
  "run (wpool_machine Q panics) ls s = Some t \<Longrightarrow>
    contents (job_queue (shared s)) @ jobs_accepted (wpool_machine Q panics) ls s
      = jobs_started (wpool_machine Q panics) ls s @ contents (job_queue (shared t))"
proof (induction ls arbitrary: s)
  case (Cons l ls)
  then obtain u where u: "exec (wpool_machine Q panics) l s = Some u" "run (wpool_machine Q panics) ls u = Some t"
    by (auto split: option.splits)
  have here: "contents (job_queue (shared s)) @ by_actor accepts l s u
      = by_actor starts l s u @ contents (job_queue (shared u))"
  proof (cases l)
    case (Run i ks)
    with u(1) obtain q p where q: "i < length (threads s)"
      "wpool_step Q panics (shared s) (pc (threads s ! i)) = Some (q, p)"
      "u = s\<lparr>shared := q, threads := (threads s)[i := (threads s ! i)\<lparr>pc := p\<rparr>]\<rparr>"
      by (metis wpool_run_step)
    from step_contents [OF q(2)] q(1,3) Run show ?thesis by (simp add: by_actor_def)
  qed (use u(1) in \<open>auto simp: by_actor_def split: if_splits\<close>)
  have "contents (job_queue (shared s)) @ by_actor accepts l s u @ jobs_accepted (wpool_machine Q panics) ls u
      = (by_actor starts l s u @ contents (job_queue (shared u))) @ jobs_accepted (wpool_machine Q panics) ls u"
    unfolding append_assoc [symmetric] here ..
  with Cons.IH [OF u(2)] u(1) show ?case
    by (simp add: jobs_accepted_def jobs_started_def)
qed (simp add: jobs_accepted_def jobs_started_def)

end

section \<open>Workers and their threads\<close>

definition worker_alive :: "nat \<Rightarrow> 'q wpool \<Rightarrow> nat" where
  "worker_alive k q = (if k < length (statuses q) \<and> statuses q ! k = Alive then 1 else 0)"

fun inside_worker :: "nat \<Rightarrow> 'j wpool_pc \<Rightarrow> nat" where
  "inside_worker k (ProcPop k') = of_bool (k' = k)"
| "inside_worker k (ProcJob k' j) = of_bool (k' = k)"
| "inside_worker k (ProcExit k') = of_bool (k' = k)"
| "inside_worker k p = 0"

lemma alive_step:
  assumes "wpool_step Q panics q p = Some (q', p')" and "inside_worker k p \<le> worker_alive k q"
  shows "worker_alive k q' + inside_worker k p = worker_alive k q + inside_worker k p'"
  using assms
  by (cases p) (auto simp: worker_alive_def wsubmit_step_def set_worker_def nth_list_update
      split: if_splits option.splits list.splits)

interpretation live_workers: ledger "wpool_machine Q panics" "\<lambda>_. True" "worker_alive k" "\<lambda>_. 0" "inside_worker k"
  for Q :: "('q, 'j) job_queue" and panics :: "'j \<Rightarrow> bool" and k
proof
  fix op :: "'j wpool_op" and p p' :: "'j wpool_pc" and i q' nt and s :: "('j wpool_op, 'q wpool, 'j wpool_pc) sys"
  let ?M = "wpool_machine Q panics"
  show "inside_worker k (entry ?M op) = 0" by (cases op rule: wpool_entry.cases) auto
  show "resting ?M p \<Longrightarrow> inside_worker k p = 0" by (cases p) auto
  assume "advance ?M i (now s) (shared s) (pc (threads s ! i)) = Some (q', p', nt)"
    and "0 + inside_worker k (pc (threads s ! i)) \<le> worker_alive k (shared s)"
  then show "worker_alive k q' + 0 + inside_worker k (pc (threads s ! i))
      = worker_alive k (shared s) + 0 + inside_worker k p'"
    using alive_step [of Q panics "shared s" "pc (threads s ! i)" q' p' k] by (simp add: wpool_advance_def)
qed simp

definition one_thread_each :: "('j wpool_op, 'q wpool, 'j wpool_pc) sys \<Rightarrow> bool" where
  "one_thread_each s \<longleftrightarrow> (\<forall>k. worker_alive k (shared s) = weight (inside_worker k) (threads s))"

lemma one_thread_exec:
  "one_thread_each s \<Longrightarrow> exec (wpool_machine Q panics) l s = Some t \<Longrightarrow> one_thread_each t"
  unfolding one_thread_each_def using live_workers.exec_balanced [OF TrueI, of Q panics l s t]
  by (simp add: live_workers.balanced_def)

lemma one_thread_at:
  "one_thread_each s \<Longrightarrow> i < length (threads s) \<Longrightarrow> inside_worker k (pc (threads s ! i)) \<le> worker_alive k (shared s)"
  using weight_member [of i "threads s" "inside_worker k"] by (simp add: one_thread_each_def)

section \<open>The shared invariant\<close>

lemma set_update_cases: "x \<in> set (xs[k := y]) \<Longrightarrow> x \<in> set xs \<or> x = y"
  using set_update_subset_insert [of xs k y] by auto

definition pool_ok :: "('q \<Rightarrow> 'j list) \<Rightarrow> ('q \<Rightarrow> bool) \<Rightarrow> ('j \<Rightarrow> bool) \<Rightarrow> nat \<Rightarrow> 'q wpool \<Rightarrow> bool" where
  "pool_ok jobs shut panics w q \<longleftrightarrow>
     (Exited \<in> set (statuses q) \<longrightarrow> shut (job_queue q) \<and> jobs (job_queue q) = [])
     \<and> (Died \<in> set (statuses q) \<longrightarrow> (\<exists>j. panics j))
     \<and> length (statuses q) = w \<and> num_workers q = w
     \<and> (\<not> pool_disposed q \<longrightarrow> workers q = [0..<w])"

text \<open>
  What a thread relies on: a dispose past its exchange, and past closing the queue; a worker
  that has been told the queue is closed and empty.
\<close>

definition point_ok :: "('q \<Rightarrow> 'j list) \<Rightarrow> ('q \<Rightarrow> bool) \<Rightarrow> 'q wpool \<Rightarrow> 'j wpool_pc \<Rightarrow> bool" where
  "point_ok jobs shut q p \<longleftrightarrow>
     (case p of
        DisposeQueue \<Rightarrow> pool_disposed q
      | DrainWorkers \<Rightarrow> pool_disposed q \<and> shut (job_queue q)
      | JoinAll ks \<Rightarrow> shut (job_queue q)
      | ProcExit k \<Rightarrow> shut (job_queue q) \<and> jobs (job_queue q) = []
      | _ \<Rightarrow> True)"

context job_queue_contract
begin

lemma pool_ok_step:
  assumes "wpool_step Q panics q p = Some (q', p')" and "pool_ok contents shut panics w q" and "point_ok contents shut q p"
  shows "pool_ok contents shut panics w q' \<and> point_ok contents shut q' p'"
  using assms
  by (cases p) (auto simp: pool_ok_def point_ok_def wsubmit_step_def set_worker_def dispose_law
      split: if_splits option.splits list.splits dest!: push_law pop_law set_update_cases)

lemma pool_frame:
  assumes "wpool_step Q panics q p = Some (q', p')"
  shows "(pool_disposed q \<longrightarrow> pool_disposed q')
    \<and> (shut (job_queue q) \<longrightarrow> shut (job_queue q') \<and> (contents (job_queue q) = [] \<longrightarrow> contents (job_queue q') = []))"
  using assms
  by (cases p) (auto simp: wsubmit_step_def set_worker_def dispose_law
      split: if_splits option.splits list.splits dest!: push_law pop_law)

text \<open>A worker that has ended without a panic has left the queue empty.\<close>

lemma ended_drained:
  assumes "pool_ok contents shut panics w q" and "worker_ended q k" and "k < w" and "\<forall>j. \<not> panics j"
  shows "contents (job_queue q) = []"
proof -
  have "Died \<notin> set (statuses q)" "statuses q ! k \<in> set (statuses q)" "statuses q ! k = Exited \<or> statuses q ! k = Died"
    using assms by (auto simp: pool_ok_def worker_ended_def)
  then have "Exited \<in> set (statuses q)" by metis
  with assms(1) show ?thesis by (simp add: pool_ok_def)
qed

end

sublocale job_queue_contract \<subseteq> pool: guarded "wpool_machine Q panics" "pool_ok contents shut panics w"
  "\<lambda>i t q th. point_ok contents shut q (pc th)" for panics w
proof
  fix q q' :: "'q wpool" and i j t d p nt and op :: "'j wpool_op"
    and th th' :: "('j wpool_op, 'j wpool_pc) thread"
  let ?M = "wpool_machine Q panics"
  show "point_ok contents shut q (pc \<lparr>cur = Some op, called = t, pc = entry ?M op\<rparr>)"
    by (cases op rule: wpool_entry.cases) (simp_all add: point_ok_def)
  assume "pool_ok contents shut panics w q" and "point_ok contents shut q (pc th)"
    and "advance ?M i t q (pc th) = Some (q', p, nt)"
  then have step: "wpool_step Q panics q (pc th) = Some (q', p)" by (simp add: wpool_advance_def)
  show "pool_ok contents shut panics w q' \<and> point_ok contents shut q' (pc (th\<lparr>pc := p\<rparr>))"
    using pool_ok_step [OF step] \<open>pool_ok contents shut panics w q\<close> \<open>point_ok contents shut q (pc th)\<close> by simp
  show "point_ok contents shut q (pc th') \<Longrightarrow> point_ok contents shut q' (pc th')"
    using pool_frame [OF step] by (auto simp: point_ok_def split: wpool_pc.splits)
qed (simp_all add: point_ok_def split: wpool_pc.splits)

end
