(* ===== verification/WorkerPoolProps.thy ===== *)
theory WorkerPoolProps
  imports WorkerPoolInv
begin

text \<open>
  The properties of the thread pool, proved once from the contract of the job queue (in
  \<open>job_queue_contract\<close>) and stated over the sequential queue specification, for arbitrary
  schedules of \<open>n\<close> threads around a new pool of \<open>w\<close> workers.
\<close>

section \<open>Invariants of a run\<close>

lemma wpool_start_one: "one_thread_each (wpool_start jq w n)"
proof -
  have "worker_alive k (with_jq jq w) = 0" for k
    by (cases "k < w") (simp_all add: worker_alive_def with_jq_def)
  then show ?thesis by (simp add: one_thread_each_def wpool_start_def)
qed

lemma wpool_one_thread:
  assumes "run (wpool_machine Q panics) ls (wpool_start jq w n) = Some s"
  shows "one_thread_each s"
  using one_thread_exec assms wpool_start_one by (rule run_invariant [of one_thread_each])

context job_queue_contract
begin

lemma run_pool_ok:
  assumes "run (wpool_machine Q panics) ls (wpool_start jq w n) = Some s"
  shows "pool_ok contents shut panics w (shared s)
    \<and> (\<forall>i < n. point_ok contents shut (shared s) (pc (threads s ! i))) \<and> length (threads s) = n"
proof -
  have "pool_ok contents shut panics w (with_jq jq w)" by (simp add: pool_ok_def with_jq_def)
  then have "pool_ok contents shut panics w (shared s)
      \<and> all_threads (\<lambda>i t q th. point_ok contents shut q (pc th)) s"
    by (intro pool.run_guarded [OF assms]) (simp_all add: wpool_start_def all_threads_def point_ok_def)
  moreover have "length (threads s) = n" using run_length [OF assms] by (simp add: wpool_start_def)
  ultimately show ?thesis by (simp add: all_threads_def)
qed

end

section \<open>Dispose\<close>

text \<open>
  \<open>dispose\<close> takes the pool by exclusive reference: no other method call is in progress or begins
  while it runs, only the workers go on.
\<close>

fun wpool_worker :: "'j wpool_pc \<Rightarrow> bool" where
  "wpool_worker (ProcStart k) = True"
| "wpool_worker (ProcPop k) = True"
| "wpool_worker (ProcJob k j) = True"
| "wpool_worker (ProcExit k) = True"
| "wpool_worker p = wpool_resting p"

definition procs_only :: "tid \<Rightarrow> 'j wpool_op label \<Rightarrow> bool" where
  "procs_only d l \<longleftrightarrow> (case l of Call j op \<Rightarrow> j \<noteq> d \<and> (\<exists>k. op = Proc k) | _ \<Rightarrow> True)"

fun closing :: "('q \<Rightarrow> bool) \<Rightarrow> nat \<Rightarrow> 'q wpool \<Rightarrow> 'j wpool_pc \<Rightarrow> bool" where
  "closing shut w q DisposeCas = (\<not> pool_disposed q \<and> workers q = [0..<w])"
| "closing shut w q DisposeQueue = (workers q = [0..<w])"
| "closing shut w q DrainWorkers = (shut (job_queue q) \<and> workers q = [0..<w])"
| "closing shut w q (JoinAll ks) = (shut (job_queue q) \<and> (\<forall>k < w. k \<in> set ks \<or> worker_ended q k))"
| "closing shut w q (WDone r) = (shut (job_queue q) \<and> (\<forall>k < w. worker_ended q k))"
| "closing shut w q p = False"

lemma nth_update_any: "xs[m := x] ! k = (if k = m \<and> k < length xs then x else xs ! k)"
  by (cases "m < length xs") (auto simp: nth_list_update list_update_beyond)

lemma worker_ended_step:
  "wpool_step Q panics q p = Some (q', p') \<Longrightarrow> worker_ended q k \<Longrightarrow> worker_ended q' k"
  by (cases p) (auto simp: worker_ended_def wsubmit_step_def set_worker_def nth_update_any
      split: if_splits option.splits list.splits)

lemma wpool_worker_step:
  "wpool_step Q panics q p = Some (q', p') \<Longrightarrow> wpool_worker p \<Longrightarrow>
    wpool_worker p' \<and> workers q' = workers q \<and> pool_disposed q' = pool_disposed q"
  by (cases p) (auto simp: set_worker_def split: if_splits option.splits)

context job_queue_contract
begin

definition closing_by :: "nat \<Rightarrow> tid \<Rightarrow> ('j wpool_op, 'q wpool, 'j wpool_pc) sys \<Rightarrow> bool" where
  "closing_by w d s \<longleftrightarrow> d < length (threads s) \<and> closing shut w (shared s) (pc (threads s ! d))
     \<and> (\<forall>j < length (threads s). j \<noteq> d \<longrightarrow> wpool_worker (pc (threads s ! j)))"

lemma closing_step:
  assumes "wpool_step Q panics q p = Some (q', p')" and "closing shut w q p"
  shows "closing shut w q' p'"
  using assms by (cases p) (auto simp: dispose_law worker_ended_def split: if_splits list.splits)

lemma closing_frame:
  assumes step: "wpool_step Q panics q p = Some (q', p')" and "wpool_worker p" and "closing shut w q r"
  shows "closing shut w q' r"
  using assms(3) wpool_worker_step [OF assms(1,2)] worker_ended_step [OF step] pool_frame [OF step]
  by (cases r) auto

lemma closing_exec:
  assumes by_d: "closing_by w d s" and ex: "exec (wpool_machine Q panics) l s = Some t" and lab: "procs_only d l"
  shows "closing_by w d t"
proof (cases l)
  case (Run i ks)
  with ex obtain q p where q: "i < length (threads s)"
    "wpool_step Q panics (shared s) (pc (threads s ! i)) = Some (q, p)"
    "t = s\<lparr>shared := q, threads := (threads s)[i := (threads s ! i)\<lparr>pc := p\<rparr>]\<rparr>"
    by (metis wpool_run_step)
  show ?thesis
  proof (cases "i = d")
    case True
    with q by_d closing_step [OF q(2)] show ?thesis by (auto simp: closing_by_def nth_list_update)
  next
    case False
    with q(1) by_d have "wpool_worker (pc (threads s ! i))" by (simp add: closing_by_def)
    with False q by_d closing_frame [OF q(2)] wpool_worker_step [OF q(2)] show ?thesis
      by (auto simp: closing_by_def nth_list_update)
  qed
qed (use assms in \<open>auto simp: closing_by_def procs_only_def nth_list_update split: if_splits\<close>)

lemma closing_run:
  "run (wpool_machine Q panics) ms s = Some u \<Longrightarrow> closing_by w d s \<Longrightarrow> \<forall>l \<in> set ms. procs_only d l \<Longrightarrow>
    closing_by w d u"
proof (induction ms arbitrary: s)
  case (Cons l ms)
  then obtain t where t: "exec (wpool_machine Q panics) l s = Some t" "run (wpool_machine Q panics) ms t = Some u"
    by (auto split: option.splits)
  with Cons closing_exec [OF Cons.prems(2) t(1)] show ?case by simp
qed simp

lemma dispose_drains:
  assumes run: "run (wpool_machine Q panics) ls (wpool_start jq w n) = Some s"
    and d: "d < n" "\<not> pool_disposed (shared s)" "\<forall>j < n. wpool_worker (pc (threads s ! j))"
    and run': "run (wpool_machine Q panics) (Call d (Client Dispose) # ms) s = Some u"
    and only: "\<forall>l \<in> set ms. procs_only d l" and ret: "pc (threads u ! d) = WDone r"
  shows "shut (job_queue (shared u)) \<and> (\<forall>k < w. worker_ended (shared u) k)
    \<and> (\<forall>i < n. \<forall>k. inside_worker k (pc (threads u ! i)) = 0)
    \<and> (0 < w \<longrightarrow> (\<forall>j. \<not> panics j) \<longrightarrow> contents (job_queue (shared u)) = [])"
proof -
  let ?M = "wpool_machine Q panics"
  let ?all = "ls @ Call d (Client Dispose) # ms"
  obtain t where t: "exec ?M (Call d (Client Dispose)) s = Some t" "run ?M ms t = Some u"
    using run' by (auto split: option.splits)
  have ok: "pool_ok contents shut panics w (shared s)" "length (threads s) = n"
    using run_pool_ok [OF run] by simp_all
  have "closing_by w d t"
    using t(1) d ok by (auto simp: closing_by_def pool_ok_def nth_list_update split: if_splits)
  then have by_d: "closing_by w d u" using closing_run [OF t(2)] only by simp
  then have ended: "shut (job_queue (shared u))" "\<And>k. k < w \<Longrightarrow> worker_ended (shared u) k"
    using ret by (auto simp: closing_by_def)
  have full: "run ?M ?all (wpool_start jq w n) = Some u" using run run' by (simp add: run_append)
  have ok': "pool_ok contents shut panics w (shared u)" "length (threads u) = n"
    using run_pool_ok [OF full] by simp_all
  have none: "worker_alive k (shared u) = 0" for k
    using ended(2) [of k] ok'(1) by (auto simp: worker_alive_def worker_ended_def pool_ok_def)
  have inside: "inside_worker k (pc (threads u ! i)) = 0" if "i < n" for i k
    using one_thread_at [OF wpool_one_thread [OF full], of i k] none [of k] that ok'(2) by simp
  have "contents (job_queue (shared u)) = []" if "0 < w" "\<forall>j. \<not> panics j"
    using that by (intro ended_drained [OF ok'(1) ended(2)]) simp_all
  with ended inside show ?thesis by blast
qed

end

section \<open>Progress, and workers that died\<close>

lemma alive_thread:
  assumes "one_thread_each s" and "k < length (statuses (shared s))" and "statuses (shared s) ! k = Alive"
  obtains i where "i < length (threads s)"
    "pc (threads s ! i) = ProcPop k \<or> (\<exists>j. pc (threads s ! i) = ProcJob k j) \<or> pc (threads s ! i) = ProcExit k"
proof -
  from assms have "0 < weight (inside_worker k) (threads s)"
    by (metis one_thread_each_def worker_alive_def zero_less_one)
  then obtain i where "i < length (threads s)" "0 < inside_worker k (pc (threads s ! i))"
    by (auto simp: weight_pos_iff)
  with that show thesis by (cases "pc (threads s ! i)") (auto split: if_splits)
qed

lemma starts_worker:
  "wpool_step Q panics q p = Some (q', p') \<Longrightarrow> starts p p' \<noteq> [] \<Longrightarrow> \<exists>k. inside_worker k p = 1"
  by (cases p) (auto simp: starts_def wsubmit_step_def split: if_splits option.splits list.splits)

text \<open>Once no worker is left, nothing is started any more.\<close>

lemma ended_starts:
  assumes "run (wpool_machine Q panics) ms s = Some t" and "one_thread_each s" and "\<forall>k. worker_ended (shared s) k"
  shows "jobs_started (wpool_machine Q panics) ms s = []"
  using assms
proof (induction ms arbitrary: s)
  case (Cons l ms)
  then obtain u where u: "exec (wpool_machine Q panics) l s = Some u" "run (wpool_machine Q panics) ms u = Some t"
    by (auto split: option.splits)
  have "(\<forall>k. worker_ended (shared u) k) \<and> by_actor starts l s u = []"
  proof (cases l)
    case (Run i ks)
    with u(1) obtain q p where q: "i < length (threads s)"
      "wpool_step Q panics (shared s) (pc (threads s ! i)) = Some (q, p)"
      "u = s\<lparr>shared := q, threads := (threads s)[i := (threads s ! i)\<lparr>pc := p\<rparr>]\<rparr>"
      by (metis wpool_run_step)
    have "worker_alive k (shared s) = 0" for k
      using Cons.prems(3) by (auto simp: worker_alive_def worker_ended_def)
    then have "inside_worker k (pc (threads s ! i)) = 0" for k
      using one_thread_at [OF Cons.prems(2) q(1), of k] by simp
    then have "starts (pc (threads s ! i)) p = []" using starts_worker [OF q(2)] by fastforce
    with q worker_ended_step [OF q(2)] Cons.prems(3) Run show ?thesis by (simp add: by_actor_def)
  qed (use u(1) Cons.prems(3) in \<open>auto simp: by_actor_def split: if_splits\<close>)
  with Cons.IH [OF u(2) one_thread_exec [OF Cons.prems(2) u(1)]] u(1) show ?case
    by (simp add: jobs_started_def)
qed (simp add: jobs_started_def)

context job_queue_contract
begin

text \<open>Where a thread that cannot act stands.\<close>

lemma blocked_at:
  assumes "wpool_step Q panics q p = None"
  shows "wpool_resting p \<or> (\<exists>k. p = ProcPop k \<and> \<not> shut (job_queue q) \<and> contents (job_queue q) = [])
    \<or> (\<exists>j. p = SubmitPush j \<and> \<not> shut (job_queue q) \<and> full (job_queue q))
    \<or> (\<exists>k ks. p = JoinAll (k # ks) \<and> k < length (statuses q)
        \<and> (statuses q ! k = Unstarted \<or> statuses q ! k = Alive))"
proof (cases p)
  case (JoinAll ks)
  with assms obtain k rest where k: "ks = k # rest" "\<not> worker_ended q k"
    by (auto split: list.splits if_splits)
  with JoinAll show ?thesis by (cases "statuses q ! k") (auto simp: worker_ended_def)
qed (use assms in \<open>auto simp: wsubmit_step_def dest: push_blocks pop_blocks split: option.splits if_splits\<close>)

lemma no_deadlock:
  assumes run: "run (wpool_machine Q panics) ls (wpool_start jq w n) = Some s"
    and stuck: "\<And>i ks. exec (wpool_machine Q panics) (Run i ks) s = None" and i: "i < n"
  shows "wpool_resting (pc (threads s ! i))
    \<or> (\<exists>k. pc (threads s ! i) = ProcPop k \<and> \<not> shut (job_queue (shared s)) \<and> contents (job_queue (shared s)) = [])
    \<or> (\<exists>j. pc (threads s ! i) = SubmitPush j \<and> \<not> shut (job_queue (shared s)) \<and> full (job_queue (shared s))
        \<and> (contents (job_queue (shared s)) \<noteq> [] \<longrightarrow>
            (\<forall>k < w. statuses (shared s) ! k = Unstarted \<or> statuses (shared s) ! k = Died)))
    \<or> (\<exists>k ks. pc (threads s ! i) = JoinAll (k # ks) \<and> k < w \<and> statuses (shared s) ! k = Unstarted)"
proof -
  let ?q = "shared s"
  have ok: "pool_ok contents shut panics w ?q" "point_ok contents shut ?q (pc (threads s ! i))" "length (threads s) = n"
    using run_pool_ok [OF run] i by simp_all
  have none: "wpool_step Q panics ?q (pc (threads s ! j)) = None" if "j < n" for j
    using stuck_blocked [of "wpool_machine Q panics" s j, OF stuck] that ok(3) by (simp add: wpool_advance_def)
  have alive: "\<not> shut (job_queue ?q) \<and> contents (job_queue ?q) = []" if k: "k < w" "statuses ?q ! k = Alive" for k
  proof -
    have "k < length (statuses ?q)" using k ok(1) by (simp add: pool_ok_def)
    then obtain j where "j < n"
      "pc (threads s ! j) = ProcPop k \<or> (\<exists>x. pc (threads s ! j) = ProcJob k x) \<or> pc (threads s ! j) = ProcExit k"
      using alive_thread [OF wpool_one_thread [OF run]] k(2) ok(3) by metis
    with blocked_at [OF none [of j]] show ?thesis by auto
  qed
  have exited: "shut (job_queue ?q)" if "k < w" "statuses ?q ! k = Exited" for k
  proof -
    have "Exited \<in> set (statuses ?q)" using that ok(1) by (metis nth_mem pool_ok_def)
    with ok(1) show ?thesis by (simp add: pool_ok_def)
  qed
  have "statuses ?q ! k = Unstarted \<or> statuses ?q ! k = Died"
    if "k < w" "\<not> shut (job_queue ?q)" "contents (job_queue ?q) \<noteq> []" for k
    using alive [of k] exited [of k] that by (cases "statuses ?q ! k") auto
  moreover have "statuses ?q ! k = Unstarted"
    if "pc (threads s ! i) = JoinAll (k # ks)" "k < w" "statuses ?q ! k = Unstarted \<or> statuses ?q ! k = Alive" for k ks
    using alive [OF that(2)] that(1,3) ok(2) by (auto simp: point_ok_def)
  moreover have "length (statuses ?q) = w" using ok(1) by (simp add: pool_ok_def)
  ultimately show ?thesis using blocked_at [OF none [OF i]] by blast
qed

end

section \<open>Schedules for the witnesses\<close>

lemmas wpool_eval = acts_def wpool_start_def with_jq_def boot_def set_worker_def wpool_advance_def wsubmit_step_def
  worker_ended_def spec_queue_def push_spec_def pop_spec_def ensure_def has_room_def accepts_def starts_def
  by_actor_def jobs_accepted_def jobs_started_def rouse_all_def replicate_numeral

abbreviation bounded_jq :: "nat \<Rightarrow> nat bq_abs" where
  "bounded_jq b \<equiv> \<lparr>items = [], closed = False, bound = b\<rparr>"

abbreviation calm :: "nat \<Rightarrow> bool" where
  "calm \<equiv> \<lambda>j. False"

abbreviation seven_panics :: "nat \<Rightarrow> bool" where
  "seven_panics \<equiv> \<lambda>j. j = 7"

definition submit_by :: "tid \<Rightarrow> nat \<Rightarrow> nat wpool_op label list" where
  "submit_by i j = [Call i (Client (Submit j)), Run i []]"

definition two_jobs :: "nat \<Rightarrow> nat wpool_op label list" where
  "two_jobs k = submit_by 0 7 @ submit_by 1 8 @ Call 2 (Proc 0) # acts 2 k"

section \<open>Order\<close>

text \<open>
  C28. First in, first out: the jobs that were queued and those accepted since are, in this order,
  the jobs the workers have started and the jobs still queued. No job is lost, duplicated or
  overtaken, whatever the number of workers.
\<close>

theorem wpool_fifo:
  assumes "run (wpool_machine spec_queue panics) ls (wpool_start A w n) = Some s"
  shows "items A @ jobs_accepted (wpool_machine spec_queue panics) ls (wpool_start A w n)
    = jobs_started (wpool_machine spec_queue panics) ls (wpool_start A w n) @ items (job_queue (shared s))"
  using spec_queue.run_contents [OF assms] by (simp add: wpool_start_def with_jq_def)

theorem wpool_fifo_witness:
  "\<exists>s. run (wpool_machine spec_queue calm) (two_jobs 2) (wpool_start (bounded_jq 4) 1 3) = Some s
    \<and> jobs_accepted (wpool_machine spec_queue calm) (two_jobs 2) (wpool_start (bounded_jq 4) 1 3) = [7, 8]
    \<and> [7, 8] = [7] @ items (job_queue (shared s))"
proof -
  have ev: "\<exists>s. run (wpool_machine spec_queue calm) (two_jobs 2) (wpool_start (bounded_jq 4) 1 3) = Some s"
    "jobs_accepted (wpool_machine spec_queue calm) (two_jobs 2) (wpool_start (bounded_jq 4) 1 3) = [7, 8]"
    "jobs_started (wpool_machine spec_queue calm) (two_jobs 2) (wpool_start (bounded_jq 4) 1 3) = [7]"
    by (simp_all add: two_jobs_def submit_by_def wpool_eval)
  then obtain s where s: "run (wpool_machine spec_queue calm) (two_jobs 2) (wpool_start (bounded_jq 4) 1 3) = Some s"
    by (elim exE)
  with wpool_fifo [OF s] ev(2,3) show ?thesis by simp
qed

section \<open>Dispose\<close>

text \<open>
  C29. When a dispose of an open pool returns, the queue is closed, every worker has ended and no
  thread is inside one; with at least one worker and no panicking job the queue is empty, so
  every job ever accepted has been started and finished.
\<close>

theorem wpool_dispose_drains:
  assumes "run (wpool_machine spec_queue panics) ls (wpool_start A w n) = Some s" and "d < n"
    and "\<not> pool_disposed (shared s)" and "\<forall>j < n. wpool_worker (pc (threads s ! j))"
    and "run (wpool_machine spec_queue panics) (Call d (Client Dispose) # ms) s = Some u"
    and "\<forall>l \<in> set ms. procs_only d l" and "pc (threads u ! d) = WDone r"
  shows "closed (job_queue (shared u)) \<and> (\<forall>k < w. worker_ended (shared u) k)
    \<and> (\<forall>i < n. \<forall>k. inside_worker k (pc (threads u ! i)) = 0)
    \<and> (0 < w \<longrightarrow> (\<forall>j. \<not> panics j) \<longrightarrow> items (job_queue (shared u)) = [])"
  using assms by (rule spec_queue.dispose_drains)

definition drained_by :: "nat wpool_op label list" where
  "drained_by = acts 0 3 @ acts 2 2 @ acts 0 2"

theorem wpool_dispose_drains_witness:
  "\<exists>s u. run (wpool_machine spec_queue calm) (two_jobs 5) (wpool_start (bounded_jq 4) 1 3) = Some s
    \<and> run (wpool_machine spec_queue calm) (Call 0 (Client Dispose) # drained_by) s = Some u
    \<and> closed (job_queue (shared u)) \<and> worker_ended (shared u) 0 \<and> items (job_queue (shared u)) = []"
proof -
  let ?M = "wpool_machine spec_queue calm :: (nat wpool_op, nat bq_abs wpool, nat wpool_pc, unit) machine"
  obtain s u where s: "run ?M (two_jobs 5) (wpool_start (bounded_jq 4) 1 3) = Some s"
    "run ?M (Call 0 (Client Dispose) # drained_by) s = Some u"
    "\<not> pool_disposed (shared s)"
    "map pc (threads s) = [WDone (ClientRes (SubmitRes (Inr ()))), WDone (ClientRes (SubmitRes (Inr ()))), ProcPop 0]"
    "map pc (threads u) = [WDone (ClientRes DisposeDone), WDone (ClientRes (SubmitRes (Inr ()))), WDone ProcRes]"
    by (simp add: two_jobs_def submit_by_def drained_by_def wpool_eval)
  have "wpool_worker (pc (threads s ! j))" if "j < 3" for j
    using pcs_nth [OF s(4), of j] that by (auto simp: less_Suc_eq numeral_eq_Suc)
  moreover have "\<forall>l \<in> set drained_by. procs_only 0 l" by (simp add: drained_by_def acts_def procs_only_def)
  moreover have "pc (threads u ! 0) = WDone (ClientRes DisposeDone)" using pcs_nth [OF s(5), of 0] by simp
  ultimately have "closed (job_queue (shared u)) \<and> (\<forall>k < 1. worker_ended (shared u) k)
      \<and> (\<forall>i < 3. \<forall>k. inside_worker k (pc (threads u ! i)) = 0)
      \<and> (0 < (1::nat) \<longrightarrow> (\<forall>j. \<not> calm j) \<longrightarrow> items (job_queue (shared u)) = [])"
    using s(3) by (intro wpool_dispose_drains [OF s(1) _ _ _ s(2)]) simp_all
  with s(1,2) show ?thesis by auto
qed

section \<open>Progress\<close>

text \<open>
  C30. No deadlock: when no thread can act, every thread rests, or is a worker waiting at an open
  empty queue, or submits to an open full queue, or joins a worker the system has not started;
  and a submit stays blocked only when no worker is left that could make room: each one has
  not been started yet or has died of a panicking job.
\<close>

theorem wpool_no_deadlock:
  assumes "run (wpool_machine spec_queue panics) ls (wpool_start A w n) = Some s"
    and "\<And>i ks. exec (wpool_machine spec_queue panics) (Run i ks) s = None" and "i < n"
  shows "wpool_resting (pc (threads s ! i))
    \<or> (\<exists>k. pc (threads s ! i) = ProcPop k \<and> \<not> closed (job_queue (shared s)) \<and> items (job_queue (shared s)) = [])
    \<or> (\<exists>j. pc (threads s ! i) = SubmitPush j \<and> \<not> closed (job_queue (shared s))
        \<and> \<not> has_room (job_queue (shared s))
        \<and> (items (job_queue (shared s)) \<noteq> [] \<longrightarrow>
            (\<forall>k < w. statuses (shared s) ! k = Unstarted \<or> statuses (shared s) ! k = Died)))
    \<or> (\<exists>k ks. pc (threads s ! i) = JoinAll (k # ks) \<and> k < w \<and> statuses (shared s) ! k = Unstarted)"
  using assms by (rule spec_queue.no_deadlock)

text \<open>A queue of one place whose only worker died: the third submit waits for good.\<close>

definition submit_blocked :: "nat wpool_op label list" where
  "submit_blocked = submit_by 0 7 @ Call 2 (Proc 0) # acts 2 3 @ submit_by 1 8 @ [Call 0 (Client (Submit 9))]"

theorem wpool_no_deadlock_witness:
  "\<exists>s. run (wpool_machine spec_queue seven_panics) submit_blocked (wpool_start (bounded_jq 1) 1 3) = Some s
    \<and> pc (threads s ! 0) = SubmitPush 9 \<and> statuses (shared s) ! 0 \<in> {Unstarted, Died}"
proof -
  let ?M = "wpool_machine spec_queue seven_panics :: (nat wpool_op, nat bq_abs wpool, nat wpool_pc, unit) machine"
  obtain s where s: "run ?M submit_blocked (wpool_start (bounded_jq 1) 1 3) = Some s"
    "map pc (threads s) = [SubmitPush 9, WDone (ClientRes (SubmitRes (Inr ()))), WDone ProcRes]"
    "job_queue (shared s) = \<lparr>items = [8], closed = False, bound = 1\<rparr>"
    by (simp add: submit_blocked_def submit_by_def wpool_eval)
  have pc0: "pc (threads s ! 0) = SubmitPush 9" using pcs_nth [OF s(2), of 0] by simp
  moreover have "exec ?M (Run i ks) s = None" for i ks
    by (rule blocked_stuck) (simp only: s(2), simp add: wpool_eval s(3))
  ultimately have "statuses (shared s) ! 0 = Unstarted \<or> statuses (shared s) ! 0 = Died"
    using wpool_no_deadlock [OF s(1), of 0] s(3) by auto
  with s(1) pc0 show ?thesis by auto
qed

section \<open>Panicking jobs\<close>

lemma wpool_answers:
  assumes "i < length (threads t)" and "wpool_resting (pc (threads t ! i))"
  shows "\<not> closed (job_queue (shared t)) \<Longrightarrow> has_room (job_queue (shared t)) \<Longrightarrow>
      \<exists>u. run (wpool_machine spec_queue panics) [Call i (Client (Submit j)), Run i []] t = Some u
        \<and> pc (threads u ! i) = WDone (ClientRes (SubmitRes (Inr ())))
        \<and> items (job_queue (shared u)) = items (job_queue (shared t)) @ [j]"
    and "\<exists>u. run (wpool_machine spec_queue panics) [Call i (Client WorkerCount), Run i []] t = Some u
        \<and> pc (threads u ! i) = WDone (ClientRes (CountRes (num_workers (shared t))))"
  using assms by (simp_all add: wpool_advance_def wsubmit_step_def spec_queue_def push_spec_def ensure_def)

text \<open>
  C31. A job that panics takes its worker with it, and no worker is replaced. Once every worker
  has died, whatever happens next, no job is started any more: all that was queued and all that is
  accepted stays in the queue. Yet at any such time the pool still reports all its workers, and
  while its queue is open and has room, a submit still succeeds and leaves its job there.
\<close>

theorem wpool_panic_strands:
  assumes "run (wpool_machine spec_queue panics) ls (wpool_start A w n) = Some s"
    and "\<forall>k < w. statuses (shared s) ! k = Died"
    and "run (wpool_machine spec_queue panics) ms s = Some t"
  shows "jobs_started (wpool_machine spec_queue panics) ms s = []
    \<and> items (job_queue (shared t)) = items (job_queue (shared s)) @ jobs_accepted (wpool_machine spec_queue panics) ms s
    \<and> num_workers (shared t) = w
    \<and> (\<forall>i < n. wpool_resting (pc (threads t ! i)) \<longrightarrow>
        (\<exists>u. run (wpool_machine spec_queue panics) [Call i (Client WorkerCount), Run i []] t = Some u
          \<and> pc (threads u ! i) = WDone (ClientRes (CountRes w)))
        \<and> (\<forall>j. \<not> closed (job_queue (shared t)) \<longrightarrow> has_room (job_queue (shared t)) \<longrightarrow>
            (\<exists>u. run (wpool_machine spec_queue panics) [Call i (Client (Submit j)), Run i []] t = Some u
              \<and> pc (threads u ! i) = WDone (ClientRes (SubmitRes (Inr ())))
              \<and> items (job_queue (shared u)) = items (job_queue (shared t)) @ [j])))"
proof -
  have ok: "length (statuses (shared s)) = w"
    using spec_queue.run_pool_ok [OF assms(1)] by (simp add: pool_ok_def)
  have "run (wpool_machine spec_queue panics) (ls @ ms) (wpool_start A w n) = Some t"
    using assms(1,3) by (simp add: run_append)
  then have t: "num_workers (shared t) = w" "length (threads t) = n"
    using spec_queue.run_pool_ok [of panics "ls @ ms" A w n t] by (simp_all add: pool_ok_def)
  moreover have "jobs_started (wpool_machine spec_queue panics) ms s = []"
    using assms(2) ok by (intro ended_starts [OF assms(3) wpool_one_thread [OF assms(1)]]) (simp add: worker_ended_def)
  ultimately show ?thesis
    using spec_queue.run_contents [OF assms(3)] wpool_answers [where t = t and panics = panics] by simp
qed

text \<open>
  One worker; job 7 panics, job 8 was accepted before, job 9 after; dispose returns and both are
  still queued. Before the dispose, a submit of job 10 would have been accepted too.
\<close>

definition after_panic :: "nat wpool_op label list" where
  "after_panic = submit_by 0 9 @ Call 1 (Client Dispose) # acts 1 5"

theorem wpool_panic_strands_witness:
  "\<exists>s t u v. run (wpool_machine spec_queue seven_panics) (two_jobs 3) (wpool_start (bounded_jq 4) 1 3) = Some s
    \<and> statuses (shared s) = [Died]
    \<and> run (wpool_machine spec_queue seven_panics) after_panic s = Some t
    \<and> pc (threads t ! 1) = WDone (ClientRes DisposeDone)
    \<and> items (job_queue (shared t)) = [8, 9] \<and> num_workers (shared t) = 1
    \<and> run (wpool_machine spec_queue seven_panics) (submit_by 0 9) s = Some u
    \<and> run (wpool_machine spec_queue seven_panics) (submit_by 0 10) u = Some v
    \<and> pc (threads v ! 0) = WDone (ClientRes (SubmitRes (Inr ())))
    \<and> items (job_queue (shared v)) = [8, 9, 10]"
proof -
  let ?M = "wpool_machine spec_queue seven_panics :: (nat wpool_op, nat bq_abs wpool, nat wpool_pc, unit) machine"
  obtain s t u where s: "run ?M (two_jobs 3) (wpool_start (bounded_jq 4) 1 3) = Some s"
    "statuses (shared s) = [Died]" "items (job_queue (shared s)) = [8]"
    "run ?M after_panic s = Some t" "jobs_accepted ?M after_panic s = [9]"
    "pc (threads t ! 1) = WDone (ClientRes DisposeDone)"
    "run ?M (submit_by 0 9) s = Some u" "job_queue (shared u) = \<lparr>items = [8, 9], closed = False, bound = 4\<rparr>"
    "pc (threads u ! 0) = WDone (ClientRes (SubmitRes (Inr ())))"
    by (simp add: two_jobs_def submit_by_def after_panic_def wpool_eval)
  have died: "\<forall>k < 1. statuses (shared s) ! k = Died" using s(2) by simp
  have "items (job_queue (shared t)) = [8, 9] \<and> num_workers (shared t) = 1"
    using wpool_panic_strands [OF s(1) died s(4)] s(3,5) by simp
  moreover have "\<exists>v. run ?M (submit_by 0 10) u = Some v
      \<and> pc (threads v ! 0) = WDone (ClientRes (SubmitRes (Inr ()))) \<and> items (job_queue (shared v)) = [8, 9, 10]"
  proof -
    have "\<not> closed (job_queue (shared u))" "has_room (job_queue (shared u))" "wpool_resting (pc (threads u ! 0))"
      "items (job_queue (shared u)) = [8, 9]" "(0::nat) < 3"
      using s(8,9) by (simp_all add: has_room_def)
    with wpool_panic_strands [OF s(1) died s(7)] show ?thesis
      unfolding submit_by_def by (metis append_Cons append_Nil)
  qed
  ultimately show ?thesis using s by blast
qed

section \<open>Construction\<close>

text \<open>
  Construction: \<open>create_executor\<close> makes a thread pool over the given queue with the number of
  workers asked for, or for 0 as many as the system reports and at least one (the standard library
  reports a nonzero number); the other kinds panic. \<open>ThreadPool::new\<close> takes the number as it is,
  over an unbounded linked queue.
\<close>

lemma wpool_created:
  assumes "parallelism \<noteq> Some 0"
  shows "(\<forall>pool. create_executor with_jq parallelism ty jq m = Some pool \<longrightarrow>
      ty = ThreadPool \<and> job_queue pool = jq \<and> \<not> pool_disposed pool
      \<and> 0 < num_workers pool \<and> num_workers pool = (if m = 0 then ensure_num_workers parallelism 0 else m)
      \<and> length (workers pool) = num_workers pool \<and> statuses pool = replicate (num_workers pool) Unstarted)
    \<and> (create_executor with_jq parallelism ty jq m = None \<longleftrightarrow> ty \<noteq> ThreadPool)
    \<and> thread_pool_new (create_bq array_new linked_new) m = map_option (\<lambda>q. with_jq (Inr q) m) (linked_new 0)"
  using assms
  by (cases ty) (auto simp: create_executor_def ensure_num_workers_def with_jq_def thread_pool_new_def create_bq_def
      option.map_comp comp_def split: option.splits)

end
