(* ===== verification/PoolQueues.thy ===== *)
theory PoolQueues
  imports PoolOverSim WorkerPoolProps ArrayProps LinkedProps
begin

text \<open>
  The thread pool over the two blocking queues. Both are objects the composition accepts, so that
  every run of the pool over \<open>ArrayBQ\<close> or over \<open>LinkedBQ\<close> is, seen from outside the queue, a
  run of the pool over the sequential queue, and has the properties proved there.
\<close>

lemma all_threads_put:
  "all_threads P s \<Longrightarrow> P i (now s) (shared s) th \<Longrightarrow> all_threads P (s\<lparr>threads := (threads s)[i := th]\<rparr>)"
  by (cases "i < length (threads s)") (auto simp: all_threads_def nth_list_update list_update_beyond)

lemma held_put:
  assumes "i < length ts" and "f (pc (ts ! i)) = []" and "f (pc th) = []"
  shows "held f (ts[i := th]) = held f ts"
proof -
  have "(map (\<lambda>th. f (pc th)) ts)[i := []] = map (\<lambda>th. f (pc th)) ts"
    using assms by (intro list_update_same_conv [THEN iffD2]) simp_all
  with assms show ?thesis by (simp add: held_def map_update)
qed

section \<open>The array queue\<close>

fun abq_ret :: "'a abq_pc \<Rightarrow> 'a bq_res option" where
  "abq_ret (Done r) = Some r"
| "abq_ret p = None"

lemma abq_forget:
  assumes inv: "abq_inv s" and i: "i < length (threads s)" and rest: "abq_resting (pc (threads s ! i))"
  shows "abq_inv (s\<lparr>threads := (threads s)[i := at_rest Idle]\<rparr>)
    \<and> abq_abs (s\<lparr>threads := (threads s)[i := at_rest Idle]\<rparr>) = abq_abs s"
proof -
  let ?t = "s\<lparr>threads := (threads s)[i := at_rest Idle]\<rparr>"
  have out: "\<not> abq_holds (pc (threads s ! i))" using rest by (auto elim!: abq_resting.elims)
  have "owner (shared s) \<noteq> Some i"
    using abq_inv_owns [OF inv] i out by (auto simp: all_threads_def owns_def)
  with inv have "abq_inv ?t"
    unfolding abq_inv_def
    by (auto intro!: all_threads_put simp: abq_safe_def abq_call_def owns_def at_rest_def)
  moreover have "abq_abs ?t = abq_abs s"
    using i by (intro abq_abs_same) (auto simp: nth_list_update abq_pending_free out)
  ultimately show ?thesis ..
qed

interpretation abq_object: queue_object abq_machine abq_inv abq_decided abq_abs bq_spec abq_ret Idle spec_queue
    "\<lambda>A op. True"
proof
  fix r :: "'a abq_pc" and x :: "'a bq_res" and q :: "'a abq" and j :: 'a and A B :: "'a bq_abs"
    and s :: "('a bq_op, 'a abq, 'a abq_pc) sys" and i
  show "abq_ret r = Some x \<Longrightarrow> resting abq_machine r" by (cases r) auto
  show "abq_ret r = Some x \<Longrightarrow> \<exists>y. abq_decided q r = Some y \<and> (\<forall>p. resume p y = resume p x)" by (cases r) auto
  show "resting abq_machine Idle" by simp
  show "abq_inv s \<Longrightarrow> i < length (threads s) \<Longrightarrow> resting abq_machine (pc (threads s ! i)) \<Longrightarrow>
      abq_inv (s\<lparr>threads := (threads s)[i := at_rest Idle]\<rparr>)
      \<and> abq_abs (s\<lparr>threads := (threads s)[i := at_rest Idle]\<rparr>) = abq_abs s"
    using abq_forget by simp
  show "bq_spec (OpPush j) x A = Some B \<Longrightarrow> True \<Longrightarrow>
      (x = PushRes (Inr ()) \<and> jq_push spec_queue j A = Some (B, True))
      \<or> (\<exists>y. x = PushRes (Inl (ResourceUnavailable, y)) \<and> jq_push spec_queue j A = Some (B, False))"
    by (auto simp: spec_queue_def push_spec_def ensure_def split: bq_res.splits sum.splits if_splits)
  show "bq_spec OpPop x A = Some B \<Longrightarrow> True \<Longrightarrow>
      (\<exists>j. x = PopRes (Inr j) \<and> jq_pop spec_queue A = Some (B, Some j))
      \<or> (\<exists>e. x = PopRes (Inl e) \<and> jq_pop spec_queue A = Some (B, None))"
    by (auto simp: spec_queue_def pop_spec_def ensure_def split: bq_res.splits sum.splits list.splits if_splits)
  show "bq_spec OpDispose x A = Some B \<Longrightarrow> B = jq_dispose spec_queue A"
    by (auto simp: spec_queue_def split: bq_res.splits)
qed

section \<open>The linked queue\<close>

fun lbq_ret :: "'a lbq_pc \<Rightarrow> 'a bq_res option" where
  "lbq_ret (LDone r) = Some r"
| "lbq_ret p = None"

lemma resume_lin_res: "resume p (lin_res r) = resume p r"
  by (cases r rule: lin_res.cases; cases p) (auto split: sum.splits)

lemma lbq_forget:
  assumes inv: "lbq_inv s" and i: "i < length (threads s)" and rest: "lbq_resting (pc (threads s ! i))"
  shows "lbq_inv (s\<lparr>threads := (threads s)[i := at_rest LIdle]\<rparr>)
    \<and> lbq_abs (s\<lparr>threads := (threads s)[i := at_rest LIdle]\<rparr>) = lbq_abs s"
proof -
  let ?t = "s\<lparr>threads := (threads s)[i := at_rest LIdle]\<rparr>"
  have out: "\<not> holds_push (pc (threads s ! i))" "\<not> holds_pop (pc (threads s ! i))"
    using rest by (auto elim!: lbq_resting.elims)
  have "push_lock (shared s) \<noteq> Some i" "pop_lock (shared s) \<noteq> Some i"
    using lbq_inv_owns [OF inv] i out by (auto simp: all_threads_def owns_def)
  then have "all_threads lbq_safe ?t" "all_threads lbq_call ?t"
    using inv unfolding lbq_inv_def
    by (auto intro!: all_threads_put simp: lbq_safe_def lbq_call_def owns_def at_rest_def)
  moreover have "\<forall>j < length (threads ?t). sound_pc (pc (threads ?t ! j))"
    using inv i by (auto simp: lbq_inv_def nth_list_update sound_pc_def)
  moreover have "unlinked_node (pc (threads s ! i)) = []" "uncounted (pc (threads s ! i)) = []"
    "unsubtracted (pc (threads s ! i)) = []"
    using carried_free out by blast+
  ultimately show ?thesis using inv by (simp add: lbq_inv_def lbq_abs_def lbq_items_def held_put [OF i])
qed

interpretation lbq_object: queue_object lbq_machine lbq_inv "\<lambda>_. lbq_decided" lbq_abs lbq_spec lbq_ret LIdle spec_queue
    "\<lambda>A op. closed A \<longrightarrow> (\<forall>j. op \<noteq> OpPush j)"
proof
  fix r :: "'a lbq_pc" and x :: "'a bq_res" and q :: "'a lbq" and j :: 'a and A B :: "'a bq_abs"
    and s :: "('a bq_op, 'a lbq, 'a lbq_pc) sys" and i
  show "lbq_ret r = Some x \<Longrightarrow> resting lbq_machine r" by (cases r) auto
  show "lbq_ret r = Some x \<Longrightarrow> \<exists>y. lbq_decided r = Some y \<and> (\<forall>p. resume p y = resume p x)"
    by (cases r) (auto simp: resume_lin_res)
  show "resting lbq_machine LIdle" by simp
  show "lbq_inv s \<Longrightarrow> i < length (threads s) \<Longrightarrow> resting lbq_machine (pc (threads s ! i)) \<Longrightarrow>
      lbq_inv (s\<lparr>threads := (threads s)[i := at_rest LIdle]\<rparr>)
      \<and> lbq_abs (s\<lparr>threads := (threads s)[i := at_rest LIdle]\<rparr>) = lbq_abs s"
    using lbq_forget by simp
  show "lbq_spec (OpPush j) x A = Some B \<Longrightarrow> closed A \<longrightarrow> (\<forall>i. OpPush j \<noteq> OpPush i) \<Longrightarrow>
      (x = PushRes (Inr ()) \<and> jq_push spec_queue j A = Some (B, True))
      \<or> (\<exists>y. x = PushRes (Inl (ResourceUnavailable, y)) \<and> jq_push spec_queue j A = Some (B, False))"
    by (auto simp: spec_queue_def push_spec_def lpush_spec_def ensure_def split: bq_res.splits sum.splits if_splits)
  show "lbq_spec OpPop x A = Some B \<Longrightarrow> closed A \<longrightarrow> (\<forall>j. OpPop \<noteq> OpPush j) \<Longrightarrow>
      (\<exists>j. x = PopRes (Inr j) \<and> jq_pop spec_queue A = Some (B, Some j))
      \<or> (\<exists>e. x = PopRes (Inl e) \<and> jq_pop spec_queue A = Some (B, None))"
    by (auto simp: spec_queue_def pop_spec_def lpop_spec_def ensure_def
        split: bq_res.splits sum.splits list.splits if_splits)
  show "lbq_spec OpDispose x A = Some B \<Longrightarrow> B = jq_dispose spec_queue A"
    by (auto simp: spec_queue_def split: bq_res.splits)
qed

section \<open>Refinement\<close>

text \<open>The composed systems at the start, seen as systems of the queue and as pools over its specification.\<close>

lemma queue_sys_start:
  "queue_sys idle (over_start jq w n) = \<lparr>shared = jq, now = 0, threads = replicate n (at_rest idle)\<rparr>"
  by (simp add: queue_sys_def over_start_def with_jq_def)

lemma over_abs_start:
  assumes "queue_sys idle (over_start jq w n) = s0"
  shows "over_abs dec absf idle (over_start jq w n) = wpool_start (absf s0) w n"
  using assms
  by (simp add: over_abs_def over_start_def wpool_start_def with_jq_def abs_pool_def abs_thread_def boot_def)

lemma abq_object_start:
  "queue_sys Idle (over_start (abq_fresh (ensure_capacity c)) w n) = abq_start c n"
  by (simp add: queue_sys_start abq_start_def boot_def at_rest_def)

lemma lbq_object_start: "queue_sys LIdle (over_start (lbq_new c) w n) = lbq_start c n"
  by (simp add: queue_sys_start lbq_start_def boot_def at_rest_def)

lemma abq_abs_start: "abq_abs (abq_start c n) = \<lparr>items = [], closed = False, bound = ensure_capacity c\<rparr>"
  by (simp add: abq_abs_def abq_view_def abq_pendings_def abq_start_def abq_fresh_def)

lemma over_array_ok: "abq_object.over_ok (over_start (abq_fresh (ensure_capacity c)) w n)"
  unfolding abq_object.over_ok_def abq_object_start using abq_inv_start by (simp add: over_start_def)

lemma over_linked_ok: "c \<le> usize_max \<Longrightarrow> lbq_object.over_ok (over_start (lbq_new c) w n)"
  unfolding lbq_object.over_ok_def lbq_object_start using lbq_inv_start [OF _ refl] by (simp add: over_start_def)

lemma abq_calls_fine [simp]: "abq_object.calls_fine s"
  by (simp add: abq_object.calls_fine_def)

text \<open>For the witnesses: one job is submitted and a worker takes it.\<close>

lemmas over_eval = over_start_def with_jq_def no_queue_def set_worker_def worker_ended_def

definition one_job :: "nat \<Rightarrow> nat \<Rightarrow> nat wpool_op label list" where
  "one_job k l = Call 0 (Client (Submit 7)) # acts 0 k @ Call 1 (Proc 0) # acts 1 l"

text \<open>
  C32. The thread pool over the array queue refines the thread pool over the sequential queue: every
  run of \<open>n\<close> threads through the code of both is, call by call and with each queue method
  shrunk to its linearization point, a run of the pool over the sequential queue, which reaches
  the same pool state and program points.
\<close>

theorem pool_over_array:
  assumes "run (over_machine abq_machine abq_ret panics) ls (over_start (abq_fresh (ensure_capacity c)) w n) = Some s"
  shows "\<exists>ms. run (wpool_machine spec_queue panics) ms
        (wpool_start \<lparr>items = [], closed = False, bound = ensure_capacity c\<rparr> w n)
      = Some (over_abs abq_decided abq_abs Idle s)
    \<and> subseq ms (map quieten ls) \<and> filter is_call ms = filter is_call ls"
proof -
  have "always (over_machine abq_machine abq_ret panics) abq_object.calls_fine ls
      (over_start (abq_fresh (ensure_capacity c)) w n)"
    by (rule always_all) (rule abq_calls_fine)
  then show ?thesis
    using abq_object.over_run [OF assms over_array_ok]
    by (simp add: over_abs_start [OF abq_object_start] abq_abs_start)
qed

theorem pool_over_array_witness:
  "\<exists>s ms. run (over_machine abq_machine abq_ret calm) (one_job 8 8) (over_start (abq_fresh (ensure_capacity 4)) 1 2) = Some s
    \<and> pc (threads s ! 1) = InQueue (ProcPop 0) 0 (Done (PopRes (Inr 7)))
    \<and> run (wpool_machine spec_queue calm) ms (wpool_start \<lparr>items = [], closed = False, bound = ensure_capacity 4\<rparr> 1 2)
        = Some (over_abs abq_decided abq_abs Idle s)"
proof -
  obtain s where s: "run (over_machine abq_machine abq_ret calm) (one_job 8 8) (over_start (abq_fresh (ensure_capacity 4)) 1 2) = Some s"
    "map pc (threads s) = [AtPool (WDone (ClientRes (SubmitRes (Inr ())))), InQueue (ProcPop 0) 0 (Done (PopRes (Inr 7)))]"
    by (simp add: one_job_def over_eval abq_eval)
  moreover have "pc (threads s ! 1) = InQueue (ProcPop 0) 0 (Done (PopRes (Inr 7)))" using pcs_nth [OF s(2), of 1] by simp
  ultimately show ?thesis using pool_over_array [OF s(1)] by blast
qed

text \<open>
  Over the linked queue the same holds for every run in which no submit is inside the queue once
  the queue is disposed, which Rust's exclusive reference for \<open>dispose\<close> ensures as long as the
  disposed pool is not used again.
\<close>

definition no_late_submit :: "('j wpool_op, 'j lbq wpool, ('j, 'j lbq_pc) over_pc) sys \<Rightarrow> bool" where
  "no_late_submit s \<longleftrightarrow> (ldisposed (job_queue (shared s)) \<longrightarrow>
     (\<forall>th \<in> set (threads s). \<forall>j c r. pc th \<noteq> InQueue (SubmitPush j) c r))"

lemma no_late_fine: "no_late_submit s \<Longrightarrow> lbq_object.calls_fine s"
  unfolding no_late_submit_def lbq_object.calls_fine_def
  by (auto simp: lbq_abs_def lbq_view_def elim!: queue_op.elims)

text \<open>
  C33. The thread pool over the linked queue, which \<open>ThreadPool::new\<close> makes, refines the thread
  pool over the sequential queue, in every run in which no submit overlaps the disposed queue.
\<close>

theorem pool_over_linked:
  assumes "run (over_machine lbq_machine lbq_ret panics) ls (over_start (lbq_new c) w n) = Some s"
    and "c \<le> usize_max"
    and "always (over_machine lbq_machine lbq_ret panics) no_late_submit ls (over_start (lbq_new c) w n)"
  shows "\<exists>ms. run (wpool_machine spec_queue panics) ms
        (wpool_start \<lparr>items = [], closed = False, bound = ensure_capacity c\<rparr> w n)
      = Some (over_abs (\<lambda>_. lbq_decided) lbq_abs LIdle s)
    \<and> subseq ms (map quieten ls) \<and> filter is_call ms = filter is_call ls"
proof -
  have "always (over_machine lbq_machine lbq_ret panics) lbq_object.calls_fine ls (over_start (lbq_new c) w n)"
    using assms(3) by (rule always_mono) (rule no_late_fine)
  then show ?thesis
    using lbq_object.over_run [OF assms(1) over_linked_ok [OF assms(2)]]
    by (simp add: over_abs_start [OF lbq_object_start] lbq_abs_start [OF assms(2)])
qed

theorem pool_over_linked_witness:
  "\<exists>s ms. run (over_machine lbq_machine lbq_ret calm) (one_job 15 4) (over_start (lbq_new 4) 1 2) = Some s
    \<and> run (wpool_machine spec_queue calm) ms (wpool_start \<lparr>items = [], closed = False, bound = ensure_capacity 4\<rparr> 1 2)
        = Some (over_abs (\<lambda>_. lbq_decided) lbq_abs LIdle s)"
proof -
  let ?M = "over_machine lbq_machine lbq_ret calm"
  obtain s where s: "run ?M (one_job 15 4) (over_start (lbq_new 4) 1 2) = Some s"
    by (simp add: one_job_def over_eval lbq_eval)
  moreover have "always ?M no_late_submit (one_job 15 4) (over_start (lbq_new 4) 1 2)"
    by (simp add: one_job_def over_eval lbq_eval no_late_submit_def)
  ultimately show ?thesis using pool_over_linked [OF s] by (auto simp: usize_max_def usize_mod_def)
qed

section \<open>Disposal of the composed system\<close>

fun over_worker :: "('j, 'r) over_pc \<Rightarrow> bool" where
  "over_worker (AtPool p) = wpool_worker p"
| "over_worker (InQueue p c r) = (\<exists>k. p = ProcPop k)"

lemma over_worker_abs: "over_worker p \<Longrightarrow> wpool_worker (abs_pc dec jq p)"
  by (cases p) (auto split: option.splits bq_res.splits sum.splits)

text \<open>
  Disposal through both layers: when a dispose of the pool over the array queue returns, the
  queue's flag is set, every worker has ended, and, with at
  least one worker and no panicking job, the deque is empty: every job accepted has been run.
\<close>

lemma pool_over_array_dispose:
  assumes "run (over_machine abq_machine abq_ret panics) ls (over_start (abq_fresh (ensure_capacity c)) w n) = Some s"
    and "d < n" and "\<not> pool_disposed (shared s)" and "\<forall>j < n. over_worker (pc (threads s ! j))"
    and "exec (over_machine abq_machine abq_ret panics) (Call d (Client Dispose)) s = Some t"
    and "run (over_machine abq_machine abq_ret panics) ms t = Some u"
    and "\<forall>l \<in> set ms. procs_only d l" and "pc (threads u ! d) = AtPool (WDone r)"
  shows "disposed (job_queue (shared u)) \<and> (\<forall>k < w. worker_ended (shared u) k)
    \<and> (0 < w \<longrightarrow> (\<forall>j. \<not> panics j) \<longrightarrow> buf (job_queue (shared u)) = [])"
proof -
  let ?M = "over_machine abq_machine abq_ret panics" and ?W = "wpool_machine spec_queue panics"
  let ?abs = "over_abs abq_decided abq_abs Idle"
  have len: "length (threads s) = n" "length (threads u) = n"
    using run_length [OF assms(1)] exec_length [OF assms(5)] run_length [OF assms(6)]
    by (simp_all add: over_start_def)
  have fine: "always ?M abq_object.calls_fine xs x" for xs x by (rule always_all) (rule abq_calls_fine)
  note one = abq_object.over_run [OF assms(1) over_array_ok fine]
  obtain ms1 where ms1: "run ?W ms1 (wpool_start \<lparr>items = [], closed = False, bound = ensure_capacity c\<rparr> w n) = Some (?abs s)"
    using pool_over_array [OF assms(1)] by blast
  have two: "abq_object.over_ok t \<and> exec ?W (Call d (Client Dispose)) (?abs s) = Some (?abs t)"
    using abq_object.over_exec [OF _ abq_calls_fine assms(5)] one by simp
  obtain ms2 where ms2: "run ?W ms2 (?abs t) = Some (?abs u)" "filter is_call ms2 = filter is_call ms"
    using abq_object.over_run [OF assms(6) _ fine] two by blast
  have only: "\<forall>l \<in> set ms2. procs_only d l"
  proof
    fix l assume l: "l \<in> set ms2"
    show "procs_only d l"
    proof (cases "is_call l")
      case True
      with l have "l \<in> set (filter is_call ms2)" by simp
      with ms2(2) assms(7) show ?thesis by simp
    next
      case False
      then show ?thesis by (cases l) (simp_all add: procs_only_def)
    qed
  qed
  have pcs: "pc (threads (?abs s) ! j) = abs_pc abq_decided (job_queue (shared s)) (pc (threads s ! j))" if "j < n" for j
    using that len by (simp add: over_abs_def abs_thread_def)
  have "pc (threads (?abs u) ! d) = WDone r"
    using assms(2,8) len by (simp add: over_abs_def abs_thread_def)
  moreover have "\<forall>j < n. wpool_worker (pc (threads (?abs s) ! j))"
    using assms(4) by (simp add: pcs over_worker_abs)
  moreover have "\<not> pool_disposed (shared (?abs s))" using assms(3) by (simp add: over_abs_def)
  moreover have "run ?W (Call d (Client Dispose) # ms2) (?abs s) = Some (?abs u)" using two ms2(1) by simp
  ultimately have fin: "closed (job_queue (shared (?abs u))) \<and> (\<forall>k < w. worker_ended (shared (?abs u)) k)
      \<and> (\<forall>i < n. \<forall>k. inside_worker k (pc (threads (?abs u) ! i)) = 0)
      \<and> (0 < w \<longrightarrow> (\<forall>j. \<not> panics j) \<longrightarrow> items (job_queue (shared (?abs u))) = [])"
    using spec_queue.dispose_drains [OF ms1 assms(2) _ _ _ only] by blast
  then show ?thesis
    by (simp add: over_abs_def abq_abs_def abq_view_def worker_ended_def)
qed

end
