(* ===== verification/QueueClients.thy ===== *)
theory QueueClients
  imports Clients PoolQueues
begin

text \<open>
  Both queues serve client programs: what each operation may answer on the sequential queue
  (\<open>bq_outs\<close>, \<open>lbq_outs\<close>), that a call which cannot go on waits for what is not there, and that
  a drop finds what is queued.
\<close>

section \<open>The array queue\<close>

definition push_outs :: "'a \<Rightarrow> HioLastError list \<Rightarrow> 'a bq_abs \<Rightarrow> ('a bq_res \<times> 'a bq_abs) list" where
  "push_outs x refused A = (if has_room A \<and> refused = [] then [(PushRes (Inr ()), A\<lparr>items := items A @ [x]\<rparr>)]
     else map (\<lambda>e. (PushRes (Inl (e, x)), A)) refused)"

definition pop_outs :: "HioLastError list \<Rightarrow> 'a bq_abs \<Rightarrow> ('a bq_res \<times> 'a bq_abs) list" where
  "pop_outs refused A =
     (case items A of
        x # xs \<Rightarrow> [(PopRes (Inr x), A\<lparr>items := xs\<rparr>)]
      | [] \<Rightarrow> map (\<lambda>e. (PopRes (Inl e), A)) refused)"

fun bq_outs :: "'a bq_op \<Rightarrow> 'a bq_abs \<Rightarrow> ('a bq_res \<times> 'a bq_abs) list" where
  "bq_outs (OpPush x) A = push_outs x (if closed A then [ResourceUnavailable] else []) A"
| "bq_outs (OpTryPush x) A =
     push_outs x (if closed A then [ResourceUnavailable] else if has_room A then [] else [WouldBlock]) A"
| "bq_outs (OpPushTimeout x d) A =
     push_outs x ((if closed A then [ResourceUnavailable] else []) @ (if has_room A then [] else [Timeout])) A"
| "bq_outs OpPop A = pop_outs (if closed A then [ResourceUnavailable] else []) A"
| "bq_outs OpTryPop A = pop_outs [if closed A then ResourceUnavailable else WouldBlock] A"
| "bq_outs (OpPopTimeout d) A = pop_outs ((if closed A then [ResourceUnavailable] else []) @ [Timeout]) A"
| "bq_outs OpDrain A = [(DrainRes (items A), A\<lparr>items := []\<rparr>)]"
| "bq_outs OpDispose A = [(DisposeRes, A\<lparr>closed := True\<rparr>)]"
| "bq_outs OpSize A = [(SizeRes (length (items A)), A)]"
| "bq_outs OpCapacity A = [(CapacityRes (bound A), A)]"
| "bq_outs OpIsDisposed A = [(IsDisposedRes (closed A), A)]"

lemma bq_spec_outs: "bq_spec op r A = Some B \<Longrightarrow> (r, B) \<in> set (bq_outs op A)"
  by (cases op; cases r)
    (auto simp: push_spec_def pop_spec_def push_outs_def pop_outs_def split: sum.splits prod.splits list.splits if_splits)

text \<open>
  The operations for which the specification of the linked queue is as strong as the code: no
  timeout, no \<open>try_pop\<close>, no drain.
\<close>

fun plain_op :: "'a bq_op \<Rightarrow> bool" where
  "plain_op (OpPush x) = True"
| "plain_op OpPop = True"
| "plain_op OpDispose = True"
| "plain_op OpSize = True"
| "plain_op OpCapacity = True"
| "plain_op OpIsDisposed = True"
| "plain_op op = False"

text \<open>A push that meets a disposed linked queue with room may be accepted or refused.\<close>

fun lbq_outs :: "'a bq_op \<Rightarrow> 'a bq_abs \<Rightarrow> ('a bq_res \<times> 'a bq_abs) list" where
  "lbq_outs (OpPush x) A =
     (if has_room A then [(PushRes (Inr ()), A\<lparr>items := items A @ [x]\<rparr>)] else [])
     @ (if closed A then [(PushRes (Inl (ResourceUnavailable, x)), A)] else [])"
| "lbq_outs op A = bq_outs op A"

lemma lbq_spec_outs: "plain_op op \<Longrightarrow> lbq_spec op r A = Some B \<Longrightarrow> (r, B) \<in> set (lbq_outs op A)"
  by (cases op; cases r)
    (auto simp: lpush_spec_def lpop_spec_def pop_outs_def split: sum.splits prod.splits list.splits if_splits)

text \<open>A queue as it is created.\<close>

definition empty_queue :: "nat \<Rightarrow> 'a bq_abs" where
  "empty_queue c = \<lparr>items = [], closed = False, bound = ensure_capacity c\<rparr>"

definition abq_serving :: "('a bq_op, 'a abq, 'a abq_pc) sys \<Rightarrow> bool" where
  "abq_serving s \<longleftrightarrow> abq_covered s \<and> begun (\<lambda>p. p \<noteq> Idle) s"

lemma abq_serving_exec:
  fixes s :: "('a bq_op, 'a abq, 'a abq_pc) sys"
  shows "abq_serving s \<Longrightarrow> exec abq_machine l s = Some t \<Longrightarrow> abq_serving t"
  unfolding abq_serving_def
proof (elim conjE, intro conjI)
  assume "begun (\<lambda>p. p \<noteq> Idle) s" and "exec abq_machine l s = Some t"
  then show "begun (\<lambda>p. p \<noteq> Idle) t"
  proof (rule machine_rules.begun_exec [OF abq.machine_rules_axioms, rotated -2])
    fix op :: "'a bq_op" and i t nt and p p' :: "'a abq_pc" and q q' :: "'a abq"
    show "entry abq_machine op \<noteq> Idle" by (cases op) auto
    show "dozing abq_machine p \<noteq> None \<Longrightarrow> rouse abq_machine p \<noteq> Idle" by (auto elim!: abq_dozing.elims)
    assume "advance abq_machine i t q p = Some (q', p', nt)"
    then have "abq_advance i t q p = Some (q', p', nt)" by simp
    then show "p' \<noteq> Idle"
      by (cases rule: abq_step_cases; (elim abq_elims)?; auto simp: abq_defs split: if_splits list.splits)
  qed
qed (rule abq_covered_exec)

lemma abq_quiet_items:
  assumes "\<And>j. j < length (threads s) \<Longrightarrow>
    abq_resting (pc (threads s ! j)) \<or> abq_rightly_asleep (shared s) (pc (threads s ! j))"
  shows "items (abq_abs s) = buf (shared s)"
proof -
  have "abq_pending (shared s) (pc (threads s ! j)) = []" if "j < length (threads s)" for j
    using assms [OF that] by (auto simp: abq_rightly_asleep_def elim!: abq_resting.elims abq_dozing.elims)
  then show ?thesis by (auto simp: abq_abs_def abq_view_def abq_pendings_def in_set_conv_nth)
qed

lemma abq_stuck_waits:
  fixes s :: "('a bq_op, 'a abq, 'a abq_pc) sys"
  assumes live: "abq_serving s" and stuck: "\<And>i ks. exec abq_machine (Run i ks) s = None"
    and i: "i < length (threads s)" and op: "cur (threads s ! i) = Some op" and ret: "abq_ret (pc (threads s ! i)) = None"
  shows "abq_decided (shared s) (pc (threads s ! i)) = None \<and> (op_limit op = None \<longrightarrow> bq_outs op (abq_abs s) = [])"
proof -
  let ?p = "pc (threads s ! i)"
  have cov: "abq_covered s" and begun: "?p \<noteq> Idle"
    using live i op by (auto simp: abq_serving_def begun_def)
  then have inv: "abq_inv s" and all: "abq_live_inv s" by (auto simp: abq_covered_def abq_live_inv_def)
  have quiet: "abq_resting (pc (threads s ! j)) \<or> abq_rightly_asleep (shared s) (pc (threads s ! j))"
    if "j < length (threads s)" for j
    using abq_quiet_asleep [OF cov that] abq_stuck_threads [OF all stuck] by blast
  note items = abq_quiet_items [OF quiet]
  have point: "abq_point (shared s) ?p" and call: "abq_call i (now s) (shared s) (threads s ! i)"
    using inv i by (auto simp: abq_inv_def all_threads_def abq_safe_def)
  have "\<not> abq_resting ?p" using ret begun point by (auto elim!: abq_resting.elims)
  with quiet [OF i] have "abq_rightly_asleep (shared s) ?p" by simp
  then show ?thesis
    using call op items
    by (auto simp: abq_rightly_asleep_def abq_call_def pop_outs_def push_outs_def has_room_def is_full_def
        abq_abs_def abq_view_def elim!: abq_dozing.elims split: timing.splits)
qed

text \<open>The drop of an \<open>ArrayBQ\<close> disposes it; after that its fields are dropped, with them the buffer.\<close>

definition abq_fields :: "'a abq \<Rightarrow> 'a list option" where
  "abq_fields q = Some (buf q)"

definition array_drop :: "('a list \<Rightarrow> 'a prog) \<Rightarrow> 'a prog" where
  "array_drop k = Do OpDispose (\<lambda>_. Destroy k)"

interpretation abq_client: client_queue abq_machine abq_inv abq_decided abq_abs bq_spec abq_ret "\<lambda>_. True" bq_outs abq_serving
    abq_fields items
proof
  fix s t :: "('a bq_op, 'a abq, 'a abq_pc) sys" and l i op r A B and p :: "'a abq_pc"
  show "abq_serving s \<Longrightarrow> abq_inv s" by (auto simp: abq_serving_def abq_covered_def abq_live_inv_def)
  show "abq_serving s \<Longrightarrow> exec abq_machine l s = Some t \<Longrightarrow> abq_serving t" by (rule abq_serving_exec)
  show "abq_ret p = Some r \<Longrightarrow> resting abq_machine p" by (cases p) auto
  show "abq_ret (pc (threads s ! i)) = Some r \<Longrightarrow> abq_decided (shared s) (pc (threads s ! i)) = Some r"
    by (cases "pc (threads s ! i)") auto
  show "bq_spec op r A = Some B \<Longrightarrow> (r, B) \<in> set (bq_outs op A)" by (rule bq_spec_outs)
  show "abq_fields (shared s) = Some (items (abq_abs s))"
    if "\<And>i. i < length (threads s) \<Longrightarrow> resting abq_machine (pc (threads s ! i))"
    using abq_quiet_items [of s] that by (simp add: abq_fields_def)
qed (rule abq_stuck_waits)

section \<open>The linked queue\<close>

definition lbq_serving :: "nat \<Rightarrow> ('a bq_op, 'a lbq, 'a lbq_pc) sys \<Rightarrow> bool" where
  "lbq_serving c s \<longleftrightarrow> lbq_covered c s \<and> begun (\<lambda>p. p \<noteq> LIdle) s"

lemma lbq_serving_exec:
  fixes s :: "('a bq_op, 'a lbq, 'a lbq_pc) sys"
  shows "lbq_serving c s \<Longrightarrow> exec lbq_machine l s = Some t \<Longrightarrow> lbq_serving c t"
  unfolding lbq_serving_def
proof (elim conjE, intro conjI)
  assume "begun (\<lambda>p. p \<noteq> LIdle) s" and "exec lbq_machine l s = Some t"
  then show "begun (\<lambda>p. p \<noteq> LIdle) t"
  proof (rule machine_rules.begun_exec [OF lbq.machine_rules_axioms, rotated -2])
    fix op :: "'a bq_op" and i t nt and p p' :: "'a lbq_pc" and q q' :: "'a lbq"
    show "entry lbq_machine op \<noteq> LIdle" by (cases op) auto
    show "dozing lbq_machine p \<noteq> None \<Longrightarrow> rouse lbq_machine p \<noteq> LIdle" by (auto elim!: lbq_dozing.elims)
    assume "advance lbq_machine i t q p = Some (q', p', nt)"
    then have "lbq_advance i t q p = Some (q', p', nt)" by simp
    then show "p' \<noteq> LIdle"
      by (cases rule: lbq_step_cases; (elim lbq_elims)?; auto simp: lbq_defs split: if_splits list.splits option.splits sum.splits)
  qed
qed (rule lbq_covered_exec)

lemma lbq_stuck_waits:
  fixes s :: "('a bq_op, 'a lbq, 'a lbq_pc) sys"
  assumes live: "lbq_serving c s" and stuck: "\<And>i ks. exec lbq_machine (Run i ks) s = None"
    and i: "i < length (threads s)" and op: "cur (threads s ! i) = Some op" "plain_op op"
    and ret: "lbq_ret (pc (threads s ! i)) = None"
  shows "lbq_decided (pc (threads s ! i)) = None \<and> (op_limit op = None \<longrightarrow> lbq_outs op (lbq_abs s) = [])"
proof -
  let ?p = "pc (threads s ! i)"
  have cov: "lbq_covered c s" and begun: "?p \<noteq> LIdle"
    using live i op by (auto simp: lbq_serving_def begun_def)
  then have inv: "lbq_inv s" and all: "lbq_live_inv c s" by (auto simp: lbq_covered_def lbq_live_inv_def lbq_sized_def)
  have quiet: "lbq_resting (pc (threads s ! j)) \<or> lbq_rightly_asleep (shared s) (pc (threads s ! j))"
    if "j < length (threads s)" for j
    using lbq_quiet_asleep [OF cov that] lbq_stuck_threads [OF all stuck] by blast
  note items = lbq_size_items [OF inv]
  note at = lbq_inv_at [OF inv i]
  have "\<not> lbq_resting ?p" using ret begun at by (auto elim!: lbq_resting.elims)
  with quiet [OF i] have "lbq_rightly_asleep (shared s) ?p" by simp
  then show ?thesis
    using at(3) op items
    by (auto simp: lbq_rightly_asleep_def lbq_call_def pop_outs_def has_room_def lis_full_def lis_empty_def
        lbq_abs_def lbq_view_def elim!: lbq_dozing.elims split: timing.splits)
qed

lemma lbq_ret_decided:
  assumes inv: "lbq_inv s" and i: "i < length (threads s)" and op: "cur (threads s ! i) = Some op" "plain_op op"
    and ret: "lbq_ret (pc (threads s ! i)) = Some r"
  shows "lbq_decided (pc (threads s ! i)) = Some r"
proof -
  have p: "pc (threads s ! i) = LDone r" using ret by (cases "pc (threads s ! i)") auto
  with lbq_inv_at(3) [OF inv i] op(1) have "bq_answers op r" by (auto simp: lbq_call_def expired_def)
  with op(2) p show ?thesis by (cases op) auto
qed

text \<open>The drop of a \<open>LinkedBQ\<close> walks its list.\<close>

definition lbq_dropped :: "'a lbq \<Rightarrow> 'a list option" where
  "lbq_dropped q = map_option snd (lbq_drop q)"

interpretation lbq_client: client_queue lbq_machine lbq_inv "\<lambda>_. lbq_decided" lbq_abs lbq_spec lbq_ret plain_op lbq_outs
    "lbq_serving c" lbq_dropped items for c
proof
  fix s t :: "('a bq_op, 'a lbq, 'a lbq_pc) sys" and l i op r A B and p :: "'a lbq_pc"
  show inv: "lbq_serving c s \<Longrightarrow> lbq_inv s" by (auto simp: lbq_serving_def lbq_covered_def lbq_live_inv_def lbq_sized_def)
  show "lbq_serving c s \<Longrightarrow> exec lbq_machine l s = Some t \<Longrightarrow> lbq_serving c t" by (rule lbq_serving_exec)
  show "lbq_ret p = Some r \<Longrightarrow> resting lbq_machine p" by (cases p) auto
  show "plain_op op \<Longrightarrow> lbq_spec op r A = Some B \<Longrightarrow> (r, B) \<in> set (lbq_outs op A)" by (rule lbq_spec_outs)
  show "lbq_dropped (shared s) = Some (items (lbq_abs s))"
    if "lbq_serving c s" "\<And>i. i < length (threads s) \<Longrightarrow> resting lbq_machine (pc (threads s ! i))"
    using lbq_drop_quiescent [OF inv [OF that(1)]] that(2) by (simp add: lbq_dropped_def)
qed (rule lbq_ret_decided lbq_stuck_waits; assumption)+

section \<open>The linked queue with one thread\<close>

text \<open>
  \<open>lbq_spec\<close> lets a push that overlaps a disposal take effect after it. A thread that is alone
  with the queue never does: it is not between the test of the flag and its commit
  when the queue is disposed.
\<close>

definition lone :: "('a bq_op, 'a lbq, 'a lbq_pc) sys \<Rightarrow> bool" where
  "lone s \<longleftrightarrow> lbq_inv s \<and> length (threads s) = 1 \<and> \<not> (ldisposed (shared s) \<and> committing (pc (threads s ! 0)))"

definition lone_spec :: "'a bq_op \<Rightarrow> 'a bq_res \<Rightarrow> 'a bq_abs \<Rightarrow> 'a bq_abs option" where
  "lone_spec op r A = (if closed A \<and> pushed [EvLin 0 op r] \<noteq> [] then None else lbq_spec op r A)"

lemma lbq_seal_step:
  assumes "lbq_advance i t q p = Some (q', p', nt)" and "\<not> ldisposed q" and "ldisposed q'"
  shows "\<not> committing p'"
  using assms
  by (cases rule: lbq_step_cases; (elim lbq_elims)?; auto simp: lbq_defs split: if_splits sum.splits)

lemma not_committing [simp]: "\<not> committing (lbq_entry op)" "lbq_dozing p \<noteq> None \<Longrightarrow> \<not> committing (lbq_rouse p)"
  by (cases op, auto elim!: lbq_dozing.elims)

lemma lone_run:
  assumes s: "lone s" and ex: "exec lbq_machine (Run i ks) s = Some t"
  obtains q p nt where "i = 0" "lbq_advance 0 (now s) (shared s) (pc (threads s ! 0)) = Some (q, p, nt)"
    "shared t = q" "threads t ! 0 = (threads s ! 0)\<lparr>pc := p\<rparr>"
  using ex
proof (rule lbq.run_mover)
  fix q p nt
  assume "i < length (threads s)" "advance lbq_machine i (now s) (shared s) (pc (threads s ! i)) = Some (q, p, nt)"
    "shared t = q" "threads t ! i = (threads s ! i)\<lparr>pc := p\<rparr>"
  with s that show thesis by (auto simp: lone_def)
qed

lemma lone_exec:
  assumes s: "lone s" and ex: "exec lbq_machine l s = Some t"
  shows "lone t"
proof -
  have inv: "lbq_inv s" "lbq_inv t" using s lbq_inv_exec [OF _ ex] by (simp_all add: lone_def)
  have len: "length (threads s) = 1" "length (threads t) = 1" using s exec_length [OF ex] by (simp_all add: lone_def)
  have "\<not> (ldisposed (shared t) \<and> committing (pc (threads t ! 0)))"
  proof (cases l)
    case (Run i ks)
    with ex have "exec lbq_machine (Run i ks) s = Some t" by simp
    then obtain q p nt where adv: "lbq_advance 0 (now s) (shared s) (pc (threads s ! 0)) = Some (q, p, nt)"
      and t: "shared t = q" "threads t ! 0 = (threads s ! 0)\<lparr>pc := p\<rparr>"
      by (rule lone_run [OF s])
    then have "pc (threads s ! 0) \<noteq> LIdle" by auto
    with lbq_inv_at(3) [OF inv(1), of 0] len obtain op where "lbq_fits op (pc (threads s ! 0))" by (auto simp: lbq_call_def)
    with lbq_commit_step [OF adv] lbq_seal_step [OF adv] s t show ?thesis by (auto simp: lone_def)
  qed (use s ex len in \<open>auto simp: lone_def split: if_splits\<close>)
  with inv len show ?thesis by (simp add: lone_def)
qed

interpretation lone_lin: linearizable lbq_machine lone "\<lambda>_. lbq_decided" lbq_abs lone_spec
proof
  fix s t :: "('a bq_op, 'a lbq, 'a lbq_pc) sys" and op :: "'a bq_op" and p :: "'a lbq_pc" and i ks n l
  show "lone s \<Longrightarrow> exec lbq_machine l s = Some t \<Longrightarrow> lone t" by (rule lone_exec)
  show "lbq_decided (entry lbq_machine op) = None" by (rule lbq_lin.call_undecided)
  show "lone s \<Longrightarrow> exec lbq_machine (Call i op) s = Some t \<Longrightarrow> lbq_abs t = lbq_abs s"
    by (rule lbq_lin.call_abs) (simp add: lone_def)
  show "lone s \<Longrightarrow> exec lbq_machine (Spurious i) s = Some t \<Longrightarrow> lbq_abs t = lbq_abs s"
    by (rule lbq_lin.quiet_abs) (simp add: lone_def)
  show "lone s \<Longrightarrow> lbq_abs (s\<lparr>now := n\<rparr>) = lbq_abs s" by (rule lbq_lin.tick_abs) (simp add: lone_def)
  show "dozing lbq_machine p \<noteq> None \<Longrightarrow> lbq_decided (rouse lbq_machine p) = lbq_decided p"
    by (rule lbq_lin.rouse_undecided)
  assume s: "lone s" and ex: "exec lbq_machine (Run i ks) s = Some t"
  then obtain q p nt where adv: "lbq_advance 0 (now s) (shared s) (pc (threads s ! 0)) = Some (q, p, nt)" "i = 0"
    and t: "shared t = q" "threads t ! 0 = (threads s ! 0)\<lparr>pc := p\<rparr>"
    using lone_run by blast
  have inv: "lbq_inv s" and len: "length (threads s) = 1" using s by (simp_all add: lone_def)
  from adv have "pc (threads s ! 0) \<noteq> LIdle" by auto
  with lbq_inv_at(3) [OF inv, of 0] len obtain op where
    op: "cur (threads s ! 0) = Some op" "lbq_fits op (pc (threads s ! 0))" by (auto simp: lbq_call_def)
  have "pushed [EvLin 0 op r] = []"
    if "ldisposed (shared s)" "lbq_decided (pc (threads s ! 0)) = None" "lbq_decided p = Some r" for r
    using lbq_commit_step [OF adv(1) that(1) op(2)] that s by (auto simp: lone_def)
  with lbq_lin.step_self [OF inv ex] adv(2) t op(1)
  show "case lbq_decided (pc (threads s ! i)) of
      Some r \<Rightarrow> lbq_decided (pc (threads t ! i)) = Some r \<and> lbq_abs t = lbq_abs s
    | None \<Rightarrow>
        (case lbq_decided (pc (threads t ! i)) of
           None \<Rightarrow> lbq_abs t = lbq_abs s
         | Some r \<Rightarrow> \<exists>op. cur (threads s ! i) = Some op \<and> lone_spec op r (lbq_abs s) = Some (lbq_abs t))"
    by (auto simp: lone_spec_def lbq_abs_def lbq_view_def split: option.splits)
qed simp

lemma lone_spec_outs: "plain_op op \<Longrightarrow> lone_spec op r A = Some B \<Longrightarrow> (r, B) \<in> set (bq_outs op A)"
  by (cases op; cases r)
    (auto simp: lone_spec_def lpush_spec_def lpop_spec_def push_outs_def pop_outs_def split: sum.splits prod.splits list.splits if_splits)

interpretation lone_client: client_queue lbq_machine lone "\<lambda>_. lbq_decided" lbq_abs lone_spec lbq_ret plain_op bq_outs
    "\<lambda>s. lbq_serving c s \<and> lone s" lbq_dropped items for c
proof
  fix s t :: "('a bq_op, 'a lbq, 'a lbq_pc) sys" and l i op r A B and p :: "'a lbq_pc"
  show "lbq_ret p = Some r \<Longrightarrow> resting lbq_machine p" by (rule lbq_client.ret_resting)
  show "plain_op op \<Longrightarrow> lone_spec op r A = Some B \<Longrightarrow> (r, B) \<in> set (bq_outs op A)" by (rule lone_spec_outs)
  show "lbq_serving c s \<and> lone s \<Longrightarrow> exec lbq_machine l s = Some t \<Longrightarrow> lbq_serving c t \<and> lone t"
    using lbq_serving_exec lone_exec by blast
  show "lbq_decided (pc (threads s ! i)) = Some r"
    if "lone s" "i < length (threads s)" "cur (threads s ! i) = Some op" "plain_op op" "lbq_ret (pc (threads s ! i)) = Some r"
    using that by (intro lbq_ret_decided) (auto simp: lone_def)
  show "lbq_dropped (shared s) = Some (items (lbq_abs s))"
    if "lbq_serving c s \<and> lone s" "\<And>i. i < length (threads s) \<Longrightarrow> resting lbq_machine (pc (threads s ! i))"
    using that by (intro lbq_client.destroy_content [of c]) simp_all
  assume live: "lbq_serving c s \<and> lone s" "\<And>i ks. exec lbq_machine (Run i ks) s = None" "i < length (threads s)"
    "cur (threads s ! i) = Some op" "plain_op op" "lbq_ret (pc (threads s ! i)) = None"
  have "bq_outs op (lbq_abs s) = []" if "lbq_outs op (lbq_abs s) = []"
    using that by (cases op) (auto simp: push_outs_def split: if_splits)
  with lbq_stuck_waits [of c s i op] live
  show "lbq_decided (pc (threads s ! i)) = None \<and> (op_limit op = None \<longrightarrow> bq_outs op (lbq_abs s) = [])" by blast
qed simp

end
