(* ===== verification/StressTests.thy ===== *)
theory StressTests
  imports QueueClients
begin

text \<open>
  The stress tests of the queues: four producers and four consumers, tens of thousands of items,
  and two shared counters of what was consumed. They are too long to be searched, so an invariant
  shows that they are \<open>allowed\<close>, for any number of threads and of items.
\<close>

section \<open>The programs\<close>

text \<open>
  A consumer takes an item, adds it to \<open>sum\<close> (counter 0) and one to \<open>cnt\<close> (counter 1), and goes
  round; on an error for which it does not retry, it ends.
\<close>

datatype (discs_sels) consuming = Popping | Adding nat | Counting | Stopped

fun pop_outcome :: "(HioLastError \<Rightarrow> bool) \<Rightarrow> nat bq_res \<Rightarrow> consuming" where
  "pop_outcome retry (PopRes (Inr v)) = Adding v"
| "pop_outcome retry (PopRes (Inl e)) = (if retry e then Popping else Stopped)"
| "pop_outcome retry r = Stopped"

primcorec consumer :: "(HioLastError \<Rightarrow> bool) \<Rightarrow> nat bq_op \<Rightarrow> consuming \<Rightarrow> nat prog" where
  "consumer retry op ph =
     (case ph of
        Popping \<Rightarrow> Do op (\<lambda>r. consumer retry op (pop_outcome retry r))
      | Adding v \<Rightarrow> Add 0 v (consumer retry op Counting)
      | Counting \<Rightarrow> Add 1 1 (consumer retry op Popping)
      | Stopped \<Rightarrow> Halt None)"

text \<open>
  A producer pushes its items one after the other; \<open>call i x\<close> is the call of round \<open>i\<close>. A
  refused item comes back and is tried again, or the producer panics.
\<close>

datatype (discs_sels) producing = Pushing nat "nat list" | Panicking

fun push_outcome :: "(HioLastError \<Rightarrow> bool) \<Rightarrow> nat \<Rightarrow> nat list \<Rightarrow> nat bq_res \<Rightarrow> producing" where
  "push_outcome retry i rest (PushRes (Inr u)) = Pushing (i + 1) rest"
| "push_outcome retry i rest (PushRes (Inl (e, back))) = (if retry e then Pushing i (back # rest) else Panicking)"
| "push_outcome retry i rest r = Panicking"

primcorec producer :: "(HioLastError \<Rightarrow> bool) \<Rightarrow> (nat \<Rightarrow> nat \<Rightarrow> nat bq_op) \<Rightarrow> producing \<Rightarrow> nat prog" where
  "producer retry call ph =
     (case ph of
        Panicking \<Rightarrow> Fail
      | Pushing i xs \<Rightarrow>
          (case xs of
             [] \<Rightarrow> Halt None
           | x # rest \<Rightarrow> Do (call i x) (\<lambda>r. producer retry call (push_outcome retry i rest r))))"

definition starting :: "(nat \<times> nat prog) list \<Rightarrow> nat prog \<Rightarrow> nat prog" where
  "starting jobs p = foldr (\<lambda>(j, q). Start j q) jobs p"

definition joining :: "nat list \<Rightarrow> nat prog \<Rightarrow> nat prog" where
  "joining js p = foldr (\<lambda>j p. Join j (\<lambda>_. p)) js p"

definition counters_are :: "nat \<Rightarrow> nat \<Rightarrow> nat prog" where
  "counters_are cnt expected =
     Look 1 (\<lambda>n. if n = cnt then Look 0 (\<lambda>n. if n = expected then Halt None else Fail) else Fail)"

text \<open>
  The main thread: consumers and producers are started, the producers joined, the queue disposed,
  the consumers joined, the counters compared with the count and the sum of \<open>1..=TOTAL\<close>.
\<close>

definition stress :: "nat \<Rightarrow> nat prog list \<Rightarrow> nat prog list \<Rightarrow> nat prog" where
  "stress produced consumers producers =
     starting (enumerate 1 (consumers @ producers))
       (joining [1 + length consumers ..< 1 + length consumers + length producers]
         (Do OpDispose (\<lambda>_. joining [1..<1 + length consumers]
           (counters_are produced (produced * (produced + 1) div 2)))))"

text \<open>The values of producer \<open>p\<close>: \<open>p * PER_PRODUCER + i + 1\<close>.\<close>

definition values_of :: "nat \<Rightarrow> nat \<Rightarrow> nat list" where
  "values_of per_producer p = map (\<lambda>i. p * per_producer + i + 1) [0..<per_producer]"

definition mpmc_consumer :: "nat prog" where
  "mpmc_consumer = consumer (\<lambda>e. False) OpPop Popping"

definition mpmc_producer :: "nat \<Rightarrow> nat \<Rightarrow> nat prog" where
  "mpmc_producer per_producer p = producer (\<lambda>e. False) (\<lambda>i. OpPush) (Pushing 0 (values_of per_producer p))"

definition mpmc_no_loss_no_duplication :: "nat prog" where
  "mpmc_no_loss_no_duplication =
     stress (4 * 10000) (replicate 4 mpmc_consumer) (map (mpmc_producer 10000) [0..<4])"

text \<open>In the mixed test every consumer has its own call, and a producer takes turns.\<close>

definition mixed_consumer :: "nat \<Rightarrow> nat prog" where
  "mixed_consumer c =
     (if c mod 3 = 0 then consumer (\<lambda>e. False) OpPop Popping
      else if c mod 3 = 1 then consumer (\<lambda>e. e = WouldBlock) OpTryPop Popping
      else consumer (\<lambda>e. e = Timeout) (OpPopTimeout 5000000) Popping)"

definition mixed_call :: "nat \<Rightarrow> nat \<Rightarrow> nat bq_op" where
  "mixed_call i x =
     (if i mod 3 = 0 then OpPush x else if i mod 3 = 1 then OpTryPush x else OpPushTimeout x 5000000)"

definition mixed_producer :: "nat \<Rightarrow> nat \<Rightarrow> nat prog" where
  "mixed_producer per_producer p =
     producer (\<lambda>e. e = WouldBlock \<or> e = Timeout) mixed_call (Pushing 0 (values_of per_producer p))"

definition mixed_api_mpmc_no_loss_no_duplication :: "nat prog" where
  "mixed_api_mpmc_no_loss_no_duplication =
     stress (4 * 5000) (map mixed_consumer [0..<4]) (map (mixed_producer 5000) [0..<4])"

section \<open>Workers\<close>

text \<open>
  A worker of the test, with what it has left to do; the flag tells whether it has been
  started. A thread that has not been started is no program yet.
\<close>

datatype worker =
    Consumer bool "HioLastError \<Rightarrow> bool" "nat bq_op" consuming
  | Producer bool "HioLastError \<Rightarrow> bool" "nat \<Rightarrow> nat \<Rightarrow> nat bq_op" nat "nat list"

fun worker_prog :: "worker \<Rightarrow> nat prog" where
  "worker_prog (Consumer b retry op ph) = (if b then consumer retry op ph else Halt None)"
| "worker_prog (Producer b retry call i xs) = (if b then producer retry call (Pushing i xs) else Halt None)"

fun begin_work :: "worker \<Rightarrow> worker" where
  "begin_work (Consumer b retry op ph) = Consumer True retry op ph"
| "begin_work (Producer b retry call i xs) = Producer True retry call i xs"

fun at_work :: "worker \<Rightarrow> bool" where
  "at_work (Consumer b retry op ph) = b"
| "at_work (Producer b retry call i xs) = b"

fun produces :: "worker \<Rightarrow> bool" where
  "produces (Consumer b retry op ph) = False"
| "produces (Producer b retry call i xs) = True"

fun over :: "worker \<Rightarrow> bool" where
  "over (Consumer b retry op ph) = (ph = Stopped)"
| "over (Producer b retry call i xs) = (xs = [])"

text \<open>What a worker has in hand: how many items, and their sum.\<close>

fun to_count :: "worker \<Rightarrow> nat" where
  "to_count (Consumer b retry op (Adding v)) = 1"
| "to_count (Consumer b retry op Counting) = 1"
| "to_count (Consumer b retry op ph) = 0"
| "to_count (Producer b retry call i xs) = length xs"

fun to_sum :: "worker \<Rightarrow> nat" where
  "to_sum (Consumer b retry op (Adding v)) = v"
| "to_sum (Consumer b retry op ph) = 0"
| "to_sum (Producer b retry call i xs) = sum_list xs"

text \<open>The answers a worker can get.\<close>

definition pops_well ::
    "(nat bq_op \<Rightarrow> bool) \<Rightarrow> (nat bq_op \<Rightarrow> nat bq_abs \<Rightarrow> (nat bq_res \<times> nat bq_abs) list)
      \<Rightarrow> (HioLastError \<Rightarrow> bool) \<Rightarrow> nat bq_op \<Rightarrow> bool" where
  "pops_well safe outs retry op \<longleftrightarrow> safe op \<and>
     (\<forall>A :: nat bq_abs. (outs op A = [] \<longrightarrow> items A = [] \<and> \<not> closed A)
       \<and> (\<forall>(r, B) \<in> set (outs op A).
            (\<exists>v xs. items A = v # xs \<and> r = PopRes (Inr v) \<and> B = A\<lparr>items := xs\<rparr>)
            \<or> (\<exists>e. r = PopRes (Inl e) \<and> B = A \<and> (retry e \<or> closed A \<and> items A = []))))"

definition pushes_well ::
    "(nat bq_op \<Rightarrow> bool) \<Rightarrow> (nat bq_op \<Rightarrow> nat bq_abs \<Rightarrow> (nat bq_res \<times> nat bq_abs) list)
      \<Rightarrow> (HioLastError \<Rightarrow> bool) \<Rightarrow> (nat \<Rightarrow> nat \<Rightarrow> nat bq_op) \<Rightarrow> bool" where
  "pushes_well safe outs retry call \<longleftrightarrow> (\<forall>i x. safe (call i x) \<and>
     (\<forall>A :: nat bq_abs. \<not> closed A \<longrightarrow>
       (outs (call i x) A = [] \<longrightarrow> \<not> has_room A)
       \<and> (\<forall>(r, B) \<in> set (outs (call i x) A).
            r = PushRes (Inr ()) \<and> B = A\<lparr>items := items A @ [x]\<rparr>
            \<or> (\<exists>e. r = PushRes (Inl (e, x)) \<and> retry e \<and> B = A))))"

fun works_well :: "(nat bq_op \<Rightarrow> bool) \<Rightarrow> (nat bq_op \<Rightarrow> nat bq_abs \<Rightarrow> (nat bq_res \<times> nat bq_abs) list) \<Rightarrow> worker \<Rightarrow> bool" where
  "works_well safe outs (Consumer b retry op ph) = pops_well safe outs retry op"
| "works_well safe outs (Producer b retry call i xs) = pushes_well safe outs retry call"

lemma worker_prog_simps [simp]:
  "consumer retry op Popping = Do op (\<lambda>r. consumer retry op (pop_outcome retry r))"
  "consumer retry op (Adding v) = Add 0 v (consumer retry op Counting)"
  "consumer retry op Counting = Add 1 1 (consumer retry op Popping)"
  "consumer retry op Stopped = Halt None"
  "producer retry call Panicking = Fail"
  "producer retry call (Pushing i []) = Halt None"
  "producer retry call (Pushing i (x # xs)) = Do (call i x) (\<lambda>r. producer retry call (push_outcome retry i xs r))"
  by (subst consumer.code producer.code, simp)+

section \<open>The invariant\<close>

text \<open>\<open>C\<close> consumers, then \<open>P\<close> producers.\<close>

definition crowd ::
    "(nat bq_op \<Rightarrow> bool) \<Rightarrow> (nat bq_op \<Rightarrow> nat bq_abs \<Rightarrow> (nat bq_res \<times> nat bq_abs) list)
      \<Rightarrow> nat \<Rightarrow> nat \<Rightarrow> worker list \<Rightarrow> bool" where
  "crowd safe outs C P ws \<longleftrightarrow> length ws = C + P \<and> (\<forall>j < C + P. works_well safe outs (ws ! j) \<and> (produces (ws ! j) \<longleftrightarrow> C \<le> j))"

text \<open>What is counted and summed, in hand, queued, or still to be pushed.\<close>

definition accounted :: "nat \<Rightarrow> nat \<Rightarrow> worker list \<Rightarrow> nat list \<Rightarrow> cells \<Rightarrow> bool" where
  "accounted N S ws xs m \<longleftrightarrow> m 1 + tally to_count ws + length xs = N \<and> m 0 + tally to_sum ws + sum_list xs = S"

definition collecting :: "nat \<Rightarrow> nat \<Rightarrow> nat \<Rightarrow> nat \<Rightarrow> nat prog" where
  "collecting C N S n = joining [Suc n..<Suc C] (counters_are N S)"

definition closing :: "nat \<Rightarrow> nat \<Rightarrow> nat \<Rightarrow> nat \<Rightarrow> nat \<Rightarrow> nat prog" where
  "closing C P N S n = joining [Suc (C + n)..<Suc (C + P)] (Do OpDispose (\<lambda>_. collecting C N S 0))"

lemma closing_simps:
  "n < P \<Longrightarrow> closing C P N S n = Join (Suc (C + n)) (\<lambda>_. closing C P N S (Suc n))"
  "closing C P N S P = Do OpDispose (\<lambda>_. collecting C N S 0)"
  by (simp_all add: closing_def joining_def upt_conv_Cons del: upt_Suc)

lemma collecting_simps:
  "n < C \<Longrightarrow> collecting C N S n = Join (Suc n) (\<lambda>_. collecting C N S (Suc n))"
  "collecting C N S C = counters_are N S"
  by (simp_all add: collecting_def joining_def upt_conv_Cons del: upt_Suc)

definition spawning :: "nat \<Rightarrow> nat \<Rightarrow> nat \<Rightarrow> nat \<Rightarrow> worker list \<Rightarrow> nat \<Rightarrow> nat prog" where
  "spawning C P N S ws n =
     starting (map (\<lambda>j. (Suc j, worker_prog (begin_work (ws ! j)))) [n..<C + P]) (closing C P N S 0)"

text \<open>Where the main thread is; the flag says whether the queue has been disposed.\<close>

inductive stage :: "nat \<Rightarrow> nat \<Rightarrow> nat \<Rightarrow> nat \<Rightarrow> nat prog \<Rightarrow> worker list \<Rightarrow> bool \<Rightarrow> bool" for C P N S where
  spawns: "n < C + P \<Longrightarrow> (\<And>j. j < C + P \<Longrightarrow> at_work (ws ! j) \<longleftrightarrow> j < n) \<Longrightarrow>
    stage C P N S (spawning C P N S ws n) ws False"
| closes: "n \<le> P \<Longrightarrow> (\<And>j. j < C + P \<Longrightarrow> at_work (ws ! j)) \<Longrightarrow> (\<And>j. j < n \<Longrightarrow> over (ws ! (C + j))) \<Longrightarrow>
    stage C P N S (closing C P N S n) ws False"
| collects: "n \<le> C \<Longrightarrow> (\<And>j. j < C + P \<Longrightarrow> at_work (ws ! j)) \<Longrightarrow>
    (\<And>j. j < C + P \<Longrightarrow> C \<le> j \<or> j < n \<Longrightarrow> over (ws ! j)) \<Longrightarrow> stage C P N S (collecting C N S n) ws True"
| sums: "(\<And>j. j < C + P \<Longrightarrow> at_work (ws ! j) \<and> over (ws ! j)) \<Longrightarrow>
    stage C P N S (Look 0 (\<lambda>n. if n = S then Halt None else Fail)) ws True"
| ends: "(\<And>j. j < C + P \<Longrightarrow> at_work (ws ! j) \<and> over (ws ! j)) \<Longrightarrow> stage C P N S (Halt None) ws True"

definition stress_inv ::
    "(nat bq_op \<Rightarrow> bool) \<Rightarrow> (nat bq_op \<Rightarrow> nat bq_abs \<Rightarrow> (nat bq_res \<times> nat bq_abs) list)
      \<Rightarrow> nat \<Rightarrow> nat \<Rightarrow> nat \<Rightarrow> nat \<Rightarrow> nat prog list \<Rightarrow> nat bq_abs \<Rightarrow> cells \<Rightarrow> bool" where
  "stress_inv safe outs C P N S ps A m \<longleftrightarrow> (\<exists>main ws. ps = main # map worker_prog ws \<and> crowd safe outs C P ws
     \<and> stage C P N S main ws (closed A) \<and> accounted N S ws (items A) m \<and> 0 < bound A
     \<and> (\<forall>w \<in> set ws. \<not> produces w \<longrightarrow> over w \<longrightarrow> closed A \<and> items A = []))"

text \<open>A worker that moves.\<close>

lemma stage_update:
  assumes "stage C P N S main ws c" and "length ws = C + P" and "j < C + P" and "at_work (ws ! j)" and "\<not> over (ws ! j)"
    and "at_work w"
  shows "stage C P N S main (ws[j := w]) c"
  using assms(1)
proof cases
  case (spawns n)
  with assms(2-4) have j: "j < n" by simp
  then have "spawning C P N S (ws[j := w]) n = spawning C P N S ws n"
    by (auto simp: spawning_def intro!: arg_cong2 [of _ _ _ _ starting])
  moreover have "at_work (ws[j := w] ! k) \<longleftrightarrow> k < n" if "k < C + P" for k
    using spawns(4) that assms(2,6) j by (cases "k = j") auto
  ultimately show ?thesis using stage.spawns [of n C P "ws[j := w]" N S] spawns(1-3) by simp
next
  case (closes n)
  have "over (ws[j := w] ! (C + k))" if "k < n" for k
    using closes(5) [OF that] assms(5) by (cases "C + k = j") auto
  moreover have "at_work (ws[j := w] ! k)" if "k < C + P" for k
    using closes(4) that assms(2,6) by (cases "k = j") auto
  ultimately show ?thesis unfolding closes(1,2) using closes(3) by (intro stage.closes)
next
  case (collects n)
  have "over (ws[j := w] ! k)" if "k < C + P" "C \<le> k \<or> k < n" for k
    using collects(5) [OF that] assms(5) by (cases "k = j") auto
  moreover have "at_work (ws[j := w] ! k)" if "k < C + P" for k
    using collects(4) that assms(2,6) by (cases "k = j") auto
  ultimately show ?thesis unfolding collects(1,2) using collects(3) by (intro stage.collects)
qed (use assms in auto)

lemma crowd_update:
  assumes "crowd safe outs C P ws" and "produces w = produces (ws ! j)" and "works_well safe outs w"
  shows "crowd safe outs C P (ws[j := w])"
proof -
  have "works_well safe outs (ws[j := w] ! k) \<and> (produces (ws[j := w] ! k) \<longleftrightarrow> C \<le> k)" if "k < C + P" for k
    using assms that by (cases "k = j") (auto simp: crowd_def)
  with assms(1) show ?thesis by (simp add: crowd_def)
qed

lemma stress_worker:
  assumes "crowd safe outs C P ws" and "stage C P N S main ws (closed A)" and "0 < bound A"
    and "\<forall>w \<in> set ws. \<not> produces w \<longrightarrow> over w \<longrightarrow> closed A \<and> items A = []"
    and j: "j < C + P" "at_work (ws ! j)" "\<not> over (ws ! j)"
    and w: "at_work w" "produces w = produces (ws ! j)" "works_well safe outs w"
    and acc: "accounted N S (ws[j := w]) (items B) m"
    and B: "closed B = closed A" "bound B = bound A" "closed A \<Longrightarrow> items A = [] \<Longrightarrow> items B = []"
      "\<not> produces w \<Longrightarrow> over w \<Longrightarrow> closed A \<and> items B = []"
  shows "stress_inv safe outs C P N S ((main # map worker_prog ws)[Suc j := worker_prog w]) B m"
proof -
  have len: "length ws = C + P" using assms(1) by (simp add: crowd_def)
  have "crowd safe outs C P (ws[j := w])" using crowd_update [OF assms(1) w(2,3)] .
  moreover have "stage C P N S main (ws[j := w]) (closed B)"
    using stage_update [OF assms(2) len j w(1)] B(1) by simp
  moreover have "closed B \<and> items B = []" if "v \<in> set (ws[j := w])" "\<not> produces v" "over v" for v
  proof (cases "v = w")
    case False
    with that(1) have "v \<in> set ws" using set_update_subset_insert [of ws j w] by blast
    with that(2,3) assms(4) B(1,3) show ?thesis by blast
  qed (use that B(1,4) in simp)
  ultimately show ?thesis
    unfolding stress_inv_def using acc B(2) assms(3)
    by (intro exI [of _ main] exI [of _ "ws[j := w]"]) (simp add: map_update)
qed

lemma accounted_update:
  assumes "accounted N S ws xs m" and "j < length ws"
    and "m' 1 + to_count w + length ys = m 1 + to_count (ws ! j) + length xs"
    and "m' 0 + to_sum w + sum_list ys = m 0 + to_sum (ws ! j) + sum_list xs"
  shows "accounted N S (ws[j := w]) ys m'"
  using assms tally_update [OF assms(2), of to_count w] tally_update [OF assms(2), of to_sum w]
  by (simp add: accounted_def)

text \<open>One step of a worker.\<close>

lemma stress_consumer:
  assumes ps: "ps = main # map worker_prog ws" and inv: "crowd safe outs C P ws" "stage C P N S main ws (closed A)"
    "accounted N S ws (items A) m" "0 < bound A" "\<forall>w \<in> set ws. \<not> produces w \<longrightarrow> over w \<longrightarrow> closed A \<and> items A = []"
    and w: "j < C + P" "ws ! j = Consumer True retry op ph" and small: "N < usize_mod" "S < usize_mod"
  shows "case worker_prog (ws ! j) of
      Halt v \<Rightarrow> True
    | Do op k \<Rightarrow> safe op \<and> (\<forall>(r, B) \<in> set (outs op A). stress_inv safe outs C P N S (ps[Suc j := k r]) B m)
    | Add c v p \<Rightarrow> stress_inv safe outs C P N S (ps[Suc j := p]) A (fetch_add c v m)
    | _ \<Rightarrow> False"
proof -
  have len: "length ws = C + P" and well: "pops_well safe outs retry op" using inv(1) w by (auto simp: crowd_def)
  have move: "stress_inv safe outs C P N S (ps[Suc j := consumer retry op ph']) B m'"
    if "ph \<noteq> Stopped" "closed B = closed A" "bound B = bound A" "closed A \<Longrightarrow> items A = [] \<Longrightarrow> items B = []"
      "ph' = Stopped \<Longrightarrow> closed A \<and> items B = []"
      "m' 1 + to_count (Consumer True retry op ph') + length (items B) = m 1 + to_count (ws ! j) + length (items A)"
      "m' 0 + to_sum (Consumer True retry op ph') + sum_list (items B) = m 0 + to_sum (ws ! j) + sum_list (items A)"
    for ph' B m'
  proof -
    have "accounted N S (ws[j := Consumer True retry op ph']) (items B) m'"
      using w(1) len that(6,7) by (intro accounted_update [OF inv(3)]) simp_all
    then show ?thesis
      using stress_worker [OF inv(1,2,4,5) w(1), where w = "Consumer True retry op ph'" and B = B and m = m'] w(2) that(1-5) well ps by simp
  qed
  have "to_count (ws ! j) \<le> tally to_count ws" "to_sum (ws ! j) \<le> tally to_sum ws"
    using tally_member [of j ws] w(1) len by simp_all
  then have room: "m 1 + to_count (ws ! j) < usize_mod" "m 0 + to_sum (ws ! j) < usize_mod"
    using inv(3) small by (simp_all add: accounted_def)
  show ?thesis
  proof (cases ph)
    case Popping
    have "stress_inv safe outs C P N S (ps[Suc j := consumer retry op (pop_outcome retry r)]) B m" if "(r, B) \<in> set (outs op A)" for r B
    proof -
      from well that consider (item) v xs where "items A = v # xs" "r = PopRes (Inr v)" "B = A\<lparr>items := xs\<rparr>"
        | (err) e where "r = PopRes (Inl e)" "B = A" "retry e \<or> closed A \<and> items A = []"
        unfolding pops_well_def by blast
      then show ?thesis
      proof cases
        case item
        then show ?thesis using Popping w(2) by (intro move) simp_all
      next
        case err
        then show ?thesis using Popping w(2) by (intro move) (auto split: if_splits)
      qed
    qed
    with well w(2) Popping show ?thesis by (auto simp: pops_well_def)
  next
    case (Adding v)
    with room(2) w(2) move [of A Counting "fetch_add 0 v m"] show ?thesis by (simp add: fetch_add_def)
  next
    case Counting
    with room(1) w(2) move [of A Popping "fetch_add 1 1 m"] show ?thesis by (simp add: fetch_add_def)
  qed (simp add: w(2))
qed

lemma stress_producer:
  assumes ps: "ps = main # map worker_prog ws" and inv: "crowd safe outs C P ws" "stage C P N S main ws (closed A)"
    "accounted N S ws (items A) m" "0 < bound A" "\<forall>w \<in> set ws. \<not> produces w \<longrightarrow> over w \<longrightarrow> closed A \<and> items A = []"
    and w: "j < C + P" "ws ! j = Producer True retry call i (x # xs)"
  shows "safe (call i x) \<and> (\<forall>(r, B) \<in> set (outs (call i x) A).
    stress_inv safe outs C P N S (ps[Suc j := producer retry call (push_outcome retry i xs r)]) B m)"
proof -
  have len: "length ws = C + P" and well: "pushes_well safe outs retry call" and "C \<le> j"
    using inv(1) w by (auto simp: crowd_def)
  have "\<not> closed A" using inv(2)
  proof cases
    case (collects n)
    with collects(5) [of j] w \<open>C \<le> j\<close> show ?thesis by simp
  next
    case sums
    from sums(3) [of j] w show ?thesis by simp
  next
    case ends
    from ends(3) [of j] w show ?thesis by simp
  qed simp_all
  have move: "stress_inv safe outs C P N S (ps[Suc j := producer retry call (Pushing i' xs')]) B m"
    if "closed B = closed A" "bound B = bound A" "length xs' + length (items B) = Suc (length xs) + length (items A)"
      "sum_list xs' + sum_list (items B) = x + sum_list xs + sum_list (items A)" for i' xs' B
  proof -
    have "accounted N S (ws[j := Producer True retry call i' xs']) (items B) m"
      using w len that(3,4) by (intro accounted_update [OF inv(3)]) simp_all
    then show ?thesis
      using stress_worker [OF inv(1,2,4,5) w(1), where w = "Producer True retry call i' xs'" and B = B and m = m]
        w(2) that(1,2) well ps \<open>\<not> closed A\<close> by simp
  qed
  have "stress_inv safe outs C P N S (ps[Suc j := producer retry call (push_outcome retry i xs r)]) B m"
    if "(r, B) \<in> set (outs (call i x) A)" for r B
  proof -
    from well that \<open>\<not> closed A\<close> consider (in_queue) "r = PushRes (Inr ())" "B = A\<lparr>items := items A @ [x]\<rparr>"
      | (again) e where "r = PushRes (Inl (e, x))" "retry e" "B = A"
      unfolding pushes_well_def by blast
    then show ?thesis
    proof cases
      case in_queue
      then show ?thesis using move [of B xs "i + 1"] by simp
    next
      case again
      then show ?thesis using move [of B "x # xs" i] by simp
    qed
  qed
  with well show ?thesis by (auto simp: pushes_well_def)
qed

text \<open>One step of the main thread.\<close>

lemma begin_work_simps [simp]:
  "at_work (begin_work w)" "produces (begin_work w) = produces w" "over (begin_work w) = over w"
  "to_count (begin_work w) = to_count w" "to_sum (begin_work w) = to_sum w"
  "works_well safe outs (begin_work w) = works_well safe outs w"
  by (cases w; cases "(case w of Consumer b retry op ph \<Rightarrow> ph | _ \<Rightarrow> Stopped)"; simp)+

lemma resting_prog: "\<not> at_work w \<Longrightarrow> worker_prog w = Halt None"
  by (cases w) simp_all

lemma over_prog: "over w \<Longrightarrow> worker_prog w = Halt None"
  by (cases w) simp_all

lemma halted_over: "at_work w \<Longrightarrow> worker_prog w = Halt v \<Longrightarrow> over w"
proof (cases w)
  case (Consumer b retry op ph)
  then show "at_work w \<Longrightarrow> worker_prog w = Halt v \<Longrightarrow> over w" by (cases ph) auto
next
  case (Producer b retry call i xs)
  then show "at_work w \<Longrightarrow> worker_prog w = Halt v \<Longrightarrow> over w" by (cases xs) auto
qed

lemma empty_handed:
  assumes "\<And>j. j < length ws \<Longrightarrow> over (ws ! j)"
  shows "tally to_count ws = 0 \<and> tally to_sum ws = 0"
proof -
  have "to_count (ws ! j) = 0 \<and> to_sum (ws ! j) = 0" if "j < length ws" for j
    using assms [OF that] by (cases "ws ! j") auto
  then show ?thesis using tally_pos_nth [of to_count ws] tally_pos_nth [of to_sum ws] by fastforce
qed

lemma stress_spawn:
  assumes ps: "ps = spawning C P N S ws n # map worker_prog ws" and inv: "crowd safe outs C P ws"
    "accounted N S ws (items A) m" "0 < bound A" "\<forall>w \<in> set ws. \<not> produces w \<longrightarrow> over w \<longrightarrow> closed A \<and> items A = []"
    and n: "n < C + P" "\<And>j. j < C + P \<Longrightarrow> at_work (ws ! j) \<longleftrightarrow> j < n" and opened: "\<not> closed A"
  obtains q where "ps ! 0 = Start (Suc n) (worker_prog (begin_work (ws ! n))) q"
    "stress_inv safe outs C P N S (ps[Suc n := worker_prog (begin_work (ws ! n)), 0 := q]) A m"
proof -
  let ?ws = "ws[n := begin_work (ws ! n)]" and ?job = "\<lambda>ws j. (Suc j, worker_prog (begin_work (ws ! j)))"
  let ?q = "starting (map (?job ws) [Suc n..<C + P]) (closing C P N S 0)"
  have len: "length ws = C + P" using inv(1) by (simp add: crowd_def)
  have work: "at_work (?ws ! j) \<longleftrightarrow> j < Suc n" if "j < C + P" for j
    using n(2) [OF that] len that by (cases "j = n") auto
  have same: "map (?job ?ws) [Suc n..<C + P] = map (?job ws) [Suc n..<C + P]" by simp
  have "stage C P N S ?q ?ws False"
  proof (cases "Suc n < C + P")
    case True
    from stage.spawns [OF this work] same show ?thesis by (simp add: spawning_def)
  next
    case False
    then have "?q = closing C P N S 0" by (simp add: starting_def)
    moreover have "at_work (?ws ! j)" if "j < C + P" for j using work [OF that] that False by simp
    ultimately show ?thesis using stage.closes [of 0 P C ?ws N S] by simp
  qed
  moreover have "accounted N S ?ws (items A) m" using n(1) len by (intro accounted_update [OF inv(2)]) simp_all
  moreover have "crowd safe outs C P ?ws"
    using inv(1) n(1) by (intro crowd_update) (simp_all add: crowd_def)
  moreover have "\<not> over w" if "w \<in> set ?ws" "\<not> produces w" for w
  proof -
    from that(1) consider "w \<in> set ws" | "w = begin_work (ws ! n)" using set_update_subset_insert [of ws n] by blast
    then show ?thesis using inv(4) opened that(2) n(1) len by cases auto
  qed
  ultimately have "stress_inv safe outs C P N S (?q # map worker_prog ?ws) A m"
    unfolding stress_inv_def using inv(3) opened by (intro exI [of _ ?q] exI [of _ ?ws]) auto
  moreover have "spawning C P N S ws n = Start (Suc n) (worker_prog (begin_work (ws ! n))) ?q"
    using n(1) by (simp add: spawning_def starting_def upt_conv_Cons)
  ultimately show thesis using that [of ?q] ps by (simp add: map_update)
qed

lemma stress_main:
  assumes ps: "ps = main # map worker_prog ws" and inv: "crowd safe outs C P ws" "stage C P N S main ws (closed A)"
    "accounted N S ws (items A) m" "0 < bound A" "\<forall>w \<in> set ws. \<not> produces w \<longrightarrow> over w \<longrightarrow> closed A \<and> items A = []"
    and dispose: "safe OpDispose" "outs OpDispose A = [(DisposeRes, A\<lparr>closed := True\<rparr>)]" and C: "0 < C"
  shows "case main of
      Halt v \<Rightarrow> True
    | Do op k \<Rightarrow> safe op \<and> (\<forall>(r, B) \<in> set (outs op A). stress_inv safe outs C P N S (ps[0 := k r]) B m)
    | Start j p q \<Rightarrow> j < length ps \<and> j \<noteq> 0 \<and> halted (ps ! j) \<and> stress_inv safe outs C P N S (ps[j := p, 0 := q]) A m
    | Join j k \<Rightarrow> j < length ps \<and> (\<forall>v. ps ! j = Halt v \<longrightarrow> stress_inv safe outs C P N S (ps[0 := k v]) A m)
    | Look c k \<Rightarrow> stress_inv safe outs C P N S (ps[0 := k (m c)]) A m
    | _ \<Rightarrow> False"
proof -
  have len: "length ws = C + P" using inv(1) by (simp add: crowd_def)
  have go: "stress_inv safe outs C P N S (ps[0 := p]) B m"
    if "stage C P N S p ws (closed B)" "items B = items A" "bound B = bound A" "closed A \<longrightarrow> closed B" for p B
    unfolding stress_inv_def using that inv ps by (intro exI [of _ p] exI [of _ ws]) auto
  from inv(2) show ?thesis
  proof cases
    case (spawns n)
    have "halted (ps ! Suc n)" using resting_prog [of "ws ! n"] spawns ps len by simp
    moreover obtain q where "main = Start (Suc n) (worker_prog (begin_work (ws ! n))) q"
      "stress_inv safe outs C P N S (ps[Suc n := worker_prog (begin_work (ws ! n)), 0 := q]) A m"
      using stress_spawn [of ps C P N S ws n safe outs A m] ps spawns inv by auto
    ultimately show ?thesis using spawns(3) ps len by simp
  next
    case (closes n)
    show ?thesis
    proof (cases "n = P")
      case True
      then have main: "main = Do OpDispose (\<lambda>_. collecting C N S 0)" using closes(1) by (simp add: closing_simps)
      have "over (ws ! j)" if "j < C + P" "C \<le> j \<or> j < 0" for j using closes(5) [of "j - C"] that True by simp
      then have "stage C P N S (collecting C N S 0) ws True" using closes(4) by (intro stage.collects) simp_all
      then show ?thesis using main dispose go [of _ "A\<lparr>closed := True\<rparr>"] by simp
    next
      case False
      then have n: "n < P" using closes(3) by simp
      then have main: "main = Join (Suc (C + n)) (\<lambda>_. closing C P N S (Suc n))"
        using closes(1) by (simp add: closing_simps)
      have "stress_inv safe outs C P N S (ps[0 := closing C P N S (Suc n)]) A m" if "ps ! Suc (C + n) = Halt v" for v
      proof (rule go)
        have "over (ws ! (C + n))" using halted_over [of "ws ! (C + n)" v] closes(4) that n ps len by simp
        then have "over (ws ! (C + j))" if "j < Suc n" for j using closes(5) that by (cases "j = n") simp_all
        then show "stage C P N S (closing C P N S (Suc n)) ws (closed A)"
          unfolding closes(2) using n closes(4) by (intro stage.closes) simp_all
      qed simp_all
      then show ?thesis using main n ps len by simp
    qed
  next
    case (collects n)
    show ?thesis
    proof (cases "n = C")
      case True
      then have main: "main = counters_are N S" using collects(1) by (simp add: collecting_simps)
      have over: "over (ws ! j)" if "j < C + P" for j using collects(5) [OF that] True by (cases "C \<le> j") simp_all
      have "items A = []" using inv(1,5) over [of 0] C len by (auto simp: crowd_def)
      moreover have "tally to_count ws = 0" using empty_handed [of ws] over len by simp
      ultimately have "m 1 = N" using inv(3) by (simp add: accounted_def)
      moreover have "stress_inv safe outs C P N S (ps[0 := Look 0 (\<lambda>n. if n = S then Halt None else Fail)]) A m"
        unfolding collects(2) using over collects(2,4) by (intro go) (auto intro: stage.sums)
      ultimately show ?thesis using main by (simp add: counters_are_def)
    next
      case False
      then have n: "n < C" using collects(3) by simp
      then have main: "main = Join (Suc n) (\<lambda>_. collecting C N S (Suc n))"
        using collects(1) by (simp add: collecting_simps)
      have "stress_inv safe outs C P N S (ps[0 := collecting C N S (Suc n)]) A m" if "ps ! Suc n = Halt v" for v
      proof (rule go)
        have "over (ws ! n)" using halted_over [of "ws ! n" v] collects(4) that n ps len by simp
        then have "over (ws ! j)" if "j < C + P" "C \<le> j \<or> j < Suc n" for j
          using collects(5) that by (cases "j = n") auto
        then show "stage C P N S (collecting C N S (Suc n)) ws (closed A)"
          unfolding collects(2) using n collects(4) by (intro stage.collects) simp_all
      qed simp_all
      then show ?thesis using main n ps len by simp
    qed
  next
    case sums
    have "items A = []" using inv(1,5) sums(3) [of 0] C len by (auto simp: crowd_def)
    moreover have "tally to_sum ws = 0" using empty_handed [of ws] sums(3) len by simp
    ultimately have "m 0 = S" using inv(3) by (simp add: accounted_def)
    moreover have "stress_inv safe outs C P N S (ps[0 := Halt None]) A m"
      using sums by (intro go) (auto intro: stage.ends)
    ultimately show ?thesis using sums(1) by simp
  qed simp
qed

text \<open>No deadlock.\<close>

lemma stress_waiting:
  assumes ps: "ps = main # map worker_prog ws" and inv: "crowd safe outs C P ws" "stage C P N S main ws (closed A)"
    "0 < bound A" "\<forall>w \<in> set ws. \<not> produces w \<longrightarrow> over w \<longrightarrow> closed A \<and> items A = []"
    and dispose: "outs OpDispose A \<noteq> []" and C: "0 < C"
    and wait: "\<And>i. i < length ps \<Longrightarrow> waiting outs ps A (ps ! i)"
  shows "list_all halted ps"
proof -
  have len: "length ws = C + P" using inv(1) by (simp add: crowd_def)
  have main: "waiting outs ps A main" using wait [of 0] ps by simp
  have work: "waiting outs ps A (worker_prog (ws ! j))" if "j < C + P" for j using wait [of "Suc j"] that ps len by simp
  have popper: "items A = [] \<and> \<not> closed A" if j: "j < C" "at_work (ws ! j)" "\<not> over (ws ! j)" for j
  proof -
    have "\<not> produces (ws ! j)" using inv(1) j(1) by (simp add: crowd_def)
    then obtain b retry op ph where w: "ws ! j = Consumer b retry op ph" by (cases "ws ! j") simp_all
    have "works_well safe outs (ws ! j)" using inv(1) j(1) by (simp add: crowd_def)
    then have "pops_well safe outs retry op" using w by simp
    moreover have "ph = Popping" and "outs op A = []" using work [of j] w j by (cases ph; simp)+
    ultimately show ?thesis by (simp add: pops_well_def)
  qed
  from inv(2) show ?thesis
  proof cases
    case (spawns n)
    with main show ?thesis by (simp add: spawning_def starting_def upt_conv_Cons)
  next
    case (closes n)
    show ?thesis
    proof (cases "n = P")
      case True
      with main dispose closes(1) show ?thesis by (simp add: closing_simps)
    next
      case False
      then have n: "n < P" using closes(3) by simp
      then have "\<not> halted (worker_prog (ws ! (C + n)))"
        using main closes(1) ps len by (simp add: closing_simps)
      moreover have "produces (ws ! (C + n))" using inv(1) n by (simp add: crowd_def)
      then obtain b retry call i xs where w: "ws ! (C + n) = Producer b retry call i xs" by (cases "ws ! (C + n)") simp_all
      moreover have "b" using closes(4) [of "C + n"] n w by simp
      ultimately obtain x rest where xs: "xs = x # rest" by (cases xs) auto
      then have "outs (call i x) A = []" using work [of "C + n"] n w \<open>b\<close> by simp
      moreover have "works_well safe outs (ws ! (C + n))" using inv(1) n by (simp add: crowd_def)
      then have "pushes_well safe outs retry call" using w by simp
      ultimately have "\<not> has_room A" using closes(2) by (simp add: pushes_well_def)
      then have "items A \<noteq> []" using inv(3) by (auto simp: has_room_def)
      then have "\<not> over (ws ! 0)" using inv(1,4) C len by (auto simp: crowd_def)
      with popper [of 0] C closes(4) [of 0] \<open>items A \<noteq> []\<close> show ?thesis by simp
    qed
  next
    case (collects n)
    show ?thesis
    proof (cases "n = C")
      case True
      with main collects(1) show ?thesis by (simp add: collecting_simps counters_are_def)
    next
      case False
      then have n: "n < C" using collects(3) by simp
      then have "\<not> halted (worker_prog (ws ! n))"
        using main collects(1) ps len by (simp add: collecting_simps)
      then have "\<not> over (ws ! n)" using over_prog by auto
      with popper [of n] n collects(2,4) show ?thesis by simp
    qed
  next
    case sums
    with main show ?thesis by simp
  next
    case ends
    then have "halted (worker_prog (ws ! j))" if "j < C + P" for j using over_prog ends(3) [OF that] by simp
    then show ?thesis using ps ends(1) len by (auto simp: list_all_iff in_set_conv_nth)
  qed
qed

lemma stress_goes_on:
  assumes inv: "stress_inv safe outs C P N S ps A m"
    and dispose: "safe OpDispose" "\<And>A. outs OpDispose A = [(DisposeRes, A\<lparr>closed := True\<rparr>)]"
    and C: "0 < C" and small: "N < usize_mod" "S < usize_mod"
  shows "goes_on safe outs content (stress_inv safe outs C P N S) ps A m"
proof -
  from inv obtain main ws where ps: "ps = main # map worker_prog ws"
    and ws: "crowd safe outs C P ws" "stage C P N S main ws (closed A)" "accounted N S ws (items A) m" "0 < bound A"
      "\<forall>w \<in> set ws. \<not> produces w \<longrightarrow> over w \<longrightarrow> closed A \<and> items A = []"
    unfolding stress_inv_def by blast
  have len: "length ws = C + P" using ws(1) by (simp add: crowd_def)
  show ?thesis
  proof (rule goes_onI)
    fix i assume i: "i < length ps"
    let ?Q = "stress_inv safe outs C P N S"
    show "case ps ! i of
          Halt v \<Rightarrow> True
        | Fail \<Rightarrow> False
        | Do op k \<Rightarrow> safe op \<and> (\<forall>(r, B) \<in> set (outs op A). ?Q (ps[i := k r]) B m)
        | Await op k \<Rightarrow> False
        | Start j p q \<Rightarrow> j < length ps \<and> j \<noteq> i \<and> halted (ps ! j) \<and> ?Q (ps[j := p, i := q]) A m
        | Join j k \<Rightarrow> j < length ps \<and> (\<forall>v. ps ! j = Halt v \<longrightarrow> ?Q (ps[i := k v]) A m)
        | Unfinished j p \<Rightarrow> j < length ps \<and> \<not> halted (ps ! j) \<and> ?Q (ps[i := p]) A m
        | Add c v p \<Rightarrow> ?Q (ps[i := p]) A (fetch_add c v m)
        | Look c k \<Rightarrow> ?Q (ps[i := k (m c)]) A m
        | Destroy k \<Rightarrow> alone i ps \<and> ?Q (ps[i := k (content A)]) A m"
    proof (cases i)
      case 0
      with stress_main [OF ps ws dispose(1) dispose(2) C] ps show ?thesis by (auto split: prog.splits)
    next
      case (Suc j)
      then have j: "j < C + P" "ps ! i = worker_prog (ws ! j)" using i ps len by simp_all
      show ?thesis
      proof (cases "at_work (ws ! j)")
        case False
        with j(2) resting_prog show ?thesis by simp
      next
        case True
        show ?thesis
        proof (cases "ws ! j")
          case (Consumer b retry op ph)
          with True stress_consumer [OF ps ws j(1) _ small, of retry op ph] j(2) Suc show ?thesis by (auto split: prog.splits)
        next
          case (Producer b retry call k xs)
          show ?thesis
          proof (cases xs)
            case (Cons x rest)
            with True Producer stress_producer [OF ps ws j(1), of retry call k x rest] j(2) Suc show ?thesis by simp
          qed (use Producer True j(2) in simp)
        qed
      qed
    qed
  next
    assume "\<And>i. i < length ps \<Longrightarrow> waiting outs ps A (ps ! i)"
    with stress_waiting [OF ps ws(1,2,4,5) _ C] dispose(2) show "list_all halted ps" by simp
  qed
qed

text \<open>The test begins in the invariant.\<close>

fun before_work :: "worker \<Rightarrow> worker" where
  "before_work (Consumer b retry op ph) = Consumer False retry op ph"
| "before_work (Producer b retry call i xs) = Producer False retry call i xs"

lemma before_work_simps [simp]:
  "\<not> at_work (before_work w)" "worker_prog (before_work w) = Halt None" "produces (before_work w) = produces w"
  "over (before_work w) = over w" "to_count (before_work w) = to_count w" "to_sum (before_work w) = to_sum w"
  "works_well safe outs (before_work w) = works_well safe outs w" "at_work w \<Longrightarrow> begin_work (before_work w) = w"
  by (cases w; cases "(case w of Consumer b retry op ph \<Rightarrow> ph | _ \<Rightarrow> Stopped)"; simp)+

lemma tally_before_work [simp]:
  "tally to_count (map before_work ws) = tally to_count ws" "tally to_sum (map before_work ws) = tally to_sum ws"
  by (simp_all add: tally_def comp_def)

lemma stress_spawning:
  assumes "\<And>w. w \<in> set (cs @ ps) \<Longrightarrow> at_work w"
  shows "stress N (map worker_prog cs) (map worker_prog ps)
    = spawning (length cs) (length ps) N (N * (N + 1) div 2) (map before_work (cs @ ps)) 0"
proof -
  let ?ws = "map before_work (cs @ ps)" and ?n = "length cs + length ps"
  have "enumerate 1 (map worker_prog (cs @ ps)) = map (\<lambda>j. (Suc j, worker_prog (begin_work (?ws ! j)))) [0..<?n]"
    using assms by (intro nth_equalityI) (auto simp: nth_enumerate_eq nth_append)
  then show ?thesis by (simp add: stress_def spawning_def closing_def collecting_def)
qed

lemma stress_allowed:
  fixes cs ps :: "worker list"
  assumes ws: "\<And>w. w \<in> set (cs @ ps) \<Longrightarrow> works_well safe outs w \<and> at_work w \<and> \<not> (\<not> produces w \<and> over w)"
      "\<And>w. w \<in> set cs \<Longrightarrow> \<not> produces w \<and> to_count w = 0 \<and> to_sum w = 0" "\<And>w. w \<in> set ps \<Longrightarrow> produces w"
    and sums: "tally to_count ps = N" "tally to_sum ps = N * (N + 1) div 2"
    and small: "N < usize_mod" "N * (N + 1) div 2 < usize_mod"
    and dispose: "safe OpDispose" "\<And>A. outs OpDispose A = [(DisposeRes, A\<lparr>closed := True\<rparr>)]"
    and size: "cs \<noteq> []" "n = Suc (length cs + length ps)" "0 < c"
  shows "allowed safe outs content (launch n (stress N (map worker_prog cs) (map worker_prog ps))) (empty_queue c) zeros"
proof -
  let ?S = "N * (N + 1) div 2" and ?C = "length cs" and ?P = "length ps" and ?ws = "map before_work (cs @ ps)"
  have at: "?ws ! j = before_work ((cs @ ps) ! j)" "(cs @ ps) ! j \<in> set (cs @ ps)" if "j < ?C + ?P" for j
    using that by (simp_all only: nth_map nth_mem length_append)
  have start: "closed (empty_queue c) = False" "items (empty_queue c) = []" "0 < bound (empty_queue c)"
    by (simp_all add: empty_queue_def)
  have "crowd safe outs ?C ?P ?ws"
  proof -
    have "works_well safe outs (?ws ! j) \<and> (produces (?ws ! j) \<longleftrightarrow> ?C \<le> j)" if j: "j < ?C + ?P" for j
    proof -
      have "produces ((cs @ ps) ! j) \<longleftrightarrow> ?C \<le> j" using ws(2,3) j by (simp add: nth_append)
      with at [OF j] ws(1) show ?thesis by simp
    qed
    then show ?thesis by (simp add: crowd_def)
  qed
  moreover have "stage ?C ?P N ?S (spawning ?C ?P N ?S ?ws 0) ?ws (closed (empty_queue c))"
    unfolding start using size(1) at(1) by (intro stage.spawns) simp_all
  moreover have "accounted N ?S ?ws (items (empty_queue c)) zeros"
  proof -
    have "tally to_count cs = 0" "tally to_sum cs = 0" using ws(2) by (auto simp: tally_def)
    with sums show ?thesis unfolding start by (simp add: accounted_def zeros_def flip: map_append)
  qed
  moreover have "\<forall>w \<in> set ?ws. \<not> produces w \<longrightarrow> over w \<longrightarrow> closed (empty_queue c) \<and> items (empty_queue c) = []"
  proof
    fix w assume "w \<in> set ?ws"
    then obtain v where "v \<in> set (cs @ ps)" "w = before_work v" by (auto simp only: set_map)
    with ws(1) [of v] show "\<not> produces w \<longrightarrow> over w \<longrightarrow> closed (empty_queue c) \<and> items (empty_queue c) = []" by auto
  qed
  moreover have "launch n (stress N (map worker_prog cs) (map worker_prog ps))
      = spawning ?C ?P N ?S ?ws 0 # map worker_prog ?ws"
    using stress_spawning [of cs ps N] ws(1) size(2) by (simp add: launch_def comp_def map_replicate_const replicate_add)
  ultimately have "stress_inv safe outs ?C ?P N ?S (launch n (stress N (map worker_prog cs) (map worker_prog ps))) (empty_queue c) zeros"
    unfolding stress_inv_def by (intro exI [of _ "spawning ?C ?P N ?S ?ws 0"] exI [of _ ?ws] conjI) (assumption | rule start(3))+
  moreover have "goes_on safe outs content (stress_inv safe outs ?C ?P N ?S) ps A m"
    if "stress_inv safe outs ?C ?P N ?S ps A m" for ps A m
    using stress_goes_on [OF that dispose _ small] size(1) by simp
  ultimately show ?thesis using allowed_invariant [of "stress_inv safe outs ?C ?P N ?S"] by blast
qed

section \<open>The tests are allowed\<close>

lemma values_length: "length (values_of k p) = k"
  by (simp add: values_of_def)

lemma values_sum: "2 * sum_list (values_of k p) = k * (2 * p * k + k + 1)"
proof -
  have "2 * (\<Sum>i\<leftarrow>[0..<n]. p * k + i + 1) = n * (2 * p * k + n + 1)" for n
    by (induction n) (simp_all add: algebra_simps)
  then show ?thesis by (simp add: values_of_def)
qed

text \<open>Together the producers push \<open>1..=TOTAL\<close>.\<close>

lemma producers_sum:
  "tally to_count (map (\<lambda>p. Producer b retry call 0 (values_of k p)) [0..<n]) = n * k"
  "tally to_sum (map (\<lambda>p. Producer b retry call 0 (values_of k p)) [0..<n]) = n * k * (n * k + 1) div 2"
proof -
  show "tally to_count (map (\<lambda>p. Producer b retry call 0 (values_of k p)) [0..<n]) = n * k"
    by (induction n) (simp_all add: values_length)
  have "2 * tally to_sum (map (\<lambda>p. Producer b retry call 0 (values_of k p)) [0..<n]) = n * k * (n * k + 1)"
  proof (induction n)
    case (Suc n)
    then show ?case using values_sum [of k n] by (simp add: algebra_simps)
  qed simp
  then show "tally to_sum (map (\<lambda>p. Producer b retry call 0 (values_of k p)) [0..<n]) = n * k * (n * k + 1) div 2"
    by simp
qed

lemma mpmc_allowed:
  assumes "pops_well safe outs (\<lambda>e. False) OpPop" and "pushes_well safe outs (\<lambda>e. False) (\<lambda>i. OpPush)"
    and "safe OpDispose" and "\<And>A. outs OpDispose A = [(DisposeRes, A\<lparr>closed := True\<rparr>)]"
  shows "allowed safe outs content (launch 9 mpmc_no_loss_no_duplication) (empty_queue 64) zeros"
proof -
  let ?cs = "replicate 4 (Consumer True (\<lambda>e. False) OpPop Popping)"
  let ?ps = "map (\<lambda>p. Producer True (\<lambda>e. False) (\<lambda>i. OpPush) 0 (values_of 10000 p)) [0..<4]"
  have "mpmc_no_loss_no_duplication = stress (4 * 10000) (map worker_prog ?cs) (map worker_prog ?ps)"
    by (simp add: mpmc_no_loss_no_duplication_def mpmc_consumer_def mpmc_producer_def [abs_def] comp_def del: upt_rec_numeral)
  moreover have "allowed safe outs content (launch 9 (stress (4 * 10000) (map worker_prog ?cs) (map worker_prog ?ps))) (empty_queue 64) zeros"
    using assms by (intro stress_allowed producers_sum) (auto simp: usize_mod_def)
  ultimately show ?thesis by simp
qed

lemma mixed_allowed:
  assumes "pops_well safe outs (\<lambda>e. False) OpPop" and "pops_well safe outs (\<lambda>e. e = WouldBlock) OpTryPop"
    and "pops_well safe outs (\<lambda>e. e = Timeout) (OpPopTimeout 5000000)"
    and "pushes_well safe outs (\<lambda>e. e = WouldBlock \<or> e = Timeout) mixed_call"
    and "safe OpDispose" and "\<And>A. outs OpDispose A = [(DisposeRes, A\<lparr>closed := True\<rparr>)]"
  shows "allowed safe outs content (launch 9 mixed_api_mpmc_no_loss_no_duplication) (empty_queue 4) zeros"
proof -
  let ?c = "\<lambda>c. if c mod 3 = 0 then Consumer True (\<lambda>e. False) OpPop Popping
      else if c mod 3 = 1 then Consumer True (\<lambda>e. e = WouldBlock) OpTryPop Popping
      else Consumer True (\<lambda>e. e = Timeout) (OpPopTimeout 5000000) Popping"
  let ?cs = "map ?c [0..<4]"
  let ?ps = "map (\<lambda>p. Producer True (\<lambda>e. e = WouldBlock \<or> e = Timeout) mixed_call 0 (values_of 5000 p)) [0..<4]"
  have "worker_prog (?c c) = mixed_consumer c" for c by (simp add: mixed_consumer_def)
  then have "mixed_api_mpmc_no_loss_no_duplication = stress (4 * 5000) (map worker_prog ?cs) (map worker_prog ?ps)"
    by (simp add: mixed_api_mpmc_no_loss_no_duplication_def mixed_producer_def [abs_def] comp_def del: upt_rec_numeral)
  moreover have "allowed safe outs content (launch 9 (stress (4 * 5000) (map worker_prog ?cs) (map worker_prog ?ps))) (empty_queue 4) zeros"
    using assms by (intro stress_allowed producers_sum) (auto simp: usize_mod_def)
  ultimately show ?thesis by simp
qed

text \<open>Both queues answer the workers as they need.\<close>

lemma abq_works:
  "pops_well (\<lambda>_. True) bq_outs (\<lambda>e. False) OpPop" "pops_well (\<lambda>_. True) bq_outs (\<lambda>e. e = WouldBlock) OpTryPop"
  "pops_well (\<lambda>_. True) bq_outs (\<lambda>e. e = Timeout) (OpPopTimeout d)"
  "pushes_well (\<lambda>_. True) bq_outs (\<lambda>e. False) (\<lambda>i. OpPush)"
  "pushes_well (\<lambda>_. True) bq_outs (\<lambda>e. e = WouldBlock \<or> e = Timeout) mixed_call"
  by (auto simp: pops_well_def pushes_well_def pop_outs_def push_outs_def mixed_call_def split: list.splits)

lemma lbq_works:
  "pops_well plain_op lbq_outs (\<lambda>e. False) OpPop" "pushes_well plain_op lbq_outs (\<lambda>e. False) (\<lambda>i. OpPush)"
  by (auto simp: pops_well_def pushes_well_def pop_outs_def split: list.splits)

lemma array_mpmc_allowed:
  "allowed (\<lambda>_. True) bq_outs content (launch 9 mpmc_no_loss_no_duplication) (empty_queue 64) zeros"
  by (intro mpmc_allowed abq_works) simp_all

lemma array_mixed_allowed:
  "allowed (\<lambda>_. True) bq_outs content (launch 9 mixed_api_mpmc_no_loss_no_duplication) (empty_queue 4) zeros"
  by (intro mixed_allowed abq_works) simp_all

lemma linked_mpmc_allowed:
  "allowed plain_op lbq_outs content (launch 9 mpmc_no_loss_no_duplication) (empty_queue 64) zeros"
  by (intro mpmc_allowed lbq_works) simp_all

end
