(* ===== verification/QueueTests.thy ===== *)
theory QueueTests
  imports StressTests
begin

text \<open>
  The unit tests of the two queues (the modules \<open>tests\<close> of \<open>array_bq.rs\<close> and \<open>linked_bq.rs\<close>) as
  client programs, and that they pass under every schedule. A test of the repository runs under the
  schedules its sleeps happen to bring about; here a sleep orders nothing.

  Left out: the tests that compare elapsed time, and the one that rests on a deadline being far away,
  \<open>dispose_wakes_timeout_waiters_with_resource_unavailable\<close>.
\<close>

section \<open>The tests of the array queue\<close>

definition fifo_order_single_thread :: "nat prog" where
  "fifo_order_single_thread =
     pushes_ok [0..<4] (want OpSize (SizeRes 4) (pops_ok [0..<4] (want OpSize (SizeRes 0) (Halt None))))"

definition capacity_and_size :: "nat prog" where
  "capacity_and_size =
     want OpCapacity (CapacityRes 2) (want OpSize (SizeRes 0) (pushes_ok [1, 2] (want OpSize (SizeRes 2)
       (Do OpPop (\<lambda>r. case r of PopRes (Inr v) \<Rightarrow> want OpSize (SizeRes 1) (Halt None) | _ \<Rightarrow> Fail)))))"

definition push_blocks_when_full :: "nat prog" where
  "push_blocks_when_full =
     pushes_ok [10] (Start 1 (pushes_ok [20] (Halt None))
       (Unfinished 1 (pops_ok [10] (Join 1 (\<lambda>v. pops_ok [20] (Halt None))))))"

text \<open>\<open>pop_and_return\<close> is the closure \<open>move || q2.pop().unwrap()\<close>.\<close>

definition pop_and_return :: "nat prog" where
  "pop_and_return = Do OpPop (\<lambda>r. case r of PopRes (Inr v) \<Rightarrow> Halt (Some r) | _ \<Rightarrow> Fail)"

definition returns :: "nat bq_res \<Rightarrow> nat prog \<Rightarrow> nat bq_res option \<Rightarrow> nat prog" where
  "returns r p v = (if v = Some r then p else Fail)"

definition pop_blocks_when_empty :: "nat prog" where
  "pop_blocks_when_empty =
     Start 1 pop_and_return (pushes_ok [42] (Join 1 (returns (PopRes (Inr 42)) (Halt None))))"

definition dispose_drains_remaining_items :: "nat prog" where
  "dispose_drains_remaining_items =
     pushes_ok [1, 2, 3] (want OpDispose DisposeRes (want OpIsDisposed (IsDisposedRes True)
       (pops_ok [1, 2, 3] (want OpPop (PopRes (Inl ResourceUnavailable)) (Halt None)))))"

definition push_fails_after_dispose :: "nat prog" where
  "push_fails_after_dispose =
     want OpDispose DisposeRes (want (OpPush 1) (PushRes (Inl (ResourceUnavailable, 1))) (Halt None))"

definition dispose_wakes_blocked_pop :: "nat prog" where
  "dispose_wakes_blocked_pop =
     Start 1 (Do OpPop (\<lambda>r. Halt (Some r)))
       (want OpDispose DisposeRes (Join 1 (returns (PopRes (Inl ResourceUnavailable)) (Halt None))))"

definition dispose_wakes_blocked_push :: "nat prog" where
  "dispose_wakes_blocked_push =
     pushes_ok [1] (Start 1 (Do (OpPush 2) (\<lambda>r. Halt (Some r)))
       (want OpDispose DisposeRes (Join 1 (returns (PushRes (Inl (ResourceUnavailable, 2))) (Halt None)))))"

definition unbounded_never_blocks_push :: "nat prog" where
  "unbounded_never_blocks_push =
     pushes_ok [0..<1000] (want OpSize (SizeRes 1000) (pops_ok [0] (Halt None)))"

definition try_push_fails_when_full :: "nat prog" where
  "try_push_fails_when_full =
     pushes_ok [1] (want (OpTryPush 2) (PushRes (Inl (WouldBlock, 2))) (want OpSize (SizeRes 1) (Halt None)))"

definition try_pop_fails_when_empty :: "nat prog" where
  "try_pop_fails_when_empty =
     want OpTryPop (PopRes (Inl WouldBlock)) (pushes_ok [7] (want OpTryPop (PopRes (Inr 7))
       (want OpTryPop (PopRes (Inl WouldBlock)) (Halt None))))"

definition try_ops_report_resource_unavailable_after_dispose :: "nat prog" where
  "try_ops_report_resource_unavailable_after_dispose =
     want OpDispose DisposeRes (want (OpTryPush 1) (PushRes (Inl (ResourceUnavailable, 1)))
       (want OpTryPop (PopRes (Inl ResourceUnavailable)) (Halt None)))"

definition try_pop_drains_remaining_items_after_dispose :: "nat prog" where
  "try_pop_drains_remaining_items_after_dispose =
     pushes_ok [1, 2] (want OpDispose DisposeRes (want OpTryPop (PopRes (Inr 1)) (want OpTryPop (PopRes (Inr 2))
       (want OpTryPop (PopRes (Inl ResourceUnavailable)) (Halt None)))))"

definition try_push_wakes_blocked_pop :: "nat prog" where
  "try_push_wakes_blocked_pop =
     Start 1 pop_and_return
       (want (OpTryPush 42) (PushRes (Inr ())) (Join 1 (returns (PopRes (Inr 42)) (Halt None))))"

definition try_pop_wakes_blocked_push :: "nat prog" where
  "try_pop_wakes_blocked_push =
     pushes_ok [1] (Start 1 (Do (OpPush 2) (\<lambda>r. Halt (Some r)))
       (want OpTryPop (PopRes (Inr 1)) (Join 1 (returns (PushRes (Inr ())) (pops_ok [2] (Halt None))))))"

definition push_timeout_round :: "nat prog \<Rightarrow> nat prog" where
  "push_timeout_round p =
     want (OpPushTimeout 999 30000000) (PushRes (Inl (Timeout, 999)))
       (Do OpSize (\<lambda>r. case r of SizeRes n \<Rightarrow> if n \<le> 2 then p else Fail | _ \<Rightarrow> Fail))"

definition push_timeout_never_exceeds_capacity :: "nat prog" where
  "push_timeout_never_exceeds_capacity = pushes_ok [0..<2] ((push_timeout_round ^^ 3) (Halt None))"

definition waiter_accounting_survives_repeated_timeouts :: "nat prog" where
  "waiter_accounting_survives_repeated_timeouts =
     (want (OpPopTimeout 5000000) (PopRes (Inl Timeout)) ^^ 20)
       (Start 1 pop_and_return (pushes_ok [5] (Join 1 (returns (PopRes (Inr 5)) (Halt None)))))"

definition drain_collects_everything_in_fifo_order :: "nat prog" where
  "drain_collects_everything_in_fifo_order =
     pushes_ok [0..<5] (want OpDrain (DrainRes [0, 1, 2, 3, 4]) (want OpSize (SizeRes 0)
       (want OpDrain (DrainRes []) (Halt None))))"

definition blocked_producer :: "nat \<Rightarrow> nat prog" where
  "blocked_producer i = Do (OpPush (100 + i)) (\<lambda>r. Halt (Some r))"

definition join_producers :: "nat list \<Rightarrow> nat prog \<Rightarrow> nat prog" where
  "join_producers js p = foldr (\<lambda>j p. Join j (returns (PushRes (Inr ())) p)) js p"

definition drain_wakes_all_blocked_producers :: "nat prog" where
  "drain_wakes_all_blocked_producers =
     pushes_ok [0..<3]
       (Start 1 (blocked_producer 0) (Start 2 (blocked_producer 1) (Start 3 (blocked_producer 2)
         (Do OpDrain (\<lambda>r. case r of
            DrainRes xs \<Rightarrow>
              if length xs = 3 then join_producers [1, 2, 3] (want OpSize (SizeRes 3) (Halt None)) else Fail
          | _ \<Rightarrow> Fail)))))"

definition drain_collects_remainder_after_dispose :: "nat prog" where
  "drain_collects_remainder_after_dispose =
     pushes_ok [0..<4] (want OpDispose DisposeRes (pops_ok [0] (want OpDrain (DrainRes [1, 2, 3])
       (want OpPop (PopRes (Inl ResourceUnavailable)) (Halt None)))))"

definition drain_leaves_blocked_consumers_asleep :: "nat prog" where
  "drain_leaves_blocked_consumers_asleep =
     pushes_ok [1] (Start 1 (Do OpPop (\<lambda>r. Halt (Some r)))
       (Do OpDrain (\<lambda>r.
          if r = DrainRes [] then Join 1 (returns (PopRes (Inr 1)) (Halt None))
          else if r = DrainRes [1]
          then Unfinished 1 (pushes_ok [2] (Join 1 (returns (PopRes (Inr 2)) (Halt None))))
          else Fail)))"

section \<open>The tests that count drops\<close>

text \<open>
  A \<open>DropCounter\<close> is the number of its counter; its drop adds one to that. The drop of a queue
  is an argument of the tests that both queues have: \<open>array_drop\<close> or \<open>Destroy\<close>.
\<close>

definition drops :: "nat list \<Rightarrow> nat prog \<Rightarrow> nat prog" where
  "drops xs p = foldr (\<lambda>c. Add c 1) xs p"

definition counted :: "nat \<Rightarrow> nat prog \<Rightarrow> nat prog" where
  "counted n p = Look 0 (\<lambda>v. if v = n then p else Fail)"

definition pop_and_drop :: "nat prog \<Rightarrow> nat prog" where
  "pop_and_drop p = Do OpPop (\<lambda>r. case r of PopRes (Inr c) \<Rightarrow> drops [c] p | _ \<Rightarrow> Fail)"

definition drop_and_count :: "((nat list \<Rightarrow> nat prog) \<Rightarrow> nat prog) \<Rightarrow> nat \<Rightarrow> nat prog" where
  "drop_and_count drop_queue n = drop_queue (\<lambda>xs. drops xs (counted n (Halt None)))"

text \<open>What the two tests of refused pushes ask of the item that came back.\<close>

definition refused_item :: "nat bq_res \<Rightarrow> nat prog \<Rightarrow> nat prog" where
  "refused_item r p =
     (case r of
        PushRes (Inl (err, returned)) \<Rightarrow>
          if err = ResourceUnavailable then counted 0 (drops [returned] (counted 1 p)) else Fail
      | _ \<Rightarrow> Fail)"

definition failed_push_returns_item_without_dropping :: "((nat list \<Rightarrow> nat prog) \<Rightarrow> nat prog) \<Rightarrow> nat prog" where
  "failed_push_returns_item_without_dropping drop_queue =
     want OpDispose DisposeRes (Do (OpPush 0) (\<lambda>r. refused_item r (drop_and_count drop_queue 1)))"

definition failed_push_on_blocked_path_returns_item :: "nat prog" where
  "failed_push_on_blocked_path_returns_item =
     pushes_ok [0] (Start 1 (Do (OpPush 0) (\<lambda>r. Halt (Some r)))
       (want OpDispose DisposeRes (Join 1 (\<lambda>v. case v of Some r \<Rightarrow> refused_item r (Halt None) | None \<Rightarrow> Fail))))"

definition no_leak_on_drop_with_pending_items :: "((nat list \<Rightarrow> nat prog) \<Rightarrow> nat prog) \<Rightarrow> nat prog" where
  "no_leak_on_drop_with_pending_items drop_queue = pushes_ok (replicate 8 0) (drop_and_count drop_queue 8)"

definition no_leak_on_dispose_partial_drain_drop :: "((nat list \<Rightarrow> nat prog) \<Rightarrow> nat prog) \<Rightarrow> nat prog" where
  "no_leak_on_dispose_partial_drain_drop drop_queue =
     pushes_ok (replicate 10 0) (want OpDispose DisposeRes ((pop_and_drop ^^ 4) (drop_and_count drop_queue 10)))"

definition no_leak_on_full_drain_then_drop :: "nat prog" where
  "no_leak_on_full_drain_then_drop =
     pushes_ok (replicate 8 0) ((pop_and_drop ^^ 8) (drop_and_count Destroy 8))"

definition drain_does_not_leak_or_double_free :: "nat prog" where
  "drain_does_not_leak_or_double_free =
     pushes_ok (replicate 6 0) (Do OpDrain (\<lambda>r. case r of
         DrainRes drained \<Rightarrow>
           if length drained = 6 then counted 0 (drops drained (counted 6 (drop_and_count array_drop 6))) else Fail
       | _ \<Rightarrow> Fail))"

section \<open>They pass\<close>

lemma explore_numeral:
  "explore safe outs content (numeral l) ps A m = goes_on safe outs content (explore safe outs content (pred_numeral l)) ps A m"
  by (simp only: numeral_eq_Suc explore.simps)

lemma list_all_weak: "xs = ys \<Longrightarrow> list_all P xs = list_all P ys"
  by simp

lemma list_update_Cons_numeral: "(x # xs)[numeral k := y] = x # xs[pred_numeral k := y]"
  by (simp add: numeral_eq_Suc)

lemma funpow_numeral: "(f ^^ numeral k) x = f ((f ^^ pred_numeral k) x)"
  by (simp add: numeral_eq_Suc)

lemmas explore_eval = explore_numeral explore.simps goes_on_def alone_def fetch_add_def zeros_def usize_mod_def list_update_Cons_numeral funpow_numeral upt_rec
  want_def pushes_ok_def pops_ok_def returns_def pop_and_return_def push_timeout_round_def blocked_producer_def join_producers_def launch_def
  drops_def counted_def pop_and_drop_def drop_and_count_def refused_item_def array_drop_def
  empty_queue_def ensure_capacity_def push_outs_def pop_outs_def has_room_def replicate_numeral

text \<open>A loop of pushes into a queue with room for all of them goes through.\<close>

lemma explore_pushes:
  assumes "\<And>x A. \<not> closed A \<Longrightarrow> has_room A \<Longrightarrow> outs (OpPush x) A = [(PushRes (Inr ()), A\<lparr>items := items A @ [x]\<rparr>)]"
    and "\<And>x. safe (OpPush x)"
    and "\<not> closed A" and "length (items A) + length xs \<le> bound A"
    and "explore safe outs content f [p] (A\<lparr>items := items A @ xs\<rparr>) m"
  shows "explore safe outs content (length xs + f) [pushes_ok xs p] A m"
  using assms(3-5)
proof (induction xs arbitrary: A)
  case (Cons x xs)
  have "explore safe outs content (length xs + f) [pushes_ok xs p] (A\<lparr>items := items A @ [x]\<rparr>) m"
    using Cons.prems by (intro Cons.IH) simp_all
  then show ?case
    using Cons.prems(1,2) assms(1) [of A x] assms(2) [of x]
    by (simp add: pushes_ok_def want_def explore.simps goes_on_def has_room_def)
qed (simp add: pushes_ok_def)

lemma unbounded_accepted:
  assumes "\<And>x A. \<not> closed A \<Longrightarrow> has_room A \<Longrightarrow> outs (OpPush x) A = [(PushRes (Inr ()), A\<lparr>items := items A @ [x]\<rparr>)]"
    and "\<And>x. safe (OpPush x)" and "safe OpSize" and "safe OpPop"
    and "\<And>A. outs OpSize A = bq_outs OpSize A" and "\<And>A. outs OpPop A = bq_outs OpPop A"
  shows "explore safe outs content 1003 (launch 1 unbounded_never_blocks_push) (empty_queue usize_max) m"
proof -
  define xs where "xs = [0..<1000 :: nat]"
  obtain ys where xs: "xs = 0 # ys" "length xs = 1000"
    by (cases xs) (auto simp: xs_def upt_eq_Cons_conv simp del: upt_rec_numeral)
  have "explore safe outs content (length xs + 3) [pushes_ok xs (want OpSize (SizeRes 1000) (pops_ok [0] (Halt None)))]
      (empty_queue usize_max) m"
  proof (rule explore_pushes)
    show "outs (OpPush x) A = [(PushRes (Inr ()), A\<lparr>items := items A @ [x]\<rparr>)]" if "\<not> closed A" "has_room A" for x A
      using that by (rule assms(1))
    show "safe (OpPush x)" for x by (rule assms(2))
    show "explore safe outs content 3 [want OpSize (SizeRes 1000) (pops_ok [0] (Halt None))]
        (empty_queue usize_max\<lparr>items := items (empty_queue usize_max) @ xs\<rparr>) m"
      using assms(3-6) xs by (simp add: want_def pops_ok_def explore_numeral explore.simps(2) goes_on_def pop_outs_def empty_queue_def cong: list_all_weak)
  qed (simp_all add: empty_queue_def ensure_capacity_def usize_max_def usize_mod_def xs(2))
  then show ?thesis by (simp add: unbounded_never_blocks_push_def launch_def xs(2)) (simp add: xs_def)
qed

definition array_tests :: "(nat \<times> nat \<times> nat prog) list" where
  "array_tests = [
     (4, 1, fifo_order_single_thread), (2, 1, capacity_and_size), (1, 2, push_blocks_when_full),
     (4, 2, pop_blocks_when_empty), (8, 1, dispose_drains_remaining_items), (4, 1, push_fails_after_dispose),
     (4, 2, dispose_wakes_blocked_pop), (1, 2, dispose_wakes_blocked_push),
     (usize_max, 1, unbounded_never_blocks_push), (1, 1, try_push_fails_when_full), (4, 1, try_pop_fails_when_empty),
     (4, 1, try_ops_report_resource_unavailable_after_dispose), (4, 1, try_pop_drains_remaining_items_after_dispose),
     (4, 2, try_push_wakes_blocked_pop), (1, 2, try_pop_wakes_blocked_push),
     (2, 1, push_timeout_never_exceeds_capacity), (2, 2, waiter_accounting_survives_repeated_timeouts),
     (8, 1, drain_collects_everything_in_fifo_order), (3, 4, drain_wakes_all_blocked_producers),
     (8, 1, drain_collects_remainder_after_dispose), (4, 2, drain_leaves_blocked_consumers_asleep),
     (4, 1, failed_push_returns_item_without_dropping array_drop), (1, 2, failed_push_on_blocked_path_returns_item),
     (16, 1, no_leak_on_drop_with_pending_items array_drop), (16, 1, no_leak_on_dispose_partial_drain_drop array_drop),
     (16, 1, drain_does_not_leak_or_double_free), (64, 9, mpmc_no_loss_no_duplication),
     (4, 9, mixed_api_mpmc_no_loss_no_duplication)]"

definition accepted :: "nat \<Rightarrow> nat \<times> nat \<times> nat prog \<Rightarrow> bool" where
  "accepted f = (\<lambda>(c, n, p). explore (\<lambda>_. True) bq_outs items f (launch n p) (empty_queue c) zeros)"

lemmas test_programs =
  fifo_order_single_thread_def capacity_and_size_def
  push_blocks_when_full_def pop_blocks_when_empty_def
  dispose_drains_remaining_items_def push_fails_after_dispose_def
  dispose_wakes_blocked_pop_def dispose_wakes_blocked_push_def
  try_push_fails_when_full_def try_pop_fails_when_empty_def
  try_ops_report_resource_unavailable_after_dispose_def try_pop_drains_remaining_items_after_dispose_def
  try_push_wakes_blocked_pop_def try_pop_wakes_blocked_push_def
  push_timeout_never_exceeds_capacity_def waiter_accounting_survives_repeated_timeouts_def
  drain_collects_everything_in_fifo_order_def drain_wakes_all_blocked_producers_def
  drain_collects_remainder_after_dispose_def drain_leaves_blocked_consumers_asleep_def
  failed_push_returns_item_without_dropping_def failed_push_on_blocked_path_returns_item_def
  no_leak_on_drop_with_pending_items_def no_leak_on_dispose_partial_drain_drop_def
  no_leak_on_full_drain_then_drop_def drain_does_not_leak_or_double_free_def

lemma array_accepted_1:
  shows "accepted 30 (4, 1, fifo_order_single_thread)"
  and "accepted 30 (2, 1, capacity_and_size)"
  and "accepted 30 (1, 2, push_blocks_when_full)"
  and "accepted 30 (4, 2, pop_blocks_when_empty)"
  and "accepted 30 (8, 1, dispose_drains_remaining_items)"
  and "accepted 30 (4, 1, push_fails_after_dispose)"
  and "accepted 30 (4, 2, dispose_wakes_blocked_pop)"
  and "accepted 30 (1, 2, dispose_wakes_blocked_push)"
  by (simp_all add: accepted_def test_programs explore_eval cong: list_all_weak)

lemma array_accepted_2:
  shows "accepted 30 (1, 1, try_push_fails_when_full)"
  and "accepted 30 (4, 1, try_pop_fails_when_empty)"
  and "accepted 30 (4, 1, try_ops_report_resource_unavailable_after_dispose)"
  and "accepted 30 (4, 1, try_pop_drains_remaining_items_after_dispose)"
  and "accepted 30 (4, 2, try_push_wakes_blocked_pop)"
  and "accepted 30 (1, 2, try_pop_wakes_blocked_push)"
  by (simp_all add: accepted_def test_programs explore_eval cong: list_all_weak)

lemma array_accepted_3:
  shows "accepted 30 (2, 1, push_timeout_never_exceeds_capacity)"
  and "accepted 30 (2, 2, waiter_accounting_survives_repeated_timeouts)"
  and "accepted 30 (8, 1, drain_collects_everything_in_fifo_order)"
  and "accepted 30 (3, 4, drain_wakes_all_blocked_producers)"
  and "accepted 30 (8, 1, drain_collects_remainder_after_dispose)"
  and "accepted 30 (4, 2, drain_leaves_blocked_consumers_asleep)"
  by (simp_all add: accepted_def test_programs explore_eval cong: list_all_weak)

lemma array_accepted_4:
  shows "accepted 60 (4, 1, failed_push_returns_item_without_dropping array_drop)"
  and "accepted 60 (1, 2, failed_push_on_blocked_path_returns_item)"
  and "accepted 60 (16, 1, no_leak_on_drop_with_pending_items array_drop)"
  and "accepted 60 (16, 1, no_leak_on_dispose_partial_drain_drop array_drop)"
  and "accepted 60 (16, 1, drain_does_not_leak_or_double_free)"
  by (simp_all add: accepted_def test_programs explore_eval cong: list_all_weak)

lemma array_allowed:
  assumes "(c, n, p) \<in> set array_tests"
  shows "allowed (\<lambda>_. True) bq_outs items (launch n p) (empty_queue c) zeros"
proof -
  have explored: "allowed (\<lambda>_. True) bq_outs items (launch n p) (empty_queue c) zeros" if "accepted f (c, n, p)" for f c n p
    using that by (auto simp: accepted_def intro: explore_allowed)
  have "accepted 1003 (usize_max, 1, unbounded_never_blocks_push)"
    unfolding accepted_def prod.case by (rule unbounded_accepted) (simp_all add: push_outs_def)
  with assms show ?thesis
    unfolding array_tests_def
    using array_accepted_1 array_accepted_2 array_accepted_3 array_accepted_4 array_mpmc_allowed array_mixed_allowed
    by (auto dest!: explored)
qed

lemma array_test_ok:
  assumes "(c, n, p) \<in> set array_tests"
  shows "abq_client.client_ok (abq_start c n, launch n p, zeros)"
proof -
  have n: "0 < n" "n < usize_mod" using assms by (auto simp: array_tests_def usize_mod_def)
  have "abq_serving (abq_start c n :: (nat bq_op, nat abq, nat abq_pc) sys)"
    using abq_covered_start [OF n(2) refl] by (simp add: abq_serving_def begun_def abq_start_def)
  moreover have "abq_abs (abq_start c n :: (nat bq_op, nat abq, nat abq_pc) sys) = empty_queue c"
    by (simp add: abq_abs_def abq_view_def abq_pendings_def abq_start_def abq_fresh_def empty_queue_def)
  ultimately show ?thesis
    using array_allowed [OF assms] n by (intro abq_client.client_ok_launch) (auto simp: abq_start_def)
qed

text \<open>
  C36. The tests of \<open>array_bq.rs\<close> that do not look at the clock, those with drop counters and the
  stress tests of nine threads among them, pass under every schedule: none of their
  assertions ever fails, and when no thread can go on, all threads have come to their end, unless
  a timed call is still waiting for its time to pass.
\<close>

theorem array_tests_pass:
  assumes "(c, n, p) \<in> set array_tests"
    and "client_reaches abq_machine abq_ret abq_fields (abq_start c n, launch n p, zeros) (s, ps, m)"
  shows "Fail \<notin> set ps
    \<and> (client_stuck abq_machine abq_ret abq_fields (s, ps, m) \<longrightarrow>
        list_all halted ps \<or> (\<exists>op k. Await op k \<in> set ps \<and> op_limit op \<noteq> None))"
proof -
  have ok: "abq_client.client_ok (s, ps, m)"
    using abq_client.client_ok_reaches [OF assms(2) array_test_ok [OF assms(1)]] .
  show ?thesis using abq_client.client_never_fails [OF ok] abq_client.client_not_stuck [OF ok] by blast
qed

text \<open>\<open>push_fails_after_dispose\<close>, run to its end.\<close>

theorem array_tests_pass_witness:
  "\<exists>s. client_reaches abq_machine abq_ret abq_fields (abq_start 4 1, launch 1 push_fails_after_dispose, zeros) (s, [Halt None], zeros)
    \<and> Fail \<notin> set [Halt None :: nat prog]"
proof -
  let ?c = "(abq_start 4 1, launch 1 push_fails_after_dispose, zeros)"
  let ?r = "PushRes (Inl (ResourceUnavailable, 1)) :: nat bq_res"
  let ?p = "want (OpPush 1) ?r (Halt None)"
  let ?k = "\<lambda>r. if r = DisposeRes then ?p else Fail"
  let ?l = "\<lambda>r. if r = ?r then Halt None else Fail"
  obtain s1 s2 s3 s4 where run:
    "exec abq_machine (Call 0 OpDispose) (abq_start 4 1) = Some s1" "run abq_machine (acts 0 5) s1 = Some s2"
    "abq_ret (pc (threads s2 ! 0)) = Some DisposeRes"
    "exec abq_machine (Call 0 (OpPush (1 :: nat))) s2 = Some s3" "run abq_machine (acts 0 4) s3 = Some s4"
    "abq_ret (pc (threads s4 ! 0)) = Some ?r"
    by (simp add: abq_eval)
  have launched: "launch 1 push_fails_after_dispose = [Do OpDispose ?k]"
    by (simp add: launch_def push_fails_after_dispose_def want_def [of OpDispose] del: One_nat_def)
  have "client_reaches abq_machine abq_ret abq_fields ?c (abq_start 4 1, [Do OpDispose ?k], zeros)"
    unfolding launched by (rule client_reaches.here)
  from client_reaches_alone [OF this run(1-3)]
  have "client_reaches abq_machine abq_ret abq_fields ?c (s2, [Do (OpPush 1) ?l], zeros)" by (simp add: want_def)
  from client_reaches_alone [OF this run(4-6)] have "client_reaches abq_machine abq_ret abq_fields ?c (s4, [Halt None], zeros)" by simp
  with array_tests_pass [OF _ this] show ?thesis by (auto simp: array_tests_def)
qed

section \<open>The tests of the linked queue\<close>

text \<open>
  \<open>linked_bq.rs\<close> has the same tests for \<open>push\<close>, \<open>pop\<close>, \<open>dispose\<close>, the sizes and the drop. In
  two of them one thread pushes after it has disposed the queue; that such a push is refused
  is the stronger specification \<open>lone_spec\<close> of a queue that one thread has to itself.
\<close>

definition linked_basic_tests :: "(nat \<times> nat \<times> nat prog) list" where
  "linked_basic_tests = [(4, 1, fifo_order_single_thread), (2, 1, capacity_and_size), (1, 2, push_blocks_when_full),
     (4, 2, pop_blocks_when_empty), (8, 1, dispose_drains_remaining_items)]"

definition linked_wake_tests :: "(nat \<times> nat \<times> nat prog) list" where
  "linked_wake_tests = [(4, 2, dispose_wakes_blocked_pop), (1, 2, dispose_wakes_blocked_push)]"

definition linked_unbounded_test :: "nat \<times> nat \<times> nat prog" where
  "linked_unbounded_test = (usize_max, 1, unbounded_never_blocks_push)"

definition linked_drop_tests :: "(nat \<times> nat \<times> nat prog) list" where
  "linked_drop_tests = [(16, 1, no_leak_on_full_drain_then_drop),
     (16, 1, no_leak_on_drop_with_pending_items Destroy), (16, 1, no_leak_on_dispose_partial_drain_drop Destroy)]"

definition linked_blocked_test :: "nat \<times> nat \<times> nat prog" where
  "linked_blocked_test = (1, 2, failed_push_on_blocked_path_returns_item)"

definition linked_refusal_test :: "nat \<times> nat \<times> nat prog" where
  "linked_refusal_test = (4, 1, push_fails_after_dispose)"

definition linked_returned_test :: "nat \<times> nat \<times> nat prog" where
  "linked_returned_test = (4, 1, failed_push_returns_item_without_dropping Destroy)"

definition linked_lone_tests :: "(nat \<times> nat \<times> nat prog) list" where
  "linked_lone_tests = [linked_refusal_test, linked_returned_test]"

definition linked_mpmc_test :: "nat \<times> nat \<times> nat prog" where
  "linked_mpmc_test = (64, 9, mpmc_no_loss_no_duplication)"

definition linked_shared_tests :: "(nat \<times> nat \<times> nat prog) list" where
  "linked_shared_tests = linked_basic_tests @ linked_wake_tests @ linked_drop_tests @ [linked_unbounded_test, linked_mpmc_test, linked_blocked_test]"

definition linked_tests :: "(nat \<times> nat \<times> nat prog) list" where
  "linked_tests = linked_shared_tests @ linked_lone_tests"

definition linked_accepted :: "nat \<Rightarrow> nat \<times> nat \<times> nat prog \<Rightarrow> bool" where
  "linked_accepted f = (\<lambda>(c, n, p). explore plain_op lbq_outs items f (launch n p) (empty_queue c) zeros)"

lemmas linked_tests_defs = linked_tests_def linked_shared_tests_def linked_lone_tests_def linked_basic_tests_def linked_wake_tests_def
  linked_drop_tests_def linked_unbounded_test_def linked_mpmc_test_def linked_blocked_test_def
  linked_refusal_test_def linked_returned_test_def

lemma linked_accepted:
  shows "linked_accepted 30 (4, 1, fifo_order_single_thread)" and "linked_accepted 30 (2, 1, capacity_and_size)"
    and "linked_accepted 30 (1, 2, push_blocks_when_full)" and "linked_accepted 30 (4, 2, pop_blocks_when_empty)"
    and "linked_accepted 30 (8, 1, dispose_drains_remaining_items)"
    and "linked_accepted 30 (4, 2, dispose_wakes_blocked_pop)"
    and "linked_accepted 30 (1, 2, dispose_wakes_blocked_push)"
  by (simp_all add: linked_accepted_def test_programs explore_eval cong: list_all_weak)

lemma linked_accepted_drops:
  shows "linked_accepted 60 (1, 2, failed_push_on_blocked_path_returns_item)"
    and "linked_accepted 60 (16, 1, no_leak_on_full_drain_then_drop)"
    and "linked_accepted 60 (16, 1, no_leak_on_drop_with_pending_items Destroy)"
    and "linked_accepted 60 (16, 1, no_leak_on_dispose_partial_drain_drop Destroy)"
  by (simp_all add: linked_accepted_def test_programs explore_eval cong: list_all_weak)

lemma linked_allowed:
  assumes "(c, n, p) \<in> set linked_shared_tests"
  shows "allowed plain_op lbq_outs items (launch n p) (empty_queue c) zeros"
proof -
  have explored: "allowed plain_op lbq_outs items (launch n p) (empty_queue c) zeros" if "linked_accepted f (c, n, p)" for f c n p
    using that by (auto simp: linked_accepted_def intro: explore_allowed)
  have "linked_accepted 1003 (usize_max, 1, unbounded_never_blocks_push)"
    unfolding linked_accepted_def prod.case by (rule unbounded_accepted) simp_all
  with assms show ?thesis
    unfolding linked_tests_defs using linked_accepted linked_accepted_drops linked_mpmc_allowed
    by (auto dest!: explored)
qed

lemma lone_explored:
  shows "explore plain_op bq_outs items 60 (launch 1 push_fails_after_dispose) (empty_queue 4) zeros"
    and "explore plain_op bq_outs items 60 (launch 1 (failed_push_returns_item_without_dropping Destroy)) (empty_queue 4) zeros"
  by (simp_all add: test_programs explore_eval cong: list_all_weak)

lemma lone_allowed:
  "(c, n, p) \<in> set linked_lone_tests \<Longrightarrow> n = 1 \<and> allowed plain_op bq_outs items (launch n p) (empty_queue c) zeros"
  using lone_explored [THEN explore_allowed] by (auto simp: linked_tests_defs)

text \<open>The queue as a test finds it.\<close>

lemma linked_start:
  assumes "(c, n, p) \<in> set linked_tests"
  defines "s \<equiv> lbq_start c n :: (nat bq_op, nat lbq, nat lbq_pc) sys"
  shows "0 < n" and "length (threads s) = n" and "lbq_serving (ensure_capacity c) s" and "lbq_abs s = empty_queue c"
    and "lbq_inv s" and "\<And>th. th \<in> set (threads s) \<Longrightarrow> pc th = LIdle"
proof -
  have n: "0 < n" "n < usize_mod" "c \<le> usize_max"
    using assms by (auto simp: linked_tests_defs usize_mod_def usize_max_def)
  then show "0 < n" "lbq_abs s = empty_queue c" by (simp_all add: s_def lbq_abs_start empty_queue_def)
  show "length (threads s) = n" "\<And>th. th \<in> set (threads s) \<Longrightarrow> pc th = LIdle" by (auto simp: s_def lbq_start_def)
  show "lbq_serving (ensure_capacity c) s"
    using lbq_covered_start [OF n(3,2) refl] by (simp add: s_def lbq_serving_def begun_def lbq_start_def)
  then show "lbq_inv s" by (rule lbq_client.live_inv)
qed

lemma linked_test_ok:
  assumes "(c, n, p) \<in> set linked_shared_tests"
  shows "lbq_client.client_ok (ensure_capacity c) (lbq_start c n, launch n p, zeros)"
proof -
  have "(c, n, p) \<in> set linked_tests" using assms by (simp add: linked_tests_def)
  note start = linked_start [OF this]
  show ?thesis using linked_allowed [OF assms] start by (intro lbq_client.client_ok_launch) simp_all
qed

lemma linked_lone_ok:
  assumes "(c, n, p) \<in> set linked_lone_tests"
  shows "lone_client.client_ok (ensure_capacity c) (lbq_start c n, launch n p, zeros)"
proof -
  have "(c, n, p) \<in> set linked_tests" using assms by (simp add: linked_tests_def)
  note start = linked_start [OF this]
  have n: "n = 1" "allowed plain_op bq_outs items (launch n p) (empty_queue c) zeros" using lone_allowed [OF assms] by auto
  then have "lone (lbq_start c n :: (nat bq_op, nat lbq, nat lbq_pc) sys)"
    using start by (simp add: lone_def)
  with n(2) start show ?thesis by (intro lone_client.client_ok_launch) simp_all
qed

text \<open>
  C37. The same for the tests of \<open>linked_bq.rs\<close>, in all interleavings of its two locks.
\<close>

theorem linked_tests_pass:
  assumes "(c, n, p) \<in> set linked_tests"
    and "client_reaches lbq_machine lbq_ret lbq_dropped (lbq_start c n, launch n p, zeros) (s, ps, m)"
  shows "Fail \<notin> set ps \<and> (client_stuck lbq_machine lbq_ret lbq_dropped (s, ps, m) \<longrightarrow> list_all halted ps)"
proof -
  have untimed: "plain_op op \<Longrightarrow> op_limit op = None" for op :: "nat bq_op" by (cases op) simp_all
  from assms(1) consider "(c, n, p) \<in> set linked_shared_tests" | "(c, n, p) \<in> set linked_lone_tests"
    by (auto simp: linked_tests_def)
  then show ?thesis
  proof cases
    case 1
    have ok: "lbq_client.client_ok (ensure_capacity c) (s, ps, m)"
      using lbq_client.client_ok_reaches [OF assms(2) linked_test_ok [OF 1]] .
    then show ?thesis
      using lbq_client.client_never_fails [OF ok] lbq_client.client_not_stuck [OF ok]
        untimed [OF lbq_client.client_ok_safe [OF ok]] by blast
  next
    case 2
    have ok: "lone_client.client_ok (ensure_capacity c) (s, ps, m)"
      using lone_client.client_ok_reaches [OF assms(2) linked_lone_ok [OF 2]] .
    then show ?thesis
      using lone_client.client_never_fails [OF ok] lone_client.client_not_stuck [OF ok]
        untimed [OF lone_client.client_ok_safe [OF ok]] by blast
  qed
qed

text \<open>The first call of \<open>capacity_and_size\<close>, and the rest of the test after it.\<close>

theorem linked_tests_pass_witness:
  "\<exists>s p. client_reaches lbq_machine lbq_ret lbq_dropped (lbq_start 2 1, launch 1 capacity_and_size, zeros) (s, [want OpSize (SizeRes 0) p], zeros)
    \<and> Fail \<notin> set [want OpSize (SizeRes 0) p]"
proof -
  obtain p where p: "launch 1 capacity_and_size
      = [Do OpCapacity (\<lambda>r. if r = CapacityRes 2 then want OpSize (SizeRes 0) p else Fail)]"
    by (simp add: launch_def capacity_and_size_def want_def [of OpCapacity])
  obtain s t where run: "exec lbq_machine (Call 0 OpCapacity) (lbq_start 2 1) = Some s"
    "run lbq_machine (acts 0 1) s = Some t" "lbq_ret (pc (threads t ! 0)) = Some (CapacityRes 2 :: nat bq_res)"
    by (simp add: lbq_eval)
  have "client_reaches lbq_machine lbq_ret lbq_dropped (lbq_start 2 1, launch 1 capacity_and_size, zeros)
      (lbq_start 2 1, [Do OpCapacity (\<lambda>r. if r = CapacityRes 2 then want OpSize (SizeRes 0) p else Fail)], zeros)"
    unfolding p by (rule client_reaches.here)
  from client_reaches_alone [OF this run]
  have "client_reaches lbq_machine lbq_ret lbq_dropped (lbq_start 2 1, launch 1 capacity_and_size, zeros) (t, [want OpSize (SizeRes 0) p], zeros)"
    by simp
  with linked_tests_pass [OF _ this] show ?thesis by (auto simp: linked_tests_defs)
qed

end
