(* ===== verification/PoolPrograms.thy ===== *)
theory PoolPrograms
  imports WorkerPoolProps "HOL-Library.Multiset" "HOL-Library.Sublist"
begin

text \<open>
  A program that uses the thread pool as the demo \<open>hio/src/main.rs\<close> and the tests of
  \<open>thread_pool.rs\<close> do: one thread submits jobs and then drops the pool, the other threads are the
  workers. Proved from the contract of the job queue: once the program is through, the jobs that
  were run are the jobs submitted, and it cannot get stuck before.
\<close>

section \<open>Programs\<close>

text \<open>
  The main thread is thread 0; \<open>Drop\<close> for \<open>ThreadPool\<close> is its \<open>dispose\<close>. The other threads only ever
  carry workers.
\<close>

abbreviation submits :: "'j list \<Rightarrow> 'j wpool_op list" where
  "submits js \<equiv> map (\<lambda>j. Client (Submit j)) js"

definition pool_drop :: "'j wpool_op" where
  "pool_drop = Client Dispose"

definition pool_program :: "'j list \<Rightarrow> 'j wpool_op list" where
  "pool_program js = submits js @ [pool_drop]"

fun worker_call :: "'j wpool_op label \<Rightarrow> bool" where
  "worker_call (Call i op) = (i = 0 \<or> (case op of Proc k \<Rightarrow> True | _ \<Rightarrow> False))"
| "worker_call l = True"

text \<open>A run of a program whose main thread makes the calls \<open>cs\<close>, as far as it has come.\<close>

definition follows :: "'j wpool_op list \<Rightarrow> 'j wpool_op label list \<Rightarrow> bool" where
  "follows cs ls \<longleftrightarrow> prefix (calls_by 0 ls) cs \<and> list_all worker_call ls"

lemma worker_calls: "list_all worker_call ls \<Longrightarrow> i \<noteq> 0 \<Longrightarrow> op \<in> set (calls_by i ls) \<Longrightarrow> \<exists>k. op = Proc k"
  by (induction ls) (auto split: label.splits if_splits wpool_op.splits)

lemma not_submits: "pool_program js \<noteq> submits xs"
proof
  assume "pool_program js = submits xs"
  then have "Client Dispose \<in> set (submits xs)" by (metis in_set_conv_decomp pool_program_def pool_drop_def)
  then show False by auto
qed

lemma follows_prefix: "follows (pool_program js) (ls @ ms) \<Longrightarrow> follows (pool_program js) ls"
  by (auto simp: follows_def dest: append_prefixD)

lemma follows_cases:
  assumes "follows (pool_program js) ls"
  obtains (submits) xs where "prefix xs js" "calls_by 0 ls = submits xs"
  | (all) "calls_by 0 ls = pool_program js"
proof -
  from assms consider "calls_by 0 ls = pool_program js" | "prefix (calls_by 0 ls) (submits js)"
    by (auto simp: follows_def pool_program_def pool_drop_def)
  then show thesis
  proof cases
    case 2
    then obtain xs where "calls_by 0 ls = submits xs" "prefix xs js"
      by (auto simp: prefix_def dest!: map_eq_append_conv [THEN iffD1])
    with submits show thesis by blast
  qed (rule all)
qed

section \<open>The jobs that are run\<close>

fun in_job :: "'j wpool_pc \<Rightarrow> 'j list" where
  "in_job (ProcJob k j) = [j]"
| "in_job p = []"

text \<open>A job runs in one action, the one that leaves its point.\<close>

definition jobs_run ::
    "('j wpool_op, 'q wpool, 'j wpool_pc, unit) machine \<Rightarrow> 'j wpool_op label list
      \<Rightarrow> ('j wpool_op, 'q wpool, 'j wpool_pc) sys \<Rightarrow> 'j list" where
  "jobs_run M ls s = observe M (by_actor (\<lambda>p p'. in_job p)) ls s"

lemma starts_in_job: "starts p p' = in_job p'"
  by (cases p') (simp_all add: starts_def)

lemma in_job_rest: "wpool_resting p \<Longrightarrow> in_job p = []"
  by (cases p) simp_all

lemma in_job_entry [simp]: "in_job (wpool_entry op) = []"
  by (cases op rule: wpool_entry.cases) simp_all

lemma held_update:
  "i < length ts \<Longrightarrow> mset (held f (ts[i := th])) + mset (f (pc (ts ! i))) = mset (held f ts) + mset (f (pc th))"
proof (induction ts arbitrary: i)
  case (Cons x ts)
  then show ?case by (cases i) (auto simp: held_def)
qed simp

text \<open>What is started has been run or is being run.\<close>

lemma exec_jobs:
  assumes "exec (wpool_machine Q panics) l s = Some t"
  shows "mset (by_actor starts l s t) + mset (held in_job (threads s))
    = mset (by_actor (\<lambda>p p'. in_job p) l s t) + mset (held in_job (threads t))"
proof (cases l)
  case (Call i op)
  with assms have i: "i < length (threads s)" and "wpool_resting (pc (threads s ! i))"
    and t: "t = s\<lparr>threads := (threads s)[i := \<lparr>cur = Some op, called = now s, pc = wpool_entry op\<rparr>]\<rparr>"
    by (auto split: if_splits)
  with held_update [OF i, of in_job "\<lparr>cur = Some op, called = now s, pc = wpool_entry op\<rparr>"] Call
  show ?thesis by (simp add: by_actor_def in_job_rest)
next
  case (Run i ks)
  with assms obtain q p where "i < length (threads s)"
    "t = s\<lparr>shared := q, threads := (threads s)[i := (threads s ! i)\<lparr>pc := p\<rparr>]\<rparr>"
    by (metis wpool_run_step)
  with held_update [of i "threads s" in_job "(threads s ! i)\<lparr>pc := p\<rparr>"] Run show ?thesis
    by (simp add: by_actor_def starts_in_job add.commute)
qed (use assms in \<open>auto simp: by_actor_def\<close>)

lemma union_exchange:
  fixes a :: "'a multiset"
  assumes "a + h = r + h'" and "b + h' = r' + h''"
  shows "a + b + h = r + r' + h''"
proof -
  have "a + b + h = (a + h) + b" by (simp add: ac_simps)
  also have "\<dots> = r + (b + h')" unfolding assms(1) by (simp add: ac_simps)
  finally show ?thesis unfolding assms(2) by (simp add: ac_simps)
qed

lemma run_jobs:
  "run (wpool_machine Q panics) ls s = Some t \<Longrightarrow>
    mset (jobs_started (wpool_machine Q panics) ls s) + mset (held in_job (threads s))
      = mset (jobs_run (wpool_machine Q panics) ls s) + mset (held in_job (threads t))"
proof (induction ls arbitrary: s)
  case (Cons l ls)
  then obtain u where u: "exec (wpool_machine Q panics) l s = Some u" "run (wpool_machine Q panics) ls u = Some t"
    by (auto split: option.splits)
  from union_exchange [OF exec_jobs [OF u(1)] Cons.IH [OF u(2)]] u(1) show ?case
    by (simp add: jobs_started_def jobs_run_def)
qed (simp add: jobs_started_def jobs_run_def)

section \<open>The phases of the program\<close>

lemma accepts_worker: "wpool_worker p \<Longrightarrow> accepts p p' = []"
  by (cases p) (simp_all add: accepts_def)

lemma accepts_closing: "closing shut w q p \<Longrightarrow> accepts p p' = []"
  by (cases p) (simp_all add: accepts_def)

context job_queue_contract
begin

lemma worker_step_shut:
  "wpool_step Q panics q p = Some (q', p') \<Longrightarrow> wpool_worker p \<Longrightarrow> shut (job_queue q') = shut (job_queue q)"
  by (cases p) (auto simp: set_worker_def split: if_splits option.splits dest!: pop_law)

text \<open>While it submits: all submits before the one in progress have been accepted.\<close>

definition submitting :: "'j list \<Rightarrow> 'j list \<Rightarrow> ('j wpool_op, 'q wpool, 'j wpool_pc) sys \<Rightarrow> bool" where
  "submitting js acc s \<longleftrightarrow> 0 < length (threads s) \<and> \<not> pool_disposed (shared s) \<and> \<not> shut (job_queue (shared s))
     \<and> (\<forall>i < length (threads s). i \<noteq> 0 \<longrightarrow> wpool_worker (pc (threads s ! i)))
     \<and> (wpool_resting (pc (threads s ! 0)) \<and> acc = js \<or> (\<exists>j. pc (threads s ! 0) = SubmitPush j \<and> js = acc @ [j]))"

lemma submitting_exec:
  assumes sub: "submitting js acc s" and ex: "exec (wpool_machine Q panics) l s = Some t"
    and lab: "worker_call l" "calls_by 0 [l] = submits xs"
  shows "submitting (js @ xs) (acc @ by_actor accepts l s t) t"
proof (cases l)
  case (Call i op)
  show ?thesis
  proof (cases "i = 0")
    case True
    with Call lab(2) obtain j where "op = Client (Submit j)" "xs = [j]" by auto
    with True Call sub ex show ?thesis
      by (auto simp: submitting_def by_actor_def nth_list_update split: if_splits)
  next
    case False
    with Call lab obtain k where "op = Proc k" "xs = []" by (auto split: wpool_op.splits)
    with False Call sub ex show ?thesis
      by (auto simp: submitting_def by_actor_def nth_list_update split: if_splits)
  qed
next
  case (Run i ks)
  with ex obtain q p where q: "i < length (threads s)"
    "wpool_step Q panics (shared s) (pc (threads s ! i)) = Some (q, p)"
    "t = s\<lparr>shared := q, threads := (threads s)[i := (threads s ! i)\<lparr>pc := p\<rparr>]\<rparr>"
    by (metis wpool_run_step)
  have xs: "xs = []" using Run lab(2) by simp
  show ?thesis
  proof (cases "i = 0")
    case True
    with q(2) sub obtain j where j: "pc (threads s ! 0) = SubmitPush j" "js = acc @ [j]"
      by (auto simp: submitting_def elim!: wpool_resting.elims)
    with q(2) True sub have "p = WDone (ClientRes (SubmitRes (Inr ())))" "pool_disposed q = pool_disposed (shared s)"
      "shut (job_queue q) = shut (job_queue (shared s))"
      by (auto simp: wsubmit_step_def submitting_def split: option.splits dest!: push_law)
    with q(1,3) True j sub Run xs show ?thesis
      by (auto simp: submitting_def by_actor_def accepts_def nth_list_update)
  next
    case False
    with q(1) sub have w: "wpool_worker (pc (threads s ! i))" by (simp add: submitting_def)
    with False q sub Run xs wpool_worker_step [OF q(2)] worker_step_shut [OF q(2) w] show ?thesis
      by (auto simp: submitting_def by_actor_def accepts_worker nth_list_update)
  qed
qed (use assms in \<open>auto simp: by_actor_def submitting_def\<close>)

lemma submitting_run:
  "run (wpool_machine Q panics) ls s = Some t \<Longrightarrow> submitting js acc s \<Longrightarrow> list_all worker_call ls \<Longrightarrow>
    calls_by 0 ls = submits xs \<Longrightarrow> submitting (js @ xs) (acc @ jobs_accepted (wpool_machine Q panics) ls s) t"
proof (induction ls arbitrary: s js acc xs)
  case (Cons l ls)
  then obtain u where u: "exec (wpool_machine Q panics) l s = Some u" "run (wpool_machine Q panics) ls u = Some t"
    by (auto split: option.splits)
  have "submits xs = calls_by 0 [l] @ calls_by 0 ls" using Cons.prems(4) by simp
  then obtain ys zs where xs: "calls_by 0 [l] = submits ys" "calls_by 0 ls = submits zs" "xs = ys @ zs"
    by (auto simp only: map_eq_append_conv)
  have "submitting (js @ ys) (acc @ by_actor accepts l s u) u"
    using Cons.prems(3) xs(1) by (intro submitting_exec [OF Cons.prems(2) u(1)]) simp_all
  from Cons.IH [OF u(2) this _ xs(2)] Cons.prems(3)
  have "submitting (js @ xs) ((acc @ by_actor accepts l s u) @ jobs_accepted (wpool_machine Q panics) ls u) t"
    by (simp add: xs(3))
  with u(1) show ?case by (simp add: jobs_accepted_def)
qed (simp add: jobs_accepted_def)

text \<open>While it disposes, nothing is accepted.\<close>

lemma closing_accepts:
  "run (wpool_machine Q panics) ms s = Some u \<Longrightarrow> closing_by w d s \<Longrightarrow> \<forall>l \<in> set ms. procs_only d l \<Longrightarrow>
    jobs_accepted (wpool_machine Q panics) ms s = []"
proof (induction ms arbitrary: s)
  case (Cons l ms)
  then obtain t where t: "exec (wpool_machine Q panics) l s = Some t" "run (wpool_machine Q panics) ms t = Some u"
    by (auto split: option.splits)
  have "by_actor accepts l s t = []"
  proof (cases l)
    case (Run i ks)
    with t(1) have "i < length (threads s)" by (auto split: if_splits)
    with Cons.prems(2) Run show ?thesis
      by (cases "i = d") (auto simp: closing_by_def by_actor_def accepts_worker accepts_closing)
  qed (simp_all add: by_actor_def)
  with Cons.IH [OF t(2) closing_exec [OF Cons.prems(2) t(1)]] Cons.prems(3) t(1) show ?case
    by (simp add: jobs_accepted_def)
qed (simp add: jobs_accepted_def)

lemma program_phase:
  assumes run: "run (wpool_machine Q panics) ls (wpool_start jq w n) = Some s" and n: "0 < n" and jq: "\<not> shut jq"
    and follows: "follows (pool_program js) ls"
  shows "(\<exists>xs. prefix xs js \<and> calls_by 0 ls = submits xs
      \<and> submitting xs (jobs_accepted (wpool_machine Q panics) ls (wpool_start jq w n)) s)
    \<or> (calls_by 0 ls = pool_program js \<and> closing_by w 0 s
      \<and> jobs_accepted (wpool_machine Q panics) ls (wpool_start jq w n) = js)"
proof -
  let ?M = "wpool_machine Q panics" and ?s0 = "wpool_start jq w n"
  have workers: "list_all worker_call ls" using follows by (simp add: follows_def)
  have start: "submitting [] [] ?s0" using n jq by (simp add: submitting_def wpool_start_def with_jq_def)
  show ?thesis
    using follows
  proof (cases rule: follows_cases)
    case (submits xs)
    with submitting_run [OF run start workers submits(2)] show ?thesis by auto
  next
    case all
    then obtain ms ns where ls: "ls = ms @ Call 0 (Client Dispose) # ns" "calls_by 0 ms = submits js" "calls_by 0 ns = []"
      by (auto simp: pool_program_def pool_drop_def dest!: calls_by_split)
    with run obtain u v where u: "run ?M ms ?s0 = Some u" "exec ?M (Call 0 (Client Dispose)) u = Some v" "run ?M ns v = Some s"
      by (auto simp: run_append split: option.splits)
    have only: "\<forall>l \<in> set ns. procs_only 0 l"
    proof
      fix l assume l: "l \<in> set ns"
      with ls(3) have "calls_by 0 [l] = []" by (auto simp: in_set_conv_decomp)
      moreover have "worker_call l" using workers l ls(1) by (auto simp: list_all_iff)
      ultimately show "procs_only 0 l" by (cases l) (auto simp: procs_only_def split: wpool_op.splits if_splits)
    qed
    have ok: "pool_ok contents shut panics w (shared u)" using run_pool_ok [OF u(1)] by simp
    have sub: "submitting js (jobs_accepted ?M ms ?s0) u"
      using submitting_run [OF u(1) start _ ls(2)] workers ls(1) by simp
    moreover have rest: "wpool_resting (pc (threads u ! 0))" using u(2) by (simp split: if_splits)
    ultimately have acc: "jobs_accepted ?M ms ?s0 = js" by (auto simp: submitting_def)
    have by_d: "closing_by w 0 v"
      using u(2) sub ok by (auto simp: closing_by_def submitting_def pool_ok_def nth_list_update split: if_splits)
    have "jobs_accepted ?M ls ?s0 = jobs_accepted ?M ms ?s0 @ jobs_accepted ?M ns v"
      using u by (simp add: ls(1) jobs_accepted_def observe_append by_actor_def)
    with acc closing_accepts [OF u(3) by_d only] closing_run [OF u(3) by_d only] all show ?thesis by simp
  qed
qed

text \<open>When the pool has been dropped, the jobs that have been run are those submitted.\<close>

lemma program_runs_jobs:
  assumes run: "run (wpool_machine Q panics) ls (wpool_start jq w n) = Some s"
    and n: "0 < n" "0 < w" and jq: "\<not> shut jq" "contents jq = []" and calm: "\<forall>j. \<not> panics j"
    and follows: "follows (pool_program js) ls" "calls_by 0 ls = pool_program js" and ret: "pc (threads s ! 0) = WDone r"
  shows "mset (jobs_run (wpool_machine Q panics) ls (wpool_start jq w n)) = mset js"
proof -
  let ?M = "wpool_machine Q panics" and ?s0 = "wpool_start jq w n"
  have ok: "pool_ok contents shut panics w (shared s)" "length (threads s) = n" using run_pool_ok [OF run] by simp_all
  from program_phase [OF run n(1) jq(1) follows(1)] not_submits follows(2) have by_d: "closing_by w 0 s"
    and acc: "jobs_accepted ?M ls ?s0 = js" by auto
  from by_d ret have ended: "\<And>k. k < w \<Longrightarrow> worker_ended (shared s) k" by (auto simp: closing_by_def)
  have none: "worker_alive k (shared s) = 0" for k
    using ended [of k] ok(1) by (auto simp: worker_alive_def worker_ended_def pool_ok_def)
  have "in_job (pc th) = []" if th: "th \<in> set (threads s)" for th
  proof -
    obtain i where i: "i < length (threads s)" "th = threads s ! i" using th by (auto simp: in_set_conv_nth)
    have "inside_worker k (pc th) = 0" for k
      using one_thread_at [OF wpool_one_thread [OF run] i(1), of k] none [of k] i(2) by simp
    then show ?thesis by (cases "pc th") (auto dest: spec)
  qed
  then have quiet: "held in_job (threads s) = []" by (auto simp: held_def)
  have "contents (job_queue (shared s)) = []" using ended_drained [OF ok(1) ended [OF n(2)] n(2) calm] .
  with run_contents [OF run] jq(2) acc have "jobs_started ?M ls ?s0 = js"
    by (simp add: wpool_start_def with_jq_def)
  with run_jobs [OF run] quiet show ?thesis
    by (simp add: wpool_start_def held_def)
qed

text \<open>And it gets there, if every worker is given a thread.\<close>

lemma program_not_stuck:
  assumes run: "run (wpool_machine Q panics) ls (wpool_start jq w n) = Some s"
    and n: "0 < n" "0 < w" and jq: "\<not> shut jq" and calm: "\<forall>j. \<not> panics j" and follows: "follows (pool_program js) ls"
    and room: "full (job_queue (shared s)) \<Longrightarrow> contents (job_queue (shared s)) \<noteq> []"
    and stuck: "\<And>i ks. exec (wpool_machine Q panics) (Run i ks) s = None"
    and started: "Unstarted \<notin> set (statuses (shared s))"
  shows "wpool_resting (pc (threads s ! 0))"
proof -
  have ok: "pool_ok contents shut panics w (shared s)" using run_pool_ok [OF run] by simp
  have here: "statuses (shared s) ! k \<noteq> Unstarted \<and> statuses (shared s) ! k \<noteq> Died" if "k < w" for k
  proof -
    have "statuses (shared s) ! k \<in> set (statuses (shared s))" "Died \<notin> set (statuses (shared s))"
      using ok calm that by (auto simp: pool_ok_def)
    with started show ?thesis by metis
  qed
  have "pc (threads s ! 0) \<noteq> ProcPop k" for k
    using program_phase [OF run n(1) jq follows] by (auto simp: submitting_def closing_by_def)
  with no_deadlock [OF run stuck n(1)] here room n(2) show ?thesis by blast
qed

end

end
