(* ===== verification/PoolServed.thy ===== *)
theory PoolServed
  imports PoolPrograms PoolOverSim QueueClients
begin

text \<open>
  The program of \<open>PoolPrograms\<close> over the code of a queue. Through the simulation the composed
  system runs the jobs that the pool over the sequential queue runs; and when nobody can act
  in the composed system, nobody can in the other one, because a thread that waits inside the
  queue waits for what is not there.
\<close>

section \<open>The jobs run by the composed system\<close>

fun over_in_job :: "('j, 'r) over_pc \<Rightarrow> 'j list" where
  "over_in_job (AtPool p) = in_job p"
| "over_in_job (InQueue p c r) = []"

definition over_jobs_run ::
    "('j wpool_op, 'o wpool, ('j, 'r) over_pc, 'cv) machine \<Rightarrow> 'j wpool_op label list
      \<Rightarrow> ('j wpool_op, 'o wpool, ('j, 'r) over_pc) sys \<Rightarrow> 'j list" where
  "over_jobs_run M ls s = observe M (by_actor (\<lambda>p p'. over_in_job p)) ls s"

lemma in_job_at_queue: "queue_op p = Some op \<Longrightarrow> in_job p = []"
  by (cases p) simp_all

lemma in_job_leaves:
  "wpool_step Q panics q p = Some (q', p') \<Longrightarrow> in_job p \<noteq> [] \<Longrightarrow> p' \<noteq> p"
  by (cases p) (auto split: if_splits)

lemma wpool_exec_moves:
  assumes "exec (wpool_machine Q panics) (Run i ks) s = Some t" and "in_job (pc (threads s ! i)) \<noteq> []"
  shows "pc (threads t ! i) \<noteq> pc (threads s ! i)"
  using assms by (elim wpool_run_step) (auto dest: in_job_leaves)

context queue_object
begin

text \<open>The same object under a stronger invariant.\<close>

lemma strengthen:
  assumes live_inv: "\<And>s. live s \<Longrightarrow> inv s" and live_exec: "\<And>s l t. live s \<Longrightarrow> exec M l s = Some t \<Longrightarrow> live t"
    and live_forget: "\<And>s i. \<lbrakk>live s; i < length (threads s); resting M (pc (threads s ! i))\<rbrakk> \<Longrightarrow>
      live (s\<lparr>threads := (threads s)[i := at_rest idle]\<rparr>)"
  shows "queue_object M live dec absf spec ret idle Q fine"
proof (intro queue_object.intro linearizable.intro queue_object_axioms.intro machine_rules_axioms conjI)
  fix s i assume "live s" "i < length (threads s)" "resting M (pc (threads s ! i))"
  with forget [of s i] live_inv live_forget
  show "live (s\<lparr>threads := (threads s)[i := at_rest idle]\<rparr>)"
    and "absf (s\<lparr>threads := (threads s)[i := at_rest idle]\<rparr>) = absf s" by blast+
qed (erule live_exec call_undecided step_self [OF live_inv] call_abs [OF live_inv] quiet_abs [OF live_inv]
    tick_abs [OF live_inv] rouse_undecided step_others [OF live_inv] ret_resting ret_decided
    spec_push spec_pop spec_dispose
  | rule call_undecided idle_resting | assumption)+

text \<open>A call that is decided stays so until it returns.\<close>

lemma decided_stays:
  assumes ok: "over_ok s" and ex: "exec (over_machine M ret panics) (Run i ks) s = Some t"
    and i: "pc (threads s ! i) = InQueue p c r" and dec: "dec (job_queue (shared s)) r = Some x"
  shows "abs_pc dec (job_queue (shared t)) (pc (threads t ! i)) = resume p x"
  using ex
proof (cases rule: exec_cases)
  case (Run j ls q' p' nt us)
  then have j: "j = i" "ls = ks" "i < length (threads s)" by simp_all
  note run = Run(3,4,5) [unfolded j]
  show ?thesis
  proof (cases "ret r")
    case None
    with run(1) i obtain jq r' where w: "advance M i (now s) (job_queue (shared s)) r = Some (jq, r', nt)"
      "q' = (shared s)\<lparr>job_queue := jq\<rparr>" "p' = InQueue p c r'" by auto
    have del: "deliver (over_machine M ret panics) ks nt ((threads s)[i := (threads s ! i)\<lparr>pc := InQueue p c r'\<rparr>]) = Some us"
      using run(2) w(3) by simp
    note q = queue_exec [OF j(3) i w(1) del run(3) [unfolded w(2)]]
    have inv: "inv (queue_sys idle s)" using ok by (simp add: over_ok_def)
    have len: "length us = length (threads s)" using deliver_length [OF del] by simp
    from step_self [OF inv conjunct1 [OF q]] q dec i j(3) run(3) w(2) len
    show ?thesis by (simp add: run(3))
  next
    case (Some y)
    with run i have "q' = shared s" "p' = AtPool (resume p y)" "nt = Quiet" by auto
    with run(2,3) ret_decided [OF Some, of "job_queue (shared s)"] dec j(3) show ?thesis by auto
  qed
qed simp_all

lemma abs_sys_pc: "i < length (threads s) \<Longrightarrow>
    pc (threads (abs_sys s) ! i) = abs_pc dec (job_queue (shared s)) (pc (threads s ! i))"
  by (simp add: over_abs_def abs_thread_def)

lemma over_exec_jobs:
  assumes ok: "over_ok s" and fine: "calls_fine s" and ex: "exec (over_machine M ret panics) l s = Some t"
  shows "over_ok t \<and> ((abs_sys t = abs_sys s \<and> \<not> is_call l \<and> by_actor (\<lambda>p p'. over_in_job p) l s t = [])
    \<or> (exec (wpool_machine Q panics) (quieten l) (abs_sys s) = Some (abs_sys t)
      \<and> by_actor (\<lambda>p p'. over_in_job p) l s t = by_actor (\<lambda>p p'. in_job p) (quieten l) (abs_sys s) (abs_sys t)))"
proof (cases l)
  case (Run i ks)
  with ex have i: "i < length (threads s)" by (auto split: if_splits)
  have len: "length (threads t) = length (threads s)" using ex by (rule exec_length)
  have ex': "exec (over_machine M ret panics) (Run i ks) s = Some t" using ex Run by simp
  note sim = over_exec [OF ok fine ex]
  show ?thesis
  proof (cases "pc (threads s ! i)")
    case (AtPool p)
    have "in_job p = []" if "abs_sys t = abs_sys s"
    proof (rule ccontr)
      assume job: "in_job p \<noteq> []"
      then have "queue_op p = None" by (cases p) simp_all
      with ex' AtPool obtain q p' where w: "wpool_step no_queue panics (shared s) p = Some (q, p')"
        "pc (threads t ! i) = AtPool p'" by (auto split: if_splits option.splits)
      have "p' = p"
        using arg_cong [OF that, of "\<lambda>x. pc (threads x ! i)"] i len AtPool w(2) by (simp add: abs_sys_pc)
      with in_job_leaves [OF w(1) job] show False by simp
    qed
    with sim Run AtPool i show ?thesis by (auto simp: by_actor_def abs_sys_pc)
  next
    case (InQueue p c r)
    obtain op where op: "queue_op p = Some op" using over_okD [OF ok i InQueue] by blast
    have "in_job (pc (threads (abs_sys s) ! i)) = []"
      if move: "exec (wpool_machine Q panics) (Run i []) (abs_sys s) = Some (abs_sys t)"
    proof (cases "dec (job_queue (shared s)) r")
      case None
      then show ?thesis using i InQueue in_job_at_queue [OF op] by (simp add: abs_sys_pc)
    next
      case (Some x)
      have "pc (threads (abs_sys t) ! i) = pc (threads (abs_sys s) ! i)"
        using decided_stays [OF ok ex' InQueue Some] i len InQueue Some by (simp add: abs_sys_pc)
      with wpool_exec_moves [OF move] show ?thesis by auto
    qed
    with sim Run InQueue show ?thesis by (auto simp: by_actor_def)
  qed
qed (use over_exec [OF ok fine ex] in \<open>auto simp: by_actor_def\<close>)

end

section \<open>Who submits\<close>

fun at_point :: "('j, 'r) over_pc \<Rightarrow> 'j wpool_pc" where
  "at_point (AtPool p) = p"
| "at_point (InQueue p c r) = p"

definition submit_called :: "('j wpool_op, 'o wpool, ('j, 'r) over_pc) sys \<Rightarrow> bool" where
  "submit_called s \<longleftrightarrow> (\<forall>i < length (threads s). \<forall>j.
     at_point (pc (threads s ! i)) = SubmitPush j \<longrightarrow> cur (threads s ! i) = Some (Client (Submit j)))"

lemma wpool_step_submit: "wpool_step Q panics q p = Some (q', p') \<Longrightarrow> p' \<noteq> SubmitPush j"
  by (cases p) (auto simp: wsubmit_step_def split: if_splits option.splits list.splits)

lemma resume_submit: "resume p x = SubmitPush j \<Longrightarrow> p = SubmitPush j"
  by (cases p) (auto split: bq_res.splits sum.splits)

lemma over_advance_submit:
  assumes "over_advance M ret panics i t q p = Some (q', p', nt)" and "at_point p' = SubmitPush j"
  shows "at_point p = SubmitPush j"
  using assms
  by (cases p) (auto split: option.splits dest: wpool_step_submit resume_submit)

lemma over_rouse_point [simp]: "at_point (over_rouse M p) = at_point p"
  by (cases p) simp_all

lemma submit_called_exec:
  assumes sub: "submit_called s" and ex: "exec (over_machine M ret panics) l s = Some t"
  shows "submit_called t"
  using ex
proof (cases rule: exec_cases)
  case (Call i op)
  have "op = Client (Submit j)" if "wpool_entry op = SubmitPush j" for j
    using that by (cases op rule: wpool_entry.cases) simp_all
  with Call sub show ?thesis by (auto simp: submit_called_def nth_list_update)
next
  case (Run i ks q p nt us)
  let ?mid = "(threads s)[i := (threads s ! i)\<lparr>pc := p\<rparr>]"
  have "at_point (pc (us ! k)) = at_point (pc (?mid ! k)) \<and> cur (us ! k) = cur (?mid ! k)" if "k < length (threads s)" for k
    using deliver_nth [OF Run(4), of k] that by auto
  moreover have "cur (?mid ! k) = Some (Client (Submit j))"
    if "k < length (threads s)" "at_point (pc (?mid ! k)) = SubmitPush j" for k j
    using that sub over_advance_submit [of M ret panics i "now s" "shared s" "pc (threads s ! i)" q p nt j] Run(3)
    by (cases "k = i") (auto simp: submit_called_def)
  moreover have "length us = length (threads s)" using deliver_length [OF Run(4)] by simp
  ultimately show ?thesis using Run(5) by (simp add: submit_called_def)
qed (use sub in \<open>auto simp: submit_called_def nth_list_update\<close>)

lemma submit_called_run:
  assumes "run (over_machine M ret panics) ls (over_start jq w n) = Some s"
  shows "submit_called s"
  using submit_called_exec assms
  by (rule run_invariant [of submit_called]) (auto simp: submit_called_def over_start_def)

section \<open>The sequential queue\<close>

lemma wpool_bound:
  fixes panics :: "'j \<Rightarrow> bool"
  assumes "run (wpool_machine spec_queue panics) ls s = Some t"
  shows "bound (job_queue (shared t)) = bound (job_queue (shared s))"
proof (rule run_invariant [OF _ assms])
  fix l and u v :: "('j wpool_op, 'j bq_abs wpool, 'j wpool_pc) sys"
  have step: "wpool_step spec_queue panics q p = Some (q', p') \<Longrightarrow> bound (job_queue q') = bound (job_queue q)"
    for q q' :: "'j bq_abs wpool" and p p'
    by (cases p) (auto simp: wsubmit_step_def spec_queue_def push_spec_def pop_spec_def ensure_def set_worker_def
        split: if_splits option.splits list.splits)
  assume "bound (job_queue (shared u)) = bound (job_queue (shared s))"
    and "exec (wpool_machine spec_queue panics) l u = Some v"
  then show "bound (job_queue (shared v)) = bound (job_queue (shared s))"
    by (cases l) (auto dest!: step simp: wpool_advance_def split: if_splits option.splits)
qed simp

text \<open>A pool point that cannot act on its own, and one whose queue call has no answer, are blocked there too.\<close>

lemma local_stuck_abs:
  "wpool_step no_queue panics q p = None \<Longrightarrow> queue_op p = None \<Longrightarrow> wpool_step Q panics (abs_pool A q) p = None"
  by (cases p) (auto simp: worker_ended_def split: if_splits list.splits)

lemma queue_stuck_abs:
  "queue_op p = Some op \<Longrightarrow> bq_outs op A = [] \<Longrightarrow> wpool_step spec_queue panics (abs_pool A q) p = None"
  by (cases p) (auto simp: wsubmit_step_def spec_queue_def push_outs_def pop_outs_def push_spec_def pop_spec_def
      ensure_def split: if_splits list.splits)

lemma calls_filter [simp]: "calls_by i (filter is_call ls) = calls_by i ls"
  by (induction ls) (auto split: label.splits elim!: is_call.elims)

lemma worker_calls_filter [simp]: "list_all worker_call (filter is_call ls) = list_all worker_call ls"
  by (induction ls) (auto elim!: is_call.elims)

lemma same_calls:
  assumes "filter is_call ms = filter is_call ls"
  shows "calls_by i ms = calls_by i ls" and "follows (pool_program js) ms = follows (pool_program js) ls"
  using arg_cong [OF assms, of "calls_by i"] arg_cong [OF assms, of "calls_by 0"]
    arg_cong [OF assms, of "list_all worker_call"] by (simp_all add: follows_def)


section \<open>The program over the code of a queue\<close>

text \<open>
  \<open>live\<close> is an invariant of the queue strong enough that, when no thread can act, a call of the
  pool that has not returned has no answer on the sequential queue. The effect of a queue call
  may differ from the sequential queue's only for a push that meets a disposed queue.
\<close>

locale served_pool = queue_object M live dec absf spec ret idle spec_queue fine
  for M :: "('j bq_op, 'o, 'r, 'cv) machine" and live :: "('j bq_op, 'o, 'r) sys \<Rightarrow> bool"
    and dec :: "'o \<Rightarrow> 'r \<Rightarrow> 'j bq_res option" and absf :: "('j bq_op, 'o, 'r) sys \<Rightarrow> 'j bq_abs"
    and spec :: "'j bq_op \<Rightarrow> 'j bq_res \<Rightarrow> 'j bq_abs \<Rightarrow> 'j bq_abs option"
    and ret :: "'r \<Rightarrow> 'j bq_res option" and idle :: 'r and fine :: "'j bq_abs \<Rightarrow> 'j bq_op \<Rightarrow> bool" +
  assumes fine_open: "closed A \<longrightarrow> (\<forall>j. op \<noteq> OpPush j) \<Longrightarrow> fine A op"
    and stuck_waits: "\<lbrakk>live s; \<And>i ks. exec M (Run i ks) s = None; i < length (threads s);
      cur (threads s ! i) = queue_op p; queue_op p = Some op; ret (pc (threads s ! i)) = None\<rbrakk> \<Longrightarrow>
      dec (shared s) (pc (threads s ! i)) = None \<and> bq_outs op (absf s) = []"
begin

lemma over_stuck:
  assumes ok: "over_ok s" and stuck: "\<And>i ks. exec (over_machine M ret panics) (Run i ks) s = None"
  shows "exec (wpool_machine spec_queue panics) (Run i ks) (abs_sys s) = None"
    and "i < length (threads s) \<Longrightarrow> pc (threads s ! i) = InQueue p c r \<Longrightarrow> dec (job_queue (shared s)) r = None"
proof -
  let ?q = "queue_sys idle s"
  have none: "over_advance M ret panics j (now s) (shared s) (pc (threads s ! j)) = None" if "j < length (threads s)" for j
    using stuck_blocked [of "over_machine M ret panics" s j, OF stuck that] by simp
  have "advance M j (now s) (job_queue (shared s)) (pc (queue_thread idle (threads s ! j))) = None"
    if "j < length (threads s)" for j
  proof (cases "pc (threads s ! j)")
    case (AtPool p)
    then show ?thesis using rest_blocked [OF idle_resting] by simp
  next
    case (InQueue p c r)
    with none [OF that] show ?thesis by (cases "ret r") simp_all
  qed
  then have qs: "exec M (Run j ls) ?q = None" for j ls by simp
  have at: "dec (job_queue (shared s)) r = None \<and> wpool_step spec_queue panics (abs_pool (absf ?q) (shared s)) p = None"
    if j: "j < length (threads s)" "pc (threads s ! j) = InQueue p c r" for j p c r
  proof -
    obtain op where op: "queue_op p = Some op" using over_okD [OF ok j] by blast
    have "ret r = None" using none [OF j(1)] j(2) by (cases "ret r") simp_all
    with stuck_waits [of ?q j p op, OF _ qs] ok j op
    have "dec (job_queue (shared s)) r = None \<and> bq_outs op (absf ?q) = []" by (simp add: over_ok_def)
    with queue_stuck_abs [OF op] show ?thesis by blast
  qed
  show "i < length (threads s) \<Longrightarrow> pc (threads s ! i) = InQueue p c r \<Longrightarrow> dec (job_queue (shared s)) r = None"
    using at by blast
  have "wpool_step spec_queue panics (abs_pool (absf ?q) (shared s)) (abs_pc dec (job_queue (shared s)) (pc (threads s ! j))) = None"
    if j: "j < length (threads s)" for j
  proof (cases "pc (threads s ! j)")
    case (AtPool p)
    with none [OF j] have "queue_op p = None" "wpool_step no_queue panics (shared s) p = None"
      by (auto split: option.splits)
    with AtPool local_stuck_abs show ?thesis by simp
  qed (use at [OF j] in simp)
  then show "exec (wpool_machine spec_queue panics) (Run i ks) (abs_sys s) = None"
    by (simp add: over_abs_def abs_thread_def wpool_advance_def)
qed

text \<open>The program keeps the rule that no submit meets the disposed queue.\<close>

lemma program_fine:
  assumes run: "run (over_machine M ret panics) ls (over_start q0 w n) = Some s"
    and abs: "run (wpool_machine spec_queue panics) ms (wpool_start A w n) = Some (abs_sys s)"
    and calls: "filter is_call ms = filter is_call ls" and follows: "follows (pool_program js) ls" and "0 < n" and "\<not> closed A"
  shows "calls_fine s"
proof -
  have "follows (pool_program js) ms" "calls_by i ms = calls_by i ls" for i using follows same_calls [OF calls] by simp_all
  with spec_queue.program_phase [OF abs assms(5,6)] consider (open_queue) "\<not> closed (job_queue (shared (abs_sys s)))"
    | (all) "calls_by 0 ls = pool_program js"
    by (auto simp: spec_queue.submitting_def)
  then show ?thesis
  proof cases
    case open_queue
    then have "\<not> closed (absf (queue_sys idle s))" by (simp add: over_abs_def)
    then show ?thesis using fine_open by (simp add: calls_fine_def)
  next
    case all
    have "op \<noteq> OpPush j" if th: "th \<in> set (threads s)" "pc th = InQueue p c r" "queue_op p = Some op" for th p c r op j
    proof
      assume "op = OpPush j"
      with th(3) have p: "p = SubmitPush j" by (cases p) simp_all
      obtain i where i: "i < length (threads s)" "th = threads s ! i" using th(1) by (auto simp: in_set_conv_nth)
      with submit_called_run [OF run] th(2) p have c: "cur (threads s ! i) = Some (Client (Submit j))"
        by (simp add: submit_called_def)
      with run_cur [OF run, of i] run_length [OF run] i(1) have last: "Client (Submit j) = last (calls_by i ls)" "calls_by i ls \<noteq> []"
        by (auto simp: over_start_def split: if_splits)
      show False
      proof (cases "i = 0")
        case True
        with last all show False by (simp add: pool_program_def pool_drop_def)
      next
        case False
        have "Client (Submit j) \<in> set (calls_by i ls)" using last by simp
        with worker_calls [OF _ False] follows show False by (auto simp: follows_def)
      qed
    qed
    then show ?thesis using fine_open unfolding calls_fine_def by blast
  qed
qed

lemma program_refines:
  assumes "run (over_machine M ret panics) ls (over_start q0 w n) = Some s" and "follows (pool_program js) ls"
    and start: "over_ok (over_start q0 w n)" "abs_sys (over_start q0 w n) = wpool_start A w n"
    and n: "0 < n" and A: "\<not> closed A"
  shows "over_ok s \<and> (\<exists>ms. run (wpool_machine spec_queue panics) ms (wpool_start A w n) = Some (abs_sys s)
    \<and> filter is_call ms = filter is_call ls
    \<and> over_jobs_run (over_machine M ret panics) ls (over_start q0 w n)
        = jobs_run (wpool_machine spec_queue panics) ms (wpool_start A w n))"
  using assms(1,2)
proof (induction ls arbitrary: s rule: rev_induct)
  case Nil
  with start show ?case by (intro conjI exI [of _ "[]"]) (simp_all add: over_jobs_run_def jobs_run_def)
next
  case (snoc l ls)
  let ?M = "over_machine M ret panics" and ?W = "wpool_machine spec_queue panics"
  from snoc.prems(1) obtain u where u: "run ?M ls (over_start q0 w n) = Some u" "exec ?M l u = Some s"
    by (auto simp: run_append split: option.splits)
  have pre: "follows (pool_program js) ls" using snoc.prems(2) by (rule follows_prefix)
  from snoc.IH [OF u(1) pre] obtain ms where ms: "over_ok u" "run ?W ms (wpool_start A w n) = Some (abs_sys u)"
    "filter is_call ms = filter is_call ls"
    "over_jobs_run ?M ls (over_start q0 w n) = jobs_run ?W ms (wpool_start A w n)" by blast
  have fine: "calls_fine u" by (rule program_fine [OF u(1) ms(2,3) pre n A])
  have qc: "is_call (quieten l) = is_call l" "is_call l \<Longrightarrow> quieten l = l" by (cases l; simp)+
  have jobs: "over_jobs_run ?M (ls @ [l]) (over_start q0 w n)
      = jobs_run ?W ms (wpool_start A w n) @ by_actor (\<lambda>p p'. over_in_job p) l u s"
    using ms(4) u by (simp add: over_jobs_run_def observe_append)
  from over_exec_jobs [OF ms(1) fine u(2)] consider
      (stay) "over_ok s" "abs_sys s = abs_sys u" "\<not> is_call l" "by_actor (\<lambda>p p'. over_in_job p) l u s = []"
    | (move) "over_ok s" "exec ?W (quieten l) (abs_sys u) = Some (abs_sys s)"
      "by_actor (\<lambda>p p'. over_in_job p) l u s = by_actor (\<lambda>p p'. in_job p) (quieten l) (abs_sys u) (abs_sys s)"
    by blast
  then show ?case
  proof cases
    case stay
    with ms jobs show ?thesis by (intro conjI exI [of _ ms]) simp_all
  next
    case move
    with ms jobs qc show ?thesis
      by (intro conjI exI [of _ "ms @ [quieten l]"]) (simp_all add: run_append jobs_run_def observe_append)
  qed
qed

text \<open>
  The program over the code of the queue: once main has returned from its last call, the jobs run
  are those submitted; and when nobody can act and every worker has its thread, main rests.
\<close>

theorem program_over:
  assumes run: "run (over_machine M ret panics) ls (over_start q0 w n) = Some s" and follows: "follows (pool_program js) ls"
    and start: "over_ok (over_start q0 w n)"
    and abs: "abs_sys (over_start q0 w n) = wpool_start \<lparr>items = [], closed = False, bound = b\<rparr> w n"
    and n: "0 < n" "0 < w" "0 < b" and calm: "\<forall>j. \<not> panics j"
  shows "calls_by 0 ls = pool_program js \<Longrightarrow> over_resting (pc (threads s ! 0)) \<Longrightarrow>
      mset (over_jobs_run (over_machine M ret panics) ls (over_start q0 w n)) = mset js"
    and "\<lbrakk>\<And>i ks. exec (over_machine M ret panics) (Run i ks) s = None; Unstarted \<notin> set (statuses (shared s))\<rbrakk> \<Longrightarrow>
      over_resting (pc (threads s ! 0))"
proof -
  let ?W = "wpool_machine spec_queue panics"
  let ?w0 = "wpool_start \<lparr>items = [], closed = False, bound = b\<rparr> w n"
  have len: "length (threads s) = n" using run_length [OF run] by (simp add: over_start_def)
  obtain ms where ok: "over_ok s" and ms: "run ?W ms ?w0 = Some (abs_sys s)" "filter is_call ms = filter is_call ls"
    "over_jobs_run (over_machine M ret panics) ls (over_start q0 w n) = jobs_run ?W ms ?w0"
    using program_refines [OF run follows start abs n(1)] by auto
  note calls = same_calls [OF ms(2)]
  have pc0: "pc (threads (abs_sys s) ! 0) = abs_pc dec (job_queue (shared s)) (pc (threads s ! 0))"
    using n(1) len by (intro abs_sys_pc) simp
  note phase = spec_queue.program_phase [OF ms(1) n(1) _ follows [folded calls(2)]]
  show "mset (over_jobs_run (over_machine M ret panics) ls (over_start q0 w n)) = mset js"
    if all: "calls_by 0 ls = pool_program js" and rest: "over_resting (pc (threads s ! 0))"
  proof -
    from phase calls(1) all not_submits have "spec_queue.closing_by w 0 (abs_sys s)" by auto
    with rest pc0 obtain r where "pc (threads (abs_sys s) ! 0) = WDone r"
      by (cases "pc (threads s ! 0)") (auto simp: spec_queue.closing_by_def elim!: wpool_resting.elims)
    with ms(3) spec_queue.program_runs_jobs [OF ms(1) n(1,2) _ _ calm follows [folded calls(2)]] all calls(1) show ?thesis
      by simp
  qed
  show "over_resting (pc (threads s ! 0))"
    if stuck: "\<And>i ks. exec (over_machine M ret panics) (Run i ks) s = None"
      and started: "Unstarted \<notin> set (statuses (shared s))"
  proof -
    have "bound (job_queue (shared (abs_sys s))) = b"
      using wpool_bound [OF ms(1)] by (simp add: wpool_start_def with_jq_def)
    with n(3) have "\<not> has_room (job_queue (shared (abs_sys s))) \<Longrightarrow> items (job_queue (shared (abs_sys s))) \<noteq> []"
      by (auto simp: has_room_def)
    then have "wpool_resting (pc (threads (abs_sys s) ! 0))"
      using started by (intro spec_queue.program_not_stuck [OF ms(1) n(1,2) _ calm follows [folded calls(2)] _ over_stuck(1) [OF ok stuck]])
        (simp_all add: over_abs_def)
    then have at: "wpool_resting (abs_pc dec (job_queue (shared s)) (pc (threads s ! 0)))" using pc0 by simp
    show ?thesis
    proof (cases "pc (threads s ! 0)")
      case (InQueue p c r)
      with over_stuck(2) [OF ok stuck] n(1) len have "dec (job_queue (shared s)) r = None" by blast
      with at InQueue over_okD [OF ok _ InQueue] n(1) len show ?thesis by (cases p) auto
    qed (use at in simp)
  qed
qed

end

end
