(* ===== verification/PoolDemo.thy ===== *)
theory PoolDemo
  imports PoolServed "HOL-Library.Word"
begin

text \<open>
  The demo \<open>hio/src/main.rs\<close>, and the tests of \<open>thread_pool.rs\<close> that it was copied from: a
  million jobs that increment a counter are submitted to a thread pool over one of the two queues,
  the pool is dropped, and the counter is a million. Over the code of pool and queue, for every
  schedule.
\<close>

section \<open>Both queues serve the pool\<close>

lemma forget_weight:
  assumes "i < length (threads s)" and "f (pc (threads s ! i)) = f idle"
  shows "weight f ((threads s)[i := at_rest idle]) = weight f (threads s)"
  using assms by (intro weight_update_same) simp_all

lemma forget_inside:
  assumes "i < length (threads s)" and "sec (pc (threads s ! i)) = sec idle"
  shows "inside sec ((threads s)[i := at_rest idle]) = inside sec (threads s)"
  unfolding inside_def using assms by (intro forget_weight) simp_all

lemma forget_covered:
  assumes "i < length (threads s)" and "dozing M (pc (threads s ! i)) = dozing M idle"
    and "token (pc (threads s ! i)) = token idle"
  shows "covered M cv token need (s\<lparr>threads := (threads s)[i := at_rest idle]\<rparr>) = covered M cv token need s"
  using assms by (simp add: covered_def sleeping_def forget_weight)

lemma forget_unmissed:
  assumes "i < length (threads s)" and "st (pc (threads s ! i)) = st idle" and "pre (pc (threads s ! i)) = pre idle"
  shows "unmissed st pre need (s\<lparr>threads := (threads s)[i := at_rest idle]\<rparr>) = unmissed st pre need s"
  using assms by (simp add: unmissed_def forget_weight forget_inside)

lemma forget_begun: "begun P s \<Longrightarrow> begun P (s\<lparr>threads := (threads s)[i := at_rest idle]\<rparr>)"
  by (auto simp: begun_def nth_update_any)

lemma abq_serving_forget:
  fixes s :: "('a bq_op, 'a abq, 'a abq_pc) sys"
  assumes live: "abq_serving s" and i: "i < length (threads s)" and rest: "abq_resting (pc (threads s ! i))"
  shows "abq_serving (s\<lparr>threads := (threads s)[i := at_rest Idle]\<rparr>)"
proof -
  let ?p = "pc (threads s ! i)"
  have inv: "abq_inv s" using live by (simp add: abq_serving_def abq_covered_def abq_live_inv_def)
  have same: "\<not> push_section ?p" "\<not> pop_section ?p" "\<not> stale ?p" "dispose_waits ?p = 0" "push_token ?p = 0"
    "pop_token ?p = 0" "dispose_empty_token ?p = 0" "dispose_full_token ?p = 0" "abq_dozing ?p = None"
    using rest by (auto elim!: abq_resting.elims)
  from abq_forget [OF inv i rest] live show ?thesis
    by (simp add: abq_serving_def abq_covered_def abq_live_inv_def forget_begun forget_covered [OF i] forget_unmissed [OF i]
        forget_inside [OF i] same)
qed

lemma lbq_serving_forget:
  fixes s :: "('a bq_op, 'a lbq, 'a lbq_pc) sys"
  assumes live: "lbq_serving c s" and i: "i < length (threads s)" and rest: "lbq_resting (pc (threads s ! i))"
  shows "lbq_serving c (s\<lparr>threads := (threads s)[i := at_rest LIdle]\<rparr>)"
proof -
  let ?p = "pc (threads s ! i)"
  have inv: "lbq_inv s" using live by (simp add: lbq_serving_def lbq_covered_def lbq_live_inv_def lbq_sized_def)
  have same: "\<not> lpush_section ?p" "\<not> lpop_section ?p" "\<not> push_cond_read ?p" "\<not> pop_cond_read ?p"
    "\<not> push_flag_read ?p" "\<not> pop_flag_read ?p" "lbq_dozing ?p = None"
    using rest by (auto elim!: lbq_resting.elims)
  from lbq_forget [OF inv i rest] live show ?thesis
    using rest_tokens [OF rest] rest_tokens [of LIdle]
    by (simp add: lbq_serving_def lbq_covered_def lbq_live_inv_def lbq_sized_def forget_begun forget_covered [OF i]
        forget_unmissed [OF i] forget_inside [OF i] same)
qed

interpretation abq_pool: served_pool abq_machine abq_serving abq_decided abq_abs bq_spec abq_ret Idle "\<lambda>A op. True"
proof (intro served_pool.intro served_pool_axioms.intro abq_object.strengthen)
  fix s t :: "('a bq_op, 'a abq, 'a abq_pc) sys" and l i and p :: "'a wpool_pc" and op
  show "abq_serving s \<Longrightarrow> abq_inv s" by (simp add: abq_serving_def abq_covered_def abq_live_inv_def)
  show "abq_serving s \<Longrightarrow> exec abq_machine l s = Some t \<Longrightarrow> abq_serving t" by (rule abq_serving_exec)
  show "abq_serving s \<Longrightarrow> i < length (threads s) \<Longrightarrow> resting abq_machine (pc (threads s ! i)) \<Longrightarrow>
      abq_serving (s\<lparr>threads := (threads s)[i := at_rest Idle]\<rparr>)"
    using abq_serving_forget by simp
  assume "queue_op p = Some op"
  then have "op_limit op = None" by (cases p) auto
  then show "abq_serving s \<Longrightarrow> (\<And>i ks. exec abq_machine (Run i ks) s = None) \<Longrightarrow> i < length (threads s) \<Longrightarrow>
      cur (threads s ! i) = queue_op p \<Longrightarrow> abq_ret (pc (threads s ! i)) = None \<Longrightarrow>
      abq_decided (shared s) (pc (threads s ! i)) = None \<and> bq_outs op (abq_abs s) = []"
    using abq_stuck_waits [of s i op] \<open>queue_op p = Some op\<close> by simp
qed simp

interpretation lbq_pool: served_pool lbq_machine "lbq_serving c" "\<lambda>_. lbq_decided" lbq_abs lbq_spec lbq_ret LIdle
    "\<lambda>A op. closed A \<longrightarrow> (\<forall>j. op \<noteq> OpPush j)" for c
proof (intro served_pool.intro served_pool_axioms.intro lbq_object.strengthen)
  fix s t :: "('a bq_op, 'a lbq, 'a lbq_pc) sys" and l i and p :: "'a wpool_pc" and op
  show "lbq_serving c s \<Longrightarrow> lbq_inv s" by (simp add: lbq_serving_def lbq_covered_def lbq_live_inv_def lbq_sized_def)
  show "lbq_serving c s \<Longrightarrow> exec lbq_machine l s = Some t \<Longrightarrow> lbq_serving c t" by (rule lbq_serving_exec)
  show "lbq_serving c s \<Longrightarrow> i < length (threads s) \<Longrightarrow> resting lbq_machine (pc (threads s ! i)) \<Longrightarrow>
      lbq_serving c (s\<lparr>threads := (threads s)[i := at_rest LIdle]\<rparr>)"
    using lbq_serving_forget by simp
  assume op: "queue_op p = Some op"
  then have "op_limit op = None" "plain_op op" "lbq_outs op A = [] \<Longrightarrow> bq_outs op A = []" for A :: "'a bq_abs"
    by (cases p; auto simp: push_outs_def split: if_splits)+
  then show "lbq_serving c s \<Longrightarrow> (\<And>i ks. exec lbq_machine (Run i ks) s = None) \<Longrightarrow> i < length (threads s) \<Longrightarrow>
      cur (threads s ! i) = queue_op p \<Longrightarrow> lbq_ret (pc (threads s ! i)) = None \<Longrightarrow>
      lbq_decided (pc (threads s ! i)) = None \<and> bq_outs op (lbq_abs s) = []"
    using lbq_stuck_waits [of c s i op] op by simp
qed simp

section \<open>The demo\<close>

text \<open>
  Every job is \<open>move || { COUNTER.fetch_add(1, ...); }\<close>, so a job is a unit; the counter is a
  32-bit word that wraps. A demo is the system it starts in, the calls of the main thread, and
  its assertion, given the jobs that have been run. It is \<open>None\<close> when a constructor panics.
  \<open>n\<close> threads take part, \<open>size_of_job\<close> and \<open>parallelism\<close> are what the platform says.
\<close>

definition fetch_adds :: "unit list \<Rightarrow> 32 word" where
  "fetch_adds jobs = foldl (\<lambda>counter job. counter + 1) 0 jobs"

definition counter_is :: "nat \<Rightarrow> unit list \<Rightarrow> bool" where
  "counter_is repeat jobs \<longleftrightarrow> sint (fetch_adds jobs) = int repeat"

definition demo_calls :: "nat \<Rightarrow> unit wpool_op list" where
  "demo_calls repeat = replicate repeat (Client (Submit ())) @ [pool_drop]"

type_synonym ('q, 'r) pool_demo =
  "(unit wpool_op, 'q wpool, (unit, 'r) over_pc) sys \<times> unit wpool_op list \<times> (unit list \<Rightarrow> bool)"

definition pool_demo :: "'q option \<Rightarrow> nat option \<Rightarrow> nat \<Rightarrow> nat \<Rightarrow> nat \<Rightarrow> ('q, 'r) pool_demo option" where
  "pool_demo created parallelism wanted n repeat =
     (case created of
        None \<Rightarrow> None
      | Some jq \<Rightarrow>
          map_option (\<lambda>pool. (boot pool (AtPool WIdle) n, demo_calls repeat, counter_is repeat))
            (create_executor with_jq parallelism ThreadPool jq wanted))"

definition array_demo :: "nat \<Rightarrow> nat option \<Rightarrow> nat \<Rightarrow> nat \<Rightarrow> nat \<Rightarrow> (unit abq, unit abq_pc) pool_demo option" where
  "array_demo size_of_job parallelism wanted n repeat =
     pool_demo (case create_bq (abq_new size_of_job) (\<lambda>c. Some (lbq_new c :: unit lbq)) Array 0 of
         Some (Inl jq) \<Rightarrow> Some jq
       | _ \<Rightarrow> None) parallelism wanted n repeat"

definition linked_demo :: "nat \<Rightarrow> nat option \<Rightarrow> nat \<Rightarrow> nat \<Rightarrow> nat \<Rightarrow> (unit lbq, unit lbq_pc) pool_demo option" where
  "linked_demo size_of_job parallelism wanted n repeat =
     pool_demo (case create_bq (abq_new size_of_job :: nat \<Rightarrow> unit abq option) (\<lambda>c. Some (lbq_new c)) Linked 0 of
         Some (Inr jq) \<Rightarrow> Some jq
       | _ \<Rightarrow> None) parallelism wanted n repeat"

text \<open>The two functions of the demo, and the two tests of the thread pool, with their constants.\<close>

definition main_test_with_array_bq :: "nat \<Rightarrow> nat option \<Rightarrow> nat \<Rightarrow> (unit abq, unit abq_pc) pool_demo option" where
  "main_test_with_array_bq size_of_job parallelism n = array_demo size_of_job parallelism 0 n 1000000"

definition main_test_with_linked_bq :: "nat \<Rightarrow> nat option \<Rightarrow> nat \<Rightarrow> (unit lbq, unit lbq_pc) pool_demo option" where
  "main_test_with_linked_bq size_of_job parallelism n = linked_demo size_of_job parallelism 0 n 1000000"

definition pool_test_with_array_bq :: "nat \<Rightarrow> nat option \<Rightarrow> nat \<Rightarrow> (unit abq, unit abq_pc) pool_demo option" where
  "pool_test_with_array_bq size_of_job parallelism n = array_demo size_of_job parallelism 4 n 1000000"

definition pool_test_with_linked_bq :: "nat \<Rightarrow> nat option \<Rightarrow> nat \<Rightarrow> (unit lbq, unit lbq_pc) pool_demo option" where
  "pool_test_with_linked_bq size_of_job parallelism n = linked_demo size_of_job parallelism 0 n 1000000"

section \<open>They pass\<close>

lemma demo_calls_program: "demo_calls repeat = pool_program (replicate repeat ())"
  by (simp add: demo_calls_def pool_program_def)

lemma fetch_adds_length: "fetch_adds jobs = of_nat (length jobs)"
proof -
  have "foldl (\<lambda>counter job. counter + 1) c jobs = c + of_nat (length jobs)" for c :: "32 word"
    by (induction jobs arbitrary: c) simp_all
  then show ?thesis by (simp add: fetch_adds_def)
qed

lemma counter_is_count:
  assumes "mset jobs = mset (replicate repeat ())" and "repeat < 2 ^ 31"
  shows "counter_is repeat jobs"
proof -
  have "length jobs = repeat" using mset_eq_length [OF assms(1)] by simp
  then show ?thesis
    using assms(2) by (simp add: counter_is_def fetch_adds_length signed_of_nat signed_take_bit_int_eq_self)
qed

lemma array_demo_start:
  "array_demo size_of_job parallelism k n repeat
    = Some (over_start (abq_fresh (ensure_capacity 0)) (ensure_num_workers parallelism k) n,
        demo_calls repeat, counter_is repeat)"
  by (simp add: array_demo_def pool_demo_def create_bq_def abq_new_def create_executor_def over_start_def
      ensure_capacity_def Let_def)

lemma linked_demo_start:
  "linked_demo size_of_job parallelism k n repeat
    = Some (over_start (lbq_new 0) (ensure_num_workers parallelism k) n, demo_calls repeat, counter_is repeat)"
  by (simp add: linked_demo_def pool_demo_def create_bq_def create_executor_def over_start_def)

lemma some_worker: "parallelism \<noteq> Some 0 \<Longrightarrow> 0 < ensure_num_workers parallelism k"
  by (auto simp: ensure_num_workers_def split: option.splits)

lemma begun_start: "begun P (boot q p n)"
  by (simp add: begun_def)

lemma abq_pool_start: "n < usize_mod \<Longrightarrow> abq_pool.over_ok (over_start (abq_fresh (ensure_capacity c)) w n)"
  unfolding abq_pool.over_ok_def abq_object_start
  by (auto simp: abq_serving_def abq_covered_start over_start_def begun_start abq_start_def)

lemma lbq_pool_start:
  "c \<le> usize_max \<Longrightarrow> n < usize_mod \<Longrightarrow> lbq_pool.over_ok (ensure_capacity c) (over_start (lbq_new c) w n)"
  unfolding lbq_pool.over_ok_def lbq_object_start
  by (auto simp: lbq_serving_def lbq_covered_start over_start_def begun_start lbq_start_def)


text \<open>For the witnesses: main submits, the worker runs the job and waits for the next, main disposes.\<close>

definition demo_schedule :: "nat \<Rightarrow> nat \<Rightarrow> (nat \<times> nat) list \<Rightarrow> unit wpool_op label list" where
  "demo_schedule k l rest = Call 0 (Client (Submit ())) # acts 0 k @ Call 1 (Proc 0) # acts 1 l
     @ Call 0 pool_drop # concat (map (\<lambda>(i, m). acts i m) rest)"

lemma demo_schedule_calls [simp]:
  "calls_by 0 (demo_schedule k l rest) = demo_calls 1" "list_all worker_call (demo_schedule k l rest)"
proof -
  have "list_all worker_call (acts i m :: unit wpool_op label list)" for i m
    by (induction m) (simp_all add: acts_def)
  then have "calls_by 0 (concat (map (\<lambda>(i, m). acts i m) rest)) = ([] :: unit wpool_op list)"
    "list_all worker_call (concat (map (\<lambda>(i, m). acts i m) rest) :: unit wpool_op label list)"
    "list_all worker_call (acts i m :: unit wpool_op label list)" for i m
    by (induction rest) auto
  then show "calls_by 0 (demo_schedule k l rest) = demo_calls 1" "list_all worker_call (demo_schedule k l rest)"
    by (simp_all add: demo_schedule_def demo_calls_def)
qed

lemma demo_schedule_follows: "follows (demo_calls 1) (demo_schedule k l rest)"
  by (simp add: follows_def)

text \<open>
  C34. The demo and the test over \<open>ArrayBQ\<close> pass: whenever the main thread has submitted its
  jobs and the drop of the pool has returned, the counter is the number of jobs; and until then
  somebody can act, unless a worker has not been given a thread. Whatever the schedule, the
  number of workers (0 asks the system) and the number of jobs below \<open>2^31\<close>.
\<close>

theorem array_demo_passes:
  assumes "array_demo size_of_job parallelism wanted n repeat = Some (s0, cs, asserts)"
    and "parallelism \<noteq> Some 0" and "0 < n" and "n < usize_mod" and "repeat < 2 ^ 31"
    and "run (over_machine abq_machine abq_ret (\<lambda>j. False)) ls s0 = Some s" and "follows cs ls"
  shows "(calls_by 0 ls = cs \<and> over_resting (pc (threads s ! 0)) \<longrightarrow>
      asserts (over_jobs_run (over_machine abq_machine abq_ret (\<lambda>j. False)) ls s0))
    \<and> ((\<forall>i ks. exec (over_machine abq_machine abq_ret (\<lambda>j. False)) (Run i ks) s = None)
        \<and> Unstarted \<notin> set (statuses (shared s)) \<longrightarrow> over_resting (pc (threads s ! 0)))"
proof -
  let ?M = "over_machine abq_machine abq_ret (\<lambda>j. False)" and ?w = "ensure_num_workers parallelism wanted"
  have s0: "s0 = over_start (abq_fresh (ensure_capacity 0)) ?w n" "cs = pool_program (replicate repeat ())"
    "asserts = counter_is repeat"
    using assms(1) by (simp_all add: array_demo_start demo_calls_program)
  note run = assms(6) [unfolded s0(1)] and follows = assms(7) [unfolded s0(2)]
  have w: "0 < ?w" using assms(2) by (rule some_worker)
  have b: "0 < ensure_capacity 0" by (simp add: ensure_capacity_def usize_max_def usize_mod_def)
  have ok: "abq_pool.over_ok (over_start (abq_fresh (ensure_capacity 0)) ?w n)"
    using assms(4) by (rule abq_pool_start)
  have abs: "over_abs abq_decided abq_abs Idle (over_start (abq_fresh (ensure_capacity 0)) ?w n)
      = wpool_start \<lparr>items = [], closed = False, bound = ensure_capacity 0\<rparr> ?w n"
    by (simp add: over_abs_start [OF abq_object_start] abq_abs_start)
  note over = abq_pool.program_over [OF run follows ok abs assms(3) w b]
  show ?thesis
    using over counter_is_count [OF _ assms(5)] unfolding s0 by blast
qed

theorem array_demo_passes_witness:
  "\<exists>s0 cs asserts s. array_demo 8 None 1 2 1 = Some (s0, cs, asserts)
    \<and> run (over_machine abq_machine abq_ret (\<lambda>j. False)) (demo_schedule 8 17 [(0, 9), (1, 8), (0, 2)]) s0 = Some s
    \<and> over_resting (pc (threads s ! 0))
    \<and> asserts (over_jobs_run (over_machine abq_machine abq_ret (\<lambda>j. False)) (demo_schedule 8 17 [(0, 9), (1, 8), (0, 2)]) s0)"
proof -
  let ?M = "over_machine abq_machine abq_ret (\<lambda>j. False)" and ?ls = "demo_schedule 8 17 [(0, 9), (1, 8), (0, 2)]"
  have w: "ensure_num_workers None 1 = 1" by (simp add: ensure_num_workers_def)
  obtain s where s: "run ?M ?ls (over_start (abq_fresh (ensure_capacity 0)) 1 2) = Some s"
    "map pc (threads s) = [AtPool (WDone (ClientRes DisposeDone)), AtPool (WDone ProcRes)]"
    by (simp add: demo_schedule_def pool_drop_def over_eval abq_eval usize_max_def usize_mod_def)
  have rest: "over_resting (pc (threads s ! 0))" using pcs_nth [OF s(2), of 0] by simp
  have demo: "array_demo 8 None 1 2 1 = Some (over_start (abq_fresh (ensure_capacity 0)) 1 2, demo_calls 1, counter_is 1)"
    by (simp only: array_demo_start w)
  show ?thesis
    using array_demo_passes [OF demo _ _ _ _ s(1) demo_schedule_follows] demo s(1) rest by (simp add: usize_mod_def)
qed

text \<open>
  C35. The demo and the test over \<open>LinkedBQ\<close> pass likewise: here no assumption on the calls is
  needed, since the program itself submits nothing once it disposes.
\<close>

theorem linked_demo_passes:
  assumes "linked_demo size_of_job parallelism wanted n repeat = Some (s0, cs, asserts)"
    and "parallelism \<noteq> Some 0" and "0 < n" and "n < usize_mod" and "repeat < 2 ^ 31"
    and "run (over_machine lbq_machine lbq_ret (\<lambda>j. False)) ls s0 = Some s" and "follows cs ls"
  shows "(calls_by 0 ls = cs \<and> over_resting (pc (threads s ! 0)) \<longrightarrow>
      asserts (over_jobs_run (over_machine lbq_machine lbq_ret (\<lambda>j. False)) ls s0))
    \<and> ((\<forall>i ks. exec (over_machine lbq_machine lbq_ret (\<lambda>j. False)) (Run i ks) s = None)
        \<and> Unstarted \<notin> set (statuses (shared s)) \<longrightarrow> over_resting (pc (threads s ! 0)))"
proof -
  let ?M = "over_machine lbq_machine lbq_ret (\<lambda>j. False)" and ?w = "ensure_num_workers parallelism wanted"
  have s0: "s0 = over_start (lbq_new 0) ?w n" "cs = pool_program (replicate repeat ())"
    "asserts = counter_is repeat"
    using assms(1) by (simp_all add: linked_demo_start demo_calls_program)
  note run = assms(6) [unfolded s0(1)] and follows = assms(7) [unfolded s0(2)]
  have w: "0 < ?w" using assms(2) by (rule some_worker)
  have b: "0 < ensure_capacity 0" by (simp add: ensure_capacity_def usize_max_def usize_mod_def)
  have ok: "lbq_pool.over_ok (ensure_capacity 0) (over_start (lbq_new 0) ?w n)"
    using assms(4) by (intro lbq_pool_start) simp_all
  have abs: "over_abs (\<lambda>_. lbq_decided) lbq_abs LIdle (over_start (lbq_new 0) ?w n)
      = wpool_start \<lparr>items = [], closed = False, bound = ensure_capacity 0\<rparr> ?w n"
    by (simp add: over_abs_start [OF lbq_object_start] lbq_abs_start)
  note over = lbq_pool.program_over [OF run follows ok abs assms(3) w b]
  show ?thesis
    using over counter_is_count [OF _ assms(5)] unfolding s0 by blast
qed

theorem linked_demo_passes_witness:
  "\<exists>s0 cs asserts s. linked_demo 8 None 1 2 1 = Some (s0, cs, asserts)
    \<and> run (over_machine lbq_machine lbq_ret (\<lambda>j. False)) (demo_schedule 15 19 [(0, 10), (1, 8), (0, 3)]) s0 = Some s
    \<and> over_resting (pc (threads s ! 0))
    \<and> asserts (over_jobs_run (over_machine lbq_machine lbq_ret (\<lambda>j. False)) (demo_schedule 15 19 [(0, 10), (1, 8), (0, 3)]) s0)"
proof -
  let ?M = "over_machine lbq_machine lbq_ret (\<lambda>j. False)" and ?ls = "demo_schedule 15 19 [(0, 10), (1, 8), (0, 3)]"
  have w: "ensure_num_workers None 1 = 1" by (simp add: ensure_num_workers_def)
  obtain s where s: "run ?M ?ls (over_start (lbq_new 0) 1 2) = Some s"
    "map pc (threads s) = [AtPool (WDone (ClientRes DisposeDone)), AtPool (WDone ProcRes)]"
    by (simp add: demo_schedule_def pool_drop_def over_eval lbq_eval usize_max_def usize_mod_def)
  have rest: "over_resting (pc (threads s ! 0))" using pcs_nth [OF s(2), of 0] by simp
  have demo: "linked_demo 8 None 1 2 1 = Some (over_start (lbq_new 0) 1 2, demo_calls 1, counter_is 1)"
    by (simp only: linked_demo_start w)
  show ?thesis
    using linked_demo_passes [OF demo _ _ _ _ s(1) demo_schedule_follows] demo s(1) rest by (simp add: usize_mod_def)
qed

end
