(* ===== verification/Connection.thy ===== *)
theory Connection
  imports Prelude "HOL-Library.Word"
begin

text \<open>
  A connection of the polling transport (\<open>crates/hio-transport/src/netpoll/connection.rs\<close>): a
  non-blocking stream and the bytes still to be written to it. The socket belongs to the
  operating system and is an argument (\<open>sock\<close>): what the \<open>k\<close>th write call answers to a slice of
  bytes, and what a read into a buffer of some length answers. \<open>head_len\<close> says how long the
  first of the two slices of the \<open>VecDeque\<close> is, which depends on where its ring wraps.
  \<open>sent\<close> collects the bytes that the stream has taken.
\<close>

section \<open>The stream\<close>

type_synonym byte = "8 word"

datatype io_error = EWouldBlock | EInterrupted | EOther nat

record sock =
  write_call :: "nat \<Rightarrow> byte list \<Rightarrow> io_error + nat"
  read_call :: "nat \<Rightarrow> nat \<Rightarrow> io_error + nat"
  head_len :: "nat \<Rightarrow> byte list \<Rightarrow> nat"

text \<open>
  The documented behaviour: a write takes at most the bytes it was given; the first slice of a
  nonempty deque is a nonempty prefix of it.
\<close>

definition sock_contract :: "sock \<Rightarrow> bool" where
  "sock_contract S \<longleftrightarrow>
     (\<forall>k xs n. write_call S k xs = Inr n \<longrightarrow> n \<le> length xs)
     \<and> (\<forall>k b. b \<noteq> [] \<longrightarrow> 0 < head_len S k b \<and> head_len S k b \<le> length b)"

record tcp_stream =
  attempts :: nat
  sent :: "byte list"

record connection =
  stream :: tcp_stream
  write_buf :: "byte list"

definition stream_write :: "sock \<Rightarrow> byte list \<Rightarrow> tcp_stream \<Rightarrow> tcp_stream \<times> (io_error + nat)" where
  "stream_write S bytes w =
     (let r = write_call S (attempts w) bytes
      in (w\<lparr>attempts := attempts w + 1,
            sent := sent w @ (case r of Inr n \<Rightarrow> take n bytes | Inl e \<Rightarrow> [])\<rparr>, r))"

section \<open>The operations\<close>

text \<open>\<open>Connection::new\<close>, given what \<open>set_nonblocking\<close> answers.\<close>

definition connection_new :: "io_error + unit \<Rightarrow> tcp_stream \<Rightarrow> io_error + connection" where
  "connection_new set_nonblocking w =
     (case set_nonblocking of Inl e \<Rightarrow> Inl e | Inr _ \<Rightarrow> Inr \<lparr>stream = w, write_buf = []\<rparr>)"

datatype ReadOutcome = Data nat | Idle | Eof

definition try_read :: "sock \<Rightarrow> nat \<Rightarrow> nat \<Rightarrow> ReadOutcome" where
  "try_read S k len =
     (case read_call S k len of
        Inr n \<Rightarrow> if n = 0 then Eof else Data n
      | Inl e \<Rightarrow> if e = EWouldBlock \<or> e = EInterrupted then Idle else Eof)"

definition append_buf :: "byte list \<Rightarrow> connection \<Rightarrow> connection" where
  "append_buf data c = c\<lparr>write_buf := write_buf c @ data\<rparr>"

text \<open>\<open>FlushOk True\<close>: bytes are still pending; \<open>FlushPanic\<close>: \<open>drain\<close> past the end.\<close>

datatype flush_res = FlushOk bool | FlushErr io_error | FlushPanic

partial_function (option) flush_buf :: "sock \<Rightarrow> connection \<Rightarrow> (connection \<times> flush_res) option" where
  "flush_buf S c =
     (if write_buf c = [] then Some (c, FlushOk False)
      else let head = take (head_len S (attempts (stream c)) (write_buf c)) (write_buf c)
        in case stream_write S head (stream c) of
          (w, Inr n) \<Rightarrow>
            if n = 0 then Some (c\<lparr>stream := w\<rparr>, FlushOk True)
            else if n > length (write_buf c) then Some (c\<lparr>stream := w\<rparr>, FlushPanic)
            else flush_buf S (c\<lparr>stream := w, write_buf := drop n (write_buf c)\<rparr>)
        | (w, Inl e) \<Rightarrow>
            if e = EWouldBlock then Some (c\<lparr>stream := w\<rparr>, FlushOk True)
            else if e = EInterrupted then flush_buf S (c\<lparr>stream := w\<rparr>)
            else Some (c\<lparr>stream := w\<rparr>, FlushErr e))"

section \<open>A session\<close>

text \<open>What the owner does with a connection: queue bytes, flush. The results of the flushes in order.\<close>

datatype conn_op = WriteBuf "byte list" | FlushBuf

fun session :: "sock \<Rightarrow> conn_op list \<Rightarrow> connection \<Rightarrow> (connection \<times> flush_res list) option" where
  "session S [] c = Some (c, [])"
| "session S (WriteBuf data # ops) c = session S ops (append_buf data c)"
| "session S (FlushBuf # ops) c =
     Option.bind (flush_buf S c) (\<lambda>(d, r). map_option (\<lambda>(e, rs). (e, r # rs)) (session S ops d))"

fun queued :: "conn_op list \<Rightarrow> byte list" where
  "queued [] = []"
| "queued (WriteBuf data # ops) = data @ queued ops"
| "queued (FlushBuf # ops) = queued ops"

section \<open>Flushing\<close>

definition flush_good :: "connection \<Rightarrow> connection \<Rightarrow> flush_res \<Rightarrow> bool" where
  "flush_good c d r \<longleftrightarrow> sent (stream d) @ write_buf d = sent (stream c) @ write_buf c
     \<and> r \<noteq> FlushPanic \<and> (r = FlushOk False \<longleftrightarrow> write_buf d = [])"

text \<open>
  \<open>flush_buf\<close> goes round the loop again on \<open>Interrupted\<close>, without a bound. The one way not to
  return is a socket that answers every further attempt at the same bytes with it.
\<close>

definition interrupted_forever :: "sock \<Rightarrow> connection \<Rightarrow> bool" where
  "interrupted_forever S c \<longleftrightarrow> write_buf c \<noteq> []
     \<and> (\<forall>m \<ge> attempts (stream c).
         write_call S m (take (head_len S m (write_buf c)) (write_buf c)) = Inl EInterrupted)"

lemma stream_write_attempts [simp]: "attempts (fst (stream_write S xs w)) = attempts w + 1"
  by (simp add: stream_write_def Let_def)

lemma stream_write_failed:
  "write_call S (attempts w) xs = Inl e \<Longrightarrow> sent (fst (stream_write S xs w)) = sent w"
  by (simp add: stream_write_def)

lemma interrupted_again:
  assumes "interrupted_forever S c"
  shows "interrupted_forever S (c\<lparr>stream := fst (stream_write S xs (stream c))\<rparr>)"
  using assms by (simp add: interrupted_forever_def)

lemma flush_interrupted:
  assumes "interrupted_forever S c"
  shows "flush_buf S c = None"
proof -
  have "\<not> interrupted_forever S c" if some: "flush_buf S c = Some x" for S c x
  proof (rule flush_buf.raw_induct [where P = "\<lambda>S c x. \<not> interrupted_forever S c", OF _ some])
    fix flush and S :: sock and c :: connection and x
    let ?h = "take (head_len S (attempts (stream c)) (write_buf c)) (write_buf c)"
    assume IH: "\<And>S c x. flush S c = Some x \<Longrightarrow> \<not> interrupted_forever S c"
      and body: "(if write_buf c = [] then Some (c, FlushOk False)
        else let head = ?h in case stream_write S head (stream c) of
          (w, Inr n) \<Rightarrow>
            if n = 0 then Some (c\<lparr>stream := w\<rparr>, FlushOk True)
            else if n > length (write_buf c) then Some (c\<lparr>stream := w\<rparr>, FlushPanic)
            else flush S (c\<lparr>stream := w, write_buf := drop n (write_buf c)\<rparr>)
        | (w, Inl e) \<Rightarrow>
            if e = EWouldBlock then Some (c\<lparr>stream := w\<rparr>, FlushOk True)
            else if e = EInterrupted then flush S (c\<lparr>stream := w\<rparr>)
            else Some (c\<lparr>stream := w\<rparr>, FlushErr e)) = Some x"
    show "\<not> interrupted_forever S c"
    proof
      assume int: "interrupted_forever S c"
      then have "write_call S (attempts (stream c)) ?h = Inl EInterrupted" and "write_buf c \<noteq> []"
        by (simp_all add: interrupted_forever_def)
      then have "flush S (c\<lparr>stream := fst (stream_write S ?h (stream c))\<rparr>) = Some x"
        using body by (simp add: stream_write_def)
      with IH interrupted_again [OF int] show False by blast
    qed
  qed
  with assms show ?thesis by (metis option.exhaust)
qed

text \<open>One attempt: the flush ends well here, or goes on with some bytes sent, or with none.\<close>

lemma flush_attempt:
  assumes ok: "sock_contract S" and "write_buf c \<noteq> []"
  defines "h \<equiv> take (head_len S (attempts (stream c)) (write_buf c)) (write_buf c)"
  obtains d r where "flush_buf S c = Some (d, r)" "flush_good c d r"
  | n where "flush_buf S c = flush_buf S (c\<lparr>stream := fst (stream_write S h (stream c)), write_buf := drop n (write_buf c)\<rparr>)"
      "0 < n" "sent (fst (stream_write S h (stream c))) @ drop n (write_buf c) = sent (stream c) @ write_buf c"
  | "write_call S (attempts (stream c)) h = Inl EInterrupted"
      "flush_buf S c = flush_buf S (c\<lparr>stream := fst (stream_write S h (stream c))\<rparr>)"
proof (cases "write_call S (attempts (stream c)) h")
  case (Inl e)
  show thesis
  proof (cases "e = EInterrupted")
    case True
    have "flush_buf S c = flush_buf S (c\<lparr>stream := fst (stream_write S h (stream c))\<rparr>)"
      using assms(2) Inl True by (subst flush_buf.simps) (simp add: h_def stream_write_def)
    with that(3) Inl True show thesis by simp
  next
    case False
    let ?d = "c\<lparr>stream := fst (stream_write S h (stream c))\<rparr>"
    have "flush_buf S c = Some (?d, if e = EWouldBlock then FlushOk True else FlushErr e)"
      using False assms(2) Inl by (subst flush_buf.simps) (simp add: h_def stream_write_def)
    with that(1) assms(2) stream_write_failed [OF Inl] show thesis by (simp add: flush_good_def)
  qed
next
  case (Inr n)
  have n: "n \<le> length h" using ok Inr by (auto simp: sock_contract_def)
  then have len: "n \<le> length (write_buf c)" "take n h = take n (write_buf c)"
    by (simp_all add: h_def min_absorb1)
  show thesis
  proof (cases "n = 0")
    case True
    then have "flush_buf S c = Some (c\<lparr>stream := fst (stream_write S h (stream c))\<rparr>, FlushOk True)"
      using assms(2) Inr by (subst flush_buf.simps) (simp add: h_def stream_write_def)
    with that(1) True Inr assms(2) show thesis by (simp add: flush_good_def stream_write_def)
  next
    case False
    have "flush_buf S c
        = flush_buf S (c\<lparr>stream := fst (stream_write S h (stream c)), write_buf := drop n (write_buf c)\<rparr>)"
      using False assms(2) Inr len(1) by (subst flush_buf.simps) (simp add: h_def stream_write_def)
    with that(2) False Inr len(2) show thesis by (simp add: stream_write_def)
  qed
qed

definition flush_outcome :: "sock \<Rightarrow> connection \<Rightarrow> (connection \<times> flush_res) option \<Rightarrow> bool" where
  "flush_outcome S c x \<longleftrightarrow> (case x of
     Some (d, r) \<Rightarrow> flush_good c d r
   | None \<Rightarrow> \<exists>d. interrupted_forever S d \<and> sent (stream d) @ write_buf d = sent (stream c) @ write_buf c)"

lemma flush_outcome_same:
  "sent (stream c') @ write_buf c' = sent (stream c) @ write_buf c \<Longrightarrow> flush_outcome S c' x \<Longrightarrow> flush_outcome S c x"
  by (auto simp: flush_outcome_def flush_good_def split: option.splits)

lemma flush_returns_or_interrupted:
  assumes ok: "sock_contract S"
  shows "flush_outcome S c (flush_buf S c)"
proof (induction "length (write_buf c)" arbitrary: c rule: less_induct)
  case outer: less
  show ?case
  proof (cases "write_buf c \<noteq> [] \<and> \<not> interrupted_forever S c")
    case True
    then obtain m where "attempts (stream c) \<le> m"
      "write_call S m (take (head_len S m (write_buf c)) (write_buf c)) \<noteq> Inl EInterrupted"
      by (auto simp: interrupted_forever_def)
    moreover have "write_buf c \<noteq> []" using True by simp
    ultimately show ?thesis
      using outer
    proof (induction "m - attempts (stream c)" arbitrary: c rule: less_induct)
      case (less c)
      from ok less.prems(3) show ?case
      proof (cases rule: flush_attempt)
        case (1 d r)
        then show ?thesis by (simp add: flush_outcome_def)
      next
        case (2 n)
        let ?c = "c\<lparr>stream := fst (stream_write S (take (head_len S (attempts (stream c)) (write_buf c)) (write_buf c))
            (stream c)), write_buf := drop n (write_buf c)\<rparr>"
        have "flush_outcome S ?c (flush_buf S ?c)"
          using less.prems(3) 2(2) by (intro less.prems(4)) simp
        with 2(1,3) show ?thesis using flush_outcome_same [of ?c c] by simp
      next
        case 3
        let ?c = "c\<lparr>stream := fst (stream_write S (take (head_len S (attempts (stream c)) (write_buf c)) (write_buf c))
            (stream c))\<rparr>"
        have "attempts (stream c) < m" using 3(1) less.prems(1,2) by (metis le_neq_implies_less)
        then have "m - attempts (stream ?c) < m - attempts (stream c)" "attempts (stream ?c) \<le> m" by simp_all
        then have "flush_outcome S ?c (flush_buf S ?c)"
        proof (rule less.hyps)
          show "write_call S m (take (head_len S m (write_buf ?c)) (write_buf ?c)) \<noteq> Inl EInterrupted" "write_buf ?c \<noteq> []"
            using less.prems(2,3) by simp_all
          show "flush_outcome S c' (flush_buf S c')" if "length (write_buf c') < length (write_buf ?c)" for c'
            using that by (intro less.prems(4)) simp
        qed
        with 3(2) stream_write_failed [OF 3(1)] show ?thesis using flush_outcome_same [of ?c c] by simp
      qed
    qed
  next
    case False
    show ?thesis
    proof (cases "write_buf c = []")
      case True
      then show ?thesis by (subst flush_buf.simps) (simp add: flush_outcome_def flush_good_def)
    next
      case nonempty: False
      with False have "interrupted_forever S c" by simp
      with flush_interrupted [OF this] show ?thesis by (auto simp: flush_outcome_def)
    qed
  qed
qed

text \<open>What holds after a session, or of the flush in it that does not return.\<close>

definition session_good :: "sock \<Rightarrow> conn_op list \<Rightarrow> connection \<Rightarrow> (connection \<times> flush_res list) option \<Rightarrow> bool" where
  "session_good S ops c x \<longleftrightarrow> (case x of
      Some (d, rs) \<Rightarrow> sent (stream d) @ write_buf d = sent (stream c) @ write_buf c @ queued ops
        \<and> FlushPanic \<notin> set rs
        \<and> (ops \<noteq> [] \<longrightarrow> last ops = FlushBuf \<longrightarrow> rs \<noteq> [] \<and> (last rs = FlushOk False \<longleftrightarrow> write_buf d = []))
    | None \<Rightarrow> \<exists>before after d. ops = before @ FlushBuf # after \<and> interrupted_forever S d
        \<and> sent (stream d) @ write_buf d = sent (stream c) @ write_buf c @ queued before)"

lemma session_later:
  assumes "session_good S ops d None" and "queued [op] = data"
    and "sent (stream d) @ write_buf d = sent (stream c) @ write_buf c @ data"
  shows "session_good S (op # ops) c None"
proof -
  from assms(1) obtain before after e where e: "ops = before @ FlushBuf # after" "interrupted_forever S e"
    "sent (stream e) @ write_buf e = sent (stream d) @ write_buf d @ queued before"
    by (auto simp: session_good_def)
  have "queued (op # before) = data @ queued before" using assms(2) by (cases op) auto
  then have "sent (stream e) @ write_buf e = sent (stream c) @ write_buf c @ queued (op # before)"
    using e(3) assms(3) by (metis append_assoc)
  moreover have "op # ops = (op # before) @ FlushBuf # after" using e(1) by simp
  ultimately show ?thesis using e(2) unfolding session_good_def option.case by blast
qed

lemma session_outcome:
  assumes ok: "sock_contract S"
  shows "session_good S ops c (session S ops c)"
proof (induction ops arbitrary: c)
  case Nil
  then show ?case by (simp add: session_good_def)
next
  case (Cons op ops)
  show ?case
  proof (cases op)
    case (WriteBuf data)
    have c: "sent (stream (append_buf data c)) @ write_buf (append_buf data c) = sent (stream c) @ write_buf c @ data"
      by (simp add: append_buf_def)
    show ?thesis
    proof (cases "session S ops (append_buf data c)")
      case None
      then have "session_good S (op # ops) c None"
        using Cons.IH [of "append_buf data c"] c WriteBuf
        by (intro session_later [where d = "append_buf data c" and data = data]) simp_all
      with None WriteBuf show ?thesis by simp
    next
      case (Some x)
      with Cons.IH [of "append_buf data c"] WriteBuf show ?thesis
        by (cases x) (auto simp: session_good_def append_buf_def)
    qed
  next
    case FlushBuf
    show ?thesis
    proof (cases "flush_buf S c")
      case None
      with flush_returns_or_interrupted [OF ok, of c] obtain d where "interrupted_forever S d"
        "sent (stream d) @ write_buf d = sent (stream c) @ write_buf c"
        by (auto simp: flush_outcome_def)
      moreover have "op # ops = [] @ FlushBuf # ops" using FlushBuf by simp
      ultimately have "session_good S (op # ops) c None"
        unfolding session_good_def option.case by (metis append_Nil2 queued.simps(1))
      with None FlushBuf show ?thesis by simp
    next
      case (Some x)
      obtain d r where x: "flush_buf S c = Some (d, r)" "flush_good c d r"
        using Some flush_returns_or_interrupted [OF ok, of c] by (cases x) (auto simp: flush_outcome_def)
      then have same: "sent (stream d) @ write_buf d = sent (stream c) @ write_buf c" "r \<noteq> FlushPanic"
        "r = FlushOk False \<longleftrightarrow> write_buf d = []" by (simp_all add: flush_good_def)
      show ?thesis
      proof (cases "session S ops d")
        case None
        then have "session_good S (op # ops) c None"
          using Cons.IH [of d] FlushBuf same(1) by (intro session_later [where d = d and data = "[]"]) simp_all
        with None FlushBuf x(1) show ?thesis by simp
      next
        case (Some y)
        obtain e rs where e: "session S ops d = Some (e, rs)" using Some by (cases y) auto
        then have "ops = [] \<Longrightarrow> e = d \<and> rs = []" by auto
        moreover have "sent (stream c) @ write_buf c @ zs = sent (stream d) @ write_buf d @ zs" for zs
          using same(1) by (metis append_assoc)
        ultimately show ?thesis
          using Cons.IH [of d] e x(1) FlushBuf same(2,3) by (cases "ops = []") (auto simp: session_good_def)
      qed
    qed
  qed
qed

section \<open>Properties\<close>

text \<open>
  C38. A connection is a reliable byte queue. In a session whose flushes all return, none panics,
  the bytes the stream has taken followed by those still queued are exactly the bytes queued so
  far, in order, through partial writes, refusals and errors alike, and a flush reports completion
  exactly when nothing is left. A flush can fail to return in one way only: the socket answers
  every further attempt at the bytes that are left with \<open>Interrupted\<close>; no byte is lost up to
  there. And such a socket does keep a flush from returning.
\<close>

theorem connection_session:
  assumes "sock_contract S"
  shows "(case session S ops c of
      Some (d, rs) \<Rightarrow> sent (stream d) @ write_buf d = sent (stream c) @ write_buf c @ queued ops
        \<and> FlushPanic \<notin> set rs
        \<and> (ops \<noteq> [] \<longrightarrow> last ops = FlushBuf \<longrightarrow> rs \<noteq> [] \<and> (last rs = FlushOk False \<longleftrightarrow> write_buf d = []))
    | None \<Rightarrow> \<exists>before after d. ops = before @ FlushBuf # after \<and> interrupted_forever S d
        \<and> sent (stream d) @ write_buf d = sent (stream c) @ write_buf c @ queued before)
    \<and> (interrupted_forever S c \<longrightarrow> flush_buf S c = None)"
proof (rule conjI [OF session_outcome [OF assms, unfolded session_good_def]])
  show "interrupted_forever S c \<longrightarrow> flush_buf S c = None" by (blast intro: flush_interrupted)
qed

text \<open>A socket that is interrupted once, then takes two bytes at a time, and blocks at the fourth call.\<close>

definition slow_sock :: sock where
  "slow_sock = \<lparr>write_call = (\<lambda>k xs. if k = 0 then Inl EInterrupted else if k = 3 then Inl EWouldBlock
      else Inr (min 2 (length xs))),
     read_call = (\<lambda>k n. Inl EWouldBlock), head_len = (\<lambda>k b. length b)\<rparr>"

text \<open>One that takes a byte and is interrupted for ever after.\<close>

definition dead_sock :: sock where
  "dead_sock = \<lparr>write_call = (\<lambda>k xs. if k = 0 then Inr (min 1 (length xs)) else Inl EInterrupted),
     read_call = (\<lambda>k n. Inl EWouldBlock), head_len = (\<lambda>k b. length b)\<rparr>"

abbreviation fresh_conn :: connection where
  "fresh_conn \<equiv> \<lparr>stream = \<lparr>attempts = 0, sent = []\<rparr>, write_buf = []\<rparr>"

theorem connection_session_witness:
  "(\<exists>d rs. session slow_sock [WriteBuf [1, 2, 3], WriteBuf [4, 5], FlushBuf, FlushBuf] fresh_conn = Some (d, rs)
      \<and> rs = [FlushOk True, FlushOk False] \<and> sent (stream d) @ write_buf d = [1, 2, 3, 4, 5] \<and> write_buf d = [])
    \<and> session dead_sock [WriteBuf [1, 2], FlushBuf] fresh_conn = None"
proof
  have ok: "sock_contract slow_sock" "sock_contract dead_sock"
    by (auto simp: sock_contract_def slow_sock_def dead_sock_def split: if_splits)
  let ?ops = "[WriteBuf [1, 2, 3], WriteBuf [4, 5], FlushBuf, FlushBuf]"
  have "\<exists>d. session slow_sock ?ops fresh_conn = Some (d, [FlushOk True, FlushOk False])"
    by (simp add: append_buf_def flush_buf.simps stream_write_def slow_sock_def)
  then obtain d where d: "session slow_sock ?ops fresh_conn = Some (d, [FlushOk True, FlushOk False])" by blast
  from connection_session [OF ok(1), of ?ops fresh_conn, unfolded d option.case prod.case]
  have "sent (stream d) @ write_buf d = [1, 2, 3, 4, 5] \<and> write_buf d = []" by auto
  with d show "\<exists>d rs. session slow_sock ?ops fresh_conn = Some (d, rs)
      \<and> rs = [FlushOk True, FlushOk False] \<and> sent (stream d) @ write_buf d = [1, 2, 3, 4, 5] \<and> write_buf d = []"
    by blast
  let ?c = "\<lparr>stream = \<lparr>attempts = 1, sent = [1]\<rparr>, write_buf = [2]\<rparr>"
  have "interrupted_forever dead_sock ?c" by (auto simp: interrupted_forever_def dead_sock_def)
  with connection_session [OF ok(2), of "[]" ?c] have "flush_buf dead_sock ?c = None" by blast
  moreover have "session dead_sock [WriteBuf [1, 2], FlushBuf] fresh_conn
      = Option.bind (flush_buf dead_sock ?c) (\<lambda>(d, r). Some (d, [r]))"
    by (simp add: append_buf_def) (subst flush_buf.simps, simp add: stream_write_def dead_sock_def)
  ultimately show "session dead_sock [WriteBuf [1, 2], FlushBuf] fresh_conn = None" by simp
qed

end
