(* ===== verification/Transport.thy ===== *)
theory Transport
  imports Connection
begin

text \<open>
  The shell of the transport (\<open>crates/hio-transport/src/lib.rs\<close>, \<open>netpoll.rs\<close>, \<open>netpoll/\<close>,
  \<open>udpoll.rs\<close>): starting a backend, the handles that send it commands, and the shutdown when
  the \<open>Transport\<close> is dropped. The reactor's event loop has no body yet, and the other backends
  are \<open>todo!()\<close>; the model says what the code does as it stands. What the socket calls answer is
  an argument; the command channel is \<open>std::sync::mpsc\<close>.
\<close>

section \<open>Data\<close>

type_synonym ConnId = "64 word"

datatype TransportCommand = Send ConnId "byte list" | Close ConnId | Shutdown

datatype BackendKind = Reactor | ThreadPerConnection

datatype UdpBackendKind = UnreliableReactor | UnreliableThreadPerSocket | ReliableReactor

datatype InboxMsg = Connected | InboxData "byte list" | Closed

record inbox =
  inbox_id :: ConnId
  inbox_queue :: "InboxMsg list"
  inbox_running :: bool

definition inbox_new :: "ConnId \<Rightarrow> inbox" where
  "inbox_new i = \<lparr>inbox_id = i, inbox_queue = [], inbox_running = False\<rparr>"

record entry_rec =
  conn :: connection
  conn_inbox :: inbox

record 'l reactor_core =
  listener :: 'l
  conn_map :: "ConnId \<rightharpoonup> entry_rec"
  next_id :: ConnId
  scratch :: "byte list"

record 'sa transport =
  local_addr :: 'sa
  backend_handle :: "bool option"

text \<open>
  \<open>backend_handle\<close> is the \<open>ReactorHandle\<close>, by whether it still has its join handle. The
  world: the command channel with its receiver, the reactor's thread, the \<open>Transport\<close> until it
  has been dropped, and whether its drop is waiting for the thread.
\<close>

datatype 'l reactor_thread = InLoop "'l reactor_core" | Ended

record ('l, 'sa) world =
  commands :: "TransportCommand list"
  receiver_alive :: bool
  reactor :: "'l reactor_thread"
  transport_of :: "'sa transport option"
  joining :: bool

section \<open>Starting\<close>

definition reactor_new :: "'l \<Rightarrow> 'l reactor_core" where
  "reactor_new l = \<lparr>listener = l, conn_map = Map.empty, next_id = 1, scratch = replicate (64 * 1024) 0\<rparr>"

datatype ('l, 'sa) run_result = RunOk "('l, 'sa) world" | RunErr io_error | RunPanic

text \<open>
  \<open>reactor::spawn\<close>: \<open>expect\<close> on \<open>set_nonblocking\<close>, then \<open>thread::spawn\<close>, which panics when
  the system refuses the thread (\<open>spawned\<close> is its answer). \<open>None\<close> is a panic.
\<close>

definition reactor_spawn :: "('l \<Rightarrow> io_error + unit) \<Rightarrow> bool \<Rightarrow> 'l \<Rightarrow> 'l reactor_thread option" where
  "reactor_spawn nonblocking spawned l =
     (case nonblocking l of
        Inl e \<Rightarrow> None
      | Inr _ \<Rightarrow> if spawned then Some (InLoop (reactor_new l)) else None)"

definition netpoll_run ::
    "('a \<Rightarrow> io_error + 'l) \<Rightarrow> ('l \<Rightarrow> io_error + 'sa) \<Rightarrow> ('l \<Rightarrow> io_error + unit) \<Rightarrow> bool \<Rightarrow> 'a \<Rightarrow> BackendKind
      \<Rightarrow> ('l, 'sa) run_result" where
  "netpoll_run bind addr_of nonblocking spawned addr bk =
     (case bind addr of
        Inl e \<Rightarrow> RunErr e
      | Inr l \<Rightarrow>
          (case addr_of l of
             Inl e \<Rightarrow> RunErr e
           | Inr sa \<Rightarrow>
               (case bk of
                  Reactor \<Rightarrow>
                    (case reactor_spawn nonblocking spawned l of
                       None \<Rightarrow> RunPanic
                     | Some th \<Rightarrow> RunOk \<lparr>commands = [], receiver_alive = True, reactor = th,
                         transport_of = Some \<lparr>local_addr = sa, backend_handle = Some True\<rparr>, joining = False\<rparr>)
                | ThreadPerConnection \<Rightarrow> RunPanic)))"

text \<open>\<open>udpoll::run\<close> binds the socket and then panics, whatever the backend.\<close>

definition udpoll_run ::
    "('a \<Rightarrow> io_error + 'l) \<Rightarrow> ('l \<Rightarrow> io_error + 'sa) \<Rightarrow> 'a \<Rightarrow> UdpBackendKind \<Rightarrow> ('l, 'sa) run_result" where
  "udpoll_run bind addr_of addr bk =
     (case bind addr of
        Inl e \<Rightarrow> RunErr e
      | Inr l \<Rightarrow> (case addr_of l of Inl e \<Rightarrow> RunErr e | Inr sa \<Rightarrow> RunPanic))"

section \<open>Steps\<close>

text \<open>
  A handle ignores the error of a send whose receiver is gone. When \<open>run_loop\<close> returns, the
  core is dropped and the receiver with it, so the channel's commands are discarded.
\<close>

definition channel_send :: "TransportCommand \<Rightarrow> ('l, 'sa) world \<Rightarrow> ('l, 'sa) world" where
  "channel_send c s = (if receiver_alive s then s\<lparr>commands := commands s @ [c]\<rparr> else s)"

definition handle_send :: "ConnId \<Rightarrow> byte list \<Rightarrow> ('l, 'sa) world \<Rightarrow> ('l, 'sa) world" where
  "handle_send i data s = channel_send (Send i data) s"

definition handle_close :: "ConnId \<Rightarrow> ('l, 'sa) world \<Rightarrow> ('l, 'sa) world" where
  "handle_close i s = channel_send (Close i) s"

definition run_loop :: "('l, 'sa) world \<Rightarrow> ('l, 'sa) world" where
  "run_loop s = s\<lparr>reactor := Ended, receiver_alive := False, commands := []\<rparr>"

text \<open>
  \<open>Drop for Transport\<close> takes the backend handle and shuts it down; \<open>ReactorHandle::shutdown\<close> takes
  the join handle and waits for the thread. Without a handle the drop is over at once.
\<close>

definition transport_drop :: "'sa transport \<Rightarrow> ('l, 'sa) world \<Rightarrow> ('l, 'sa) world" where
  "transport_drop t s =
     (case backend_handle t of
        Some True \<Rightarrow> s\<lparr>transport_of := Some (t\<lparr>backend_handle := None\<rparr>), joining := True\<rparr>
      | _ \<Rightarrow> s\<lparr>transport_of := None\<rparr>)"

datatype event = HandleSend ConnId "byte list" | HandleClose ConnId | LoopReturns | DropBegins | JoinReturns

inductive transport_step :: "event \<Rightarrow> ('l, 'sa) world \<Rightarrow> ('l, 'sa) world \<Rightarrow> bool" where
  send: "transport_step (HandleSend i data) s (handle_send i data s)"
| close: "transport_step (HandleClose i) s (handle_close i s)"
| loop: "reactor s = InLoop core \<Longrightarrow> transport_step LoopReturns s (run_loop s)"
| drop: "transport_of s = Some t \<Longrightarrow> \<not> joining s \<Longrightarrow> transport_step DropBegins s (transport_drop t s)"
| join: "joining s \<Longrightarrow> reactor s = Ended \<Longrightarrow>
    transport_step JoinReturns s (s\<lparr>joining := False, transport_of := None\<rparr>)"

inductive_cases send_stepE: "transport_step (HandleSend i data) s t"
inductive_cases close_stepE: "transport_step (HandleClose i) s t"
inductive_cases loop_stepE: "transport_step LoopReturns s t"
inductive_cases drop_stepE: "transport_step DropBegins s t"
inductive_cases join_stepE: "transport_step JoinReturns s t"

lemmas transport_elims = send_stepE close_stepE loop_stepE drop_stepE join_stepE

inductive transport_steps :: "event list \<Rightarrow> ('l, 'sa) world \<Rightarrow> ('l, 'sa) world \<Rightarrow> bool" where
  none: "transport_steps [] s s"
| more: "transport_steps es s t \<Longrightarrow> transport_step e t u \<Longrightarrow> transport_steps (es @ [e]) s u"

section \<open>The life of a transport\<close>

fun command_of :: "event \<Rightarrow> TransportCommand list" where
  "command_of (HandleSend i data) = [Send i data]"
| "command_of (HandleClose i) = [Close i]"
| "command_of e = []"

definition world_ok :: "event list \<Rightarrow> ('l, 'sa) world \<Rightarrow> bool" where
  "world_ok es s \<longleftrightarrow>
     (reactor s = Ended \<longleftrightarrow> LoopReturns \<in> set es) \<and> (receiver_alive s \<longleftrightarrow> reactor s \<noteq> Ended)
     \<and> commands s = (if reactor s = Ended then [] else concat (map command_of es))
     \<and> (case transport_of s of
          None \<Rightarrow> reactor s = Ended \<and> \<not> joining s
        | Some t \<Rightarrow> backend_handle t = (if joining s then None else Some True))
     \<and> (\<forall>core. reactor s = InLoop core \<longrightarrow> next_id core = 1 \<and> conn_map core = Map.empty)"

lemma netpoll_run_ok: "netpoll_run bind addr_of nonblocking spawned addr bk = RunOk s \<Longrightarrow> world_ok [] s"
  by (auto simp: netpoll_run_def reactor_spawn_def reactor_new_def world_ok_def
      split: sum.splits BackendKind.splits option.splits if_splits)

lemmas transport_defs = handle_send_def handle_close_def channel_send_def run_loop_def transport_drop_def

lemma world_ok_step: "transport_step e s t \<Longrightarrow> world_ok es s \<Longrightarrow> world_ok (es @ [e]) t"
  by (cases e) (auto simp: world_ok_def transport_defs elim!: transport_elims split: option.splits if_splits)

lemma world_ok_steps: "transport_steps es s t \<Longrightarrow> world_ok [] s \<Longrightarrow> world_ok es t"
  by (induction rule: transport_steps.induct) (auto intro: world_ok_step)

text \<open>
  C39. The life of a transport that \<open>netpoll::run\<close> has started: while the reactor's loop runs, the
  commands of all handles are queued in the order they were sent; once it has returned they are
  discarded and later ones ignored. When the drop is over the reactor's thread has ended; a drop
  waits for nothing but that thread, which can always end, so no drop hangs.
\<close>

theorem transport_life:
  assumes "netpoll_run bind addr_of nonblocking spawned addr bk = RunOk s0" and "transport_steps es s0 s"
  shows "commands s = (if LoopReturns \<in> set es then [] else concat (map command_of es))
    \<and> (transport_of s = None \<longrightarrow> reactor s = Ended \<and> \<not> receiver_alive s)
    \<and> (joining s \<longrightarrow> (\<exists>fs t. transport_steps (es @ fs) s0 t \<and> transport_of t = None \<and> set fs \<subseteq> {LoopReturns, JoinReturns}))"
proof -
  have ok: "world_ok es s" using world_ok_steps [OF assms(2) netpoll_run_ok [OF assms(1)]] .
  have "\<exists>fs t. transport_steps (es @ fs) s0 t \<and> transport_of t = None \<and> set fs \<subseteq> {LoopReturns, JoinReturns}"
    if j: "joining s"
  proof (cases "reactor s")
    case Ended
    from transport_steps.more [OF assms(2) transport_step.join [OF j Ended]]
    show ?thesis by (intro exI [of _ "[JoinReturns]"] exI) auto
  next
    case (InLoop core)
    have "transport_steps (es @ [LoopReturns]) s0 (run_loop s)"
      using transport_steps.more [OF assms(2) transport_step.loop [OF InLoop]] .
    moreover have "joining (run_loop s)" "reactor (run_loop s) = Ended" using j by (simp_all add: run_loop_def)
    ultimately have "transport_steps ((es @ [LoopReturns]) @ [JoinReturns]) s0
        ((run_loop s)\<lparr>joining := False, transport_of := None\<rparr>)"
      by (blast intro: transport_steps.more transport_step.join)
    then show ?thesis by (intro exI [of _ "[LoopReturns, JoinReturns]"] exI) auto
  qed
  with ok show ?thesis by (auto simp: world_ok_def split: option.splits)
qed

text \<open>A command is sent, the drop begins, the loop returns, the join too.\<close>

theorem transport_life_witness:
  "\<exists>s0 s. netpoll_run Inr Inr (\<lambda>l. Inr ()) True (5 :: nat) Reactor = RunOk s0
    \<and> transport_steps [HandleSend 1 [2], DropBegins] s0 s \<and> joining s \<and> commands s = [Send 1 [2]]"
proof -
  obtain s0 where s0: "netpoll_run Inr Inr (\<lambda>l. Inr ()) True (5 :: nat) Reactor = RunOk s0"
    and t: "transport_of s0 = Some \<lparr>local_addr = 5, backend_handle = Some True\<rparr>" "\<not> joining s0"
    by (simp add: netpoll_run_def reactor_spawn_def)
  let ?t = "\<lparr>local_addr = 5, backend_handle = Some True\<rparr> :: nat transport"
  have "transport_of (handle_send 1 [2] s0) = Some ?t" "\<not> joining (handle_send 1 [2] s0)"
    using t by (simp_all add: transport_defs)
  then have "transport_steps ([] @ [HandleSend 1 [2]] @ [DropBegins]) s0 (transport_drop ?t (handle_send 1 [2] s0))"
    unfolding append_assoc [symmetric] by (blast intro: transport_steps.intros transport_step.intros)
  then have steps: "transport_steps [HandleSend 1 [2], DropBegins] s0 (transport_drop ?t (handle_send 1 [2] s0))" by simp
  moreover have "joining (transport_drop ?t (handle_send 1 [2] s0))" by (simp add: transport_drop_def)
  ultimately show ?thesis using s0 transport_life [OF s0 steps] by auto
qed

end
