(* ===== verification/Ffi.thy ===== *)
theory Ffi
  imports HioCore
begin

text \<open>
  The C interface (\<open>crates/hio/src/ffi.rs\<close>, \<open>ffi_support.rs\<close>) with the two empty structs of
  \<open>crates/hio-runtime/src/lib.rs\<close> it hands out. A call runs in one thread and cannot unwind into
  C: the guard \<open>ffi_wrap_safe\<close> turns an error or a panic into a fallback value and the
  thread's last error. Pointers are addresses, 0 is null. \<open>HioRuntimeConfig\<close> and
  \<open>HioRuntime\<close> have no fields, so their boxes allocate nothing: \<open>Box::into_raw\<close> gives the
  dangling, aligned, non-null address 1, and dropping the box frees nothing.
\<close>

section \<open>The guard\<close>

datatype panic_payload = StrPayload string | StringPayload string | OtherPayload

fun panic_message :: "panic_payload \<Rightarrow> string" where
  "panic_message (StrPayload s) = s"
| "panic_message (StringPayload s) = s"
| "panic_message OtherPayload = ''unknown panic''"

record ffi_state =
  errors :: last_errors
  printed :: "string list"

datatype 'r outcome = Returns "HioLastError + 'r" | Panics panic_payload

definition put_error :: "tid \<Rightarrow> HioLastError \<Rightarrow> ffi_state \<Rightarrow> ffi_state" where
  "put_error i e m = m\<lparr>errors := set_last_error i e (errors m)\<rparr>"

definition ffi_wrap_safe ::
    "tid \<Rightarrow> 'r \<Rightarrow> (ffi_state \<Rightarrow> ffi_state \<times> 'r outcome) \<Rightarrow> ffi_state \<Rightarrow> ffi_state \<times> 'r" where
  "ffi_wrap_safe i fallback logic m =
     (case logic (put_error i Success m) of
        (m', Returns (Inr v)) \<Rightarrow> (m', v)
      | (m', Returns (Inl e)) \<Rightarrow> (put_error i e m', fallback)
      | (m', Panics p) \<Rightarrow> (put_error i Failed (m'\<lparr>printed := printed m' @ [panic_message p]\<rparr>), fallback))"

section \<open>The functions\<close>

definition null :: nat where
  "null = 0"

datatype HioRuntimeConfig = HioRuntimeConfig

datatype HioRuntime = HioRuntime

definition runtime_new :: "HioRuntimeConfig \<Rightarrow> HioRuntime" where
  "runtime_new cfg = HioRuntime"

definition zst_box :: "'a \<Rightarrow> nat" where
  "zst_box v = 1"

definition hio_create_config :: "tid \<Rightarrow> ffi_state \<Rightarrow> ffi_state \<times> nat" where
  "hio_create_config i = ffi_wrap_safe i null (\<lambda>m. (m, Returns (Inr (zst_box HioRuntimeConfig))))"

definition hio_destroy_config :: "tid \<Rightarrow> nat \<Rightarrow> ffi_state \<Rightarrow> ffi_state \<times> bool" where
  "hio_destroy_config i config = ffi_wrap_safe i False (\<lambda>m.
     (m, if config = null then Returns (Inr False) else Returns (Inr True)))"

definition hio_create_runtime :: "tid \<Rightarrow> nat \<Rightarrow> ffi_state \<Rightarrow> ffi_state \<times> nat" where
  "hio_create_runtime i config = ffi_wrap_safe i null (\<lambda>m.
     (m, if config = null then Returns (Inl InvalidParam) else Returns (Inr (zst_box (runtime_new HioRuntimeConfig)))))"

definition hio_destroy_runtime :: "tid \<Rightarrow> nat \<Rightarrow> ffi_state \<Rightarrow> ffi_state \<times> bool" where
  "hio_destroy_runtime i runtime = ffi_wrap_safe i False (\<lambda>m.
     (m, if runtime = null then Returns (Inr False) else Returns (Inr True)))"

definition hio_get_last_error :: "tid \<Rightarrow> ffi_state \<Rightarrow> ffi_state \<times> HioLastError" where
  "hio_get_last_error i m = (m, get_last_error i (errors m))"

definition hio_get_version :: "ffi_state \<Rightarrow> ffi_state \<times> nat" where
  "hio_get_version m = (m, null)"

section \<open>A program of calls\<close>

datatype ffi_op =
    CreateConfig | DestroyConfig nat | CreateRuntime nat | DestroyRuntime nat | LastError | Version
  | Guarded "ffi_state \<Rightarrow> ffi_state \<times> unit outcome"

datatype ffi_res = PtrRes nat | BoolRes bool | ErrRes HioLastError | UnitRes

text \<open>\<open>Guarded\<close> stands for any further function wrapped by the guard.\<close>

fun ffi_call :: "tid \<Rightarrow> ffi_op \<Rightarrow> ffi_state \<Rightarrow> ffi_state \<times> ffi_res" where
  "ffi_call i CreateConfig m = map_prod id PtrRes (hio_create_config i m)"
| "ffi_call i (DestroyConfig p) m = map_prod id BoolRes (hio_destroy_config i p m)"
| "ffi_call i (CreateRuntime p) m = map_prod id PtrRes (hio_create_runtime i p m)"
| "ffi_call i (DestroyRuntime p) m = map_prod id BoolRes (hio_destroy_runtime i p m)"
| "ffi_call i LastError m = map_prod id ErrRes (hio_get_last_error i m)"
| "ffi_call i Version m = map_prod id PtrRes (hio_get_version m)"
| "ffi_call i (Guarded logic) m = map_prod id (\<lambda>_. UnitRes) (ffi_wrap_safe i () logic m)"

fun ffi_run :: "(tid \<times> ffi_op) list \<Rightarrow> ffi_state \<Rightarrow> ffi_state \<times> ffi_res list" where
  "ffi_run [] m = (m, [])"
| "ffi_run ((i, op) # cs) m =
     (case ffi_call i op m of (m', r) \<Rightarrow> map_prod id (\<lambda>rs. r # rs) (ffi_run cs m'))"

text \<open>
  What is promised of the last error: it is the outcome of the thread's most recent guarded
  call, whatever other threads call in between. \<open>verdict\<close> is the outcome of a call, \<open>None\<close>
  for the two that are not guarded; logic that keeps the last errors alone has a fixed one.
\<close>

definition settled :: "(ffi_state \<Rightarrow> ffi_state \<times> unit outcome) \<Rightarrow> unit outcome \<Rightarrow> bool" where
  "settled logic out \<longleftrightarrow> (\<forall>m. errors (fst (logic m)) = errors m \<and> snd (logic m) = out)"

fun well_behaved :: "ffi_op \<Rightarrow> bool" where
  "well_behaved (Guarded logic) = (\<exists>out. settled logic out)"
| "well_behaved op = True"

definition start_state :: ffi_state where
  "start_state = \<lparr>errors = no_errors, printed = []\<rparr>"

fun outcome_error :: "'r outcome \<Rightarrow> HioLastError" where
  "outcome_error (Returns (Inr v)) = Success"
| "outcome_error (Returns (Inl e)) = e"
| "outcome_error (Panics p) = Failed"

fun verdict :: "ffi_op \<Rightarrow> HioLastError option" where
  "verdict LastError = None"
| "verdict Version = None"
| "verdict (CreateRuntime p) = Some (if p = null then InvalidParam else Success)"
| "verdict (Guarded logic) = Some (outcome_error (snd (logic start_state)))"
| "verdict op = Some Success"

fun latest :: "tid \<Rightarrow> (tid \<times> ffi_op) list \<Rightarrow> HioLastError \<Rightarrow> HioLastError" where
  "latest i [] e = e"
| "latest i ((j, op) # cs) e =
     latest i cs (if j = i then (case verdict op of None \<Rightarrow> e | Some v \<Rightarrow> v) else e)"

lemma wrap_error:
  assumes "settled logic out"
  shows "get_last_error j (errors (fst (ffi_wrap_safe i fallback logic m)))
    = (if j = i then outcome_error out else get_last_error j (errors m))"
proof -
  obtain m' where "logic (put_error i Success m) = (m', out)" "errors m' = errors (put_error i Success m)"
    using assms by (metis prod.collapse settled_def)
  then show ?thesis
    by (cases out rule: outcome_error.cases) (simp_all add: ffi_wrap_safe_def put_error_def)
qed

lemma ffi_call_error:
  assumes "well_behaved op"
  shows "get_last_error j (errors (fst (ffi_call i op m)))
    = (if j = i then (case verdict op of None \<Rightarrow> get_last_error j (errors m) | Some v \<Rightarrow> v)
       else get_last_error j (errors m))"
proof (cases op)
  case (Guarded logic)
  with assms obtain out where out: "settled logic out" by auto
  then have "snd (logic start_state) = out" by (simp add: settled_def)
  with Guarded wrap_error [OF out, of j i "()" m] show ?thesis by simp
qed (simp_all add: hio_create_config_def hio_destroy_config_def hio_create_runtime_def
    hio_destroy_runtime_def hio_get_last_error_def hio_get_version_def ffi_wrap_safe_def put_error_def)

lemma ffi_run_error:
  "\<forall>(i, op) \<in> set cs. well_behaved op \<Longrightarrow>
    get_last_error i (errors (fst (ffi_run cs m))) = latest i cs (get_last_error i (errors m))"
proof (induction cs arbitrary: m)
  case (Cons c cs)
  obtain j op where c: "c = (j, op)" by (cases c)
  obtain m' r where call: "ffi_call j op m = (m', r)" by (cases "ffi_call j op m")
  have "get_last_error i (errors m')
      = (if i = j then (case verdict op of None \<Rightarrow> get_last_error i (errors m) | Some v \<Rightarrow> v)
         else get_last_error i (errors m))"
    using ffi_call_error [of op i j m] Cons.prems c call by simp
  with Cons.IH [of m'] Cons.prems c call show ?case by (auto split: option.splits)
qed simp

lemma ffi_run_append:
  "ffi_run (cs @ ds) m = (let (m', rs) = ffi_run cs m; (m'', rs') = ffi_run ds m' in (m'', rs @ rs'))"
  by (induction cs arbitrary: m) (auto simp: Let_def split: prod.splits)

section \<open>Property\<close>

text \<open>
  C40. The last error of the C interface: after any sequence of calls by any threads, a thread that
  asks gets the outcome of its own most recent guarded call (\<open>Success\<close> before the first):
  \<open>Success\<close> for a value, the error for an error, \<open>Failed\<close> for a panic, \<open>InvalidParam\<close> for a
  runtime over a null configuration. Asking does not change it, nor do other threads.
\<close>

theorem ffi_last_error:
  assumes "\<forall>(i, op) \<in> set cs. well_behaved op"
  shows "snd (ffi_run (cs @ [(i, LastError)]) start_state)
    = snd (ffi_run cs start_state) @ [ErrRes (latest i cs Success)]"
proof -
  have "get_last_error i (errors start_state) = Success"
    by (simp add: start_state_def get_last_error_def no_errors_def)
  then have "get_last_error i (errors (fst (ffi_run cs start_state))) = latest i cs Success"
    using ffi_run_error [OF assms] by simp
  then show ?thesis
    by (cases "ffi_run cs start_state") (simp add: ffi_run_append hio_get_last_error_def)
qed

text \<open>Thread 0 fails on a null configuration, thread 1 succeeds, a guarded function of thread 2 panics.\<close>

theorem ffi_last_error_witness:
  "let calls = [(0, CreateRuntime 0), (1, CreateConfig), (2, Guarded (\<lambda>m. (m, Panics OtherPayload))), (0, LastError)]
   in snd (ffi_run (calls @ [(0, LastError)]) start_state)
        = snd (ffi_run calls start_state) @ [ErrRes InvalidParam]
      \<and> latest 2 calls Success = Failed"
proof -
  let ?calls = "[(0, CreateRuntime 0), (1, CreateConfig), (2, Guarded (\<lambda>m. (m, Panics OtherPayload))), (0, LastError)]"
  have "settled (\<lambda>m. (m, Panics OtherPayload)) (Panics OtherPayload)" by (simp add: settled_def)
  then have "\<forall>(i, op) \<in> set ?calls. well_behaved op" by auto
  from ffi_last_error [OF this, of 0] show ?thesis by (simp add: null_def)
qed

end
