(* ===== verification/Spec2Isabelle.thy ===== *)
theory Spec2Isabelle
  imports ArrayProps LinkedProps SemaphoreAgree TaskTests QueueTests PoolDemo Transport Ffi
begin

text \<open>
  A model of \<open>hio\<close>, a library of concurrency primitives in Rust: blocking queues, semaphores,
  thread pools, the beginnings of a polling transport and a C interface.

  \<^bold>\<open>The program and the theories.\<close> Paths are under \<open>crates/\<close>.

  \<^item> \<open>hio-core/src/lib.rs\<close>, the error codes and the thread-local last error: \<open>HioCore\<close>.

  \<^item> \<open>hio-concurrent/src/bq.rs\<close>, the trait of the blocking queues, their types and the counters
    of waiting threads: \<open>Bq\<close>, which also holds the sequential queue \<open>bq_spec\<close> that the two
    implementations refine. \<open>Waits\<close> has the points of a condition-variable wait, shared by both.

  \<^item> \<open>bq/array_bq.rs\<close>, a deque under one mutex with two condition variables: \<open>ArrayBQ\<close> (one
    function per method, one equation per atomic action), \<open>ArrayInv\<close>, \<open>ArrayLin\<close>,
    \<open>ArrayWake\<close>, \<open>ArrayProps\<close>.

  \<^item> \<open>bq/linked_bq.rs\<close>, a linked list with a lock for each end and an atomic count between them:
    \<open>LinkedBQ\<close> (the nodes in an explicit heap), \<open>LinkedHeap\<close> (the shape of the list,
    and \<open>Drop\<close>), \<open>LinkedInv\<close>, \<open>LinkedLin\<close>, \<open>LinkedWake\<close>, \<open>LinkedProps\<close>.

  \<^item> \<open>futex.rs\<close>, \<open>futex/linux.rs\<close>, \<open>futex/mswin.rs\<close>, the futex word and what the two platform
    layers hand to the system: \<open>Futex\<close>.

  \<^item> \<open>semaphore.rs\<close>, the trait, with the two sequential semaphores: \<open>Semaphores\<close>;
    \<open>semaphore/futex_semaphore.rs\<close>: \<open>FutexSem\<close>, \<open>FutexSemInv\<close>, \<open>FutexSemProps\<close>;
    \<open>semaphore/condvar_semaphore.rs\<close>: \<open>CondvarSem\<close>, \<open>CondvarSemInv\<close>, \<open>CondvarSemProps\<close>;
    that the two agree: \<open>SemaphoreAgree\<close>.

  \<^item> \<open>executor.rs\<close>, the trait and the constructor function: \<open>Executors\<close>;
    \<open>executor/thread_per_task.rs\<close>: \<open>TaskPool\<close>, \<open>TaskPoolInv\<close>, \<open>TaskPoolWake\<close>,
    \<open>TaskPoolProps\<close>, its unit tests \<open>TaskTests\<close>; \<open>executor/thread_pool.rs\<close>: \<open>WorkerPool\<close>, \<open>WorkerPoolInv\<close>,
    \<open>WorkerPoolProps\<close>. The same pool over a queue that is itself a concurrent object:
    \<open>PoolOver\<close>, \<open>PoolOverSim\<close>, and over each of the two queues: \<open>PoolQueues\<close>.

  \<^item> The demo \<open>hio/src/main.rs\<close> and the unit tests of \<open>thread_pool.rs\<close>: \<open>PoolPrograms\<close> (a program
    that submits and then drops the pool, over any job queue), \<open>PoolServed\<close> (the same over the code
    of a queue), \<open>PoolDemo\<close>.

  \<^item> The unit tests in \<open>bq/array_bq.rs\<close> and \<open>bq/linked_bq.rs\<close>: \<open>Clients\<close> (programs of several
    threads that call a queue, share counters and drop the queue), \<open>QueueClients\<close> (the two queues
    serve them), \<open>StressTests\<close> (the tests with four producers and four consumers), \<open>QueueTests\<close>.

  \<^item> \<open>hio-transport/src/netpoll/connection.rs\<close>, reads, partial writes and the write buffer:
    \<open>Connection\<close>; the rest of the crate as far as it is written, from \<open>netpoll::run\<close> to the drop
    of a \<open>Transport\<close>: \<open>Transport\<close>.

  \<^item> \<open>hio/src/ffi.rs\<close>, \<open>hio/src/ffi_support.rs\<close> and the empty structs of
    \<open>hio-runtime/src/lib.rs\<close>: \<open>Ffi\<close>.

  \<open>Prelude\<close> has the arithmetic of wrapping counters and sums over threads; \<open>Threads\<close> the
  scheduler; \<open>Contracts\<close> the locales that the components discharge.

  \<^bold>\<open>How the code is modelled.\<close> A concurrent component is a \<open>machine\<close>: its shared state is a
  record with the fields of the struct, a method in progress is a program point, and \<open>advance\<close>
  performs one atomic action of a thread: a load, an exchange, taking or releasing a mutex, a
  notification. \<open>exec\<close> carries out a label of the scheduler (a thread begins a method, a thread
  takes an action, a spurious wake-up, time passes), \<open>run\<close> a list of them. The theorems
  quantify over every schedule and every number of threads; counters keep their width, with the
  wrap-around written out, and each bound on the threads is a hypothesis of the theorem that
  needs it. Timeouts are spurious wake-ups followed by the code's own test of the clock.

  \<^bold>\<open>What the lemmas show.\<close> The \<open>Inv\<close> theories: a shared invariant, what holds at each
  program point, and mutual exclusion (locales \<open>guarded\<close>, \<open>mutex\<close>, \<open>counter\<close>, \<open>ledger\<close>).
  The \<open>Lin\<close> parts: every call takes effect at one action between its start and its return as
  the sequential specification says (locale \<open>linearizable\<close>). The \<open>Wake\<close> parts: what a sleeper
  waits for is always on its way to it (locales \<open>wakeups\<close>, \<open>presleep\<close>), so that when nobody can
  act nobody sleeps wrongly. The \<open>Props\<close> theories hold the properties, each with a concrete
  run that meets its hypotheses: linearizability, order and conservation of items and
  permits, absence of lost wake-ups, deadlocks and panics, disposal, results and timeouts, and
  bounds on the actions of a call. The bounds come from a rank of the program points (locale
  \<open>ranked\<close>), the numbers in the statements are the ranks of the entries. No model uses fuel:
  the only loop that need not end, \<open>flush_buf\<close>, is a partial function, and its theorem says that it
  returns unless the socket answers \<open>Interrupted\<close> for ever. \<open>explore\<close>, which searches the interleavings of a test over the sequential queue,
  has fuel and rejects what it cannot finish, so an accepted test has been searched to its end. The
  stress tests, whose consumers loop for ever, are shown \<open>allowed\<close>, the same without end, by
  coinduction with an invariant that accounts for every item.

  \<^bold>\<open>How the parts meet.\<close> The thread pool takes its queue as a record of operations under the
  contract \<open>job_queue_contract\<close>; its properties are proved from the contract and stated over the
  sequential queue, each queue operation one action. \<open>pool_over_array\<close> and \<open>pool_over_linked\<close>
  justify that: a run of the pool over the code of a queue, the queue's actions interleaved with
  everything else, is a run over the sequential queue with each call at its linearization point
  (locale \<open>queue_object\<close>). \<open>served_pool\<close> carries the other direction, that nobody waits in vain,
  and \<open>array_demo_passes\<close> and \<open>linked_demo_passes\<close> draw the sum for a whole program.
  \<open>client_queue\<close> does the same for the test programs. One difference is documented by \<open>lbq_accepts_after_refusing\<close>: the linked
  queue may still accept one push that was already past its test when it was disposed; the pool's
  \<open>dispose\<close> takes \<open>&mut self\<close>, so no submit of that pool is in progress then;
  \<open>pool_over_linked\<close> assumes just that, and for the demo it is proved. The semaphores sit
  on the futex word and on the platform layer, an argument, whose kernel is a parameter under
  \<open>kernel_contract\<close>.

  \<^bold>\<open>Assumptions.\<close> Memory is sequentially consistent (the orderings of the atomics are not
  modelled). Mutexes and condition variables are those of \<open>std\<close>; a notification wakes threads
  the scheduler chooses. No mutex is poisoned, since no action inside a lock panics, which the
  queue and pool theorems include. Allocation succeeds. A weak exchange may fail spuriously, as an
  argument says. Unlinking a node from the list is one action: the popper alone owns the
  dummy node and the next node's item under its lock. Whether a spawn succeeds, whether a job
  panics, how many processors there are, and what a socket answers are arguments.

  \<^bold>\<open>Not modelled.\<close> \<open>ScopedTimer\<close> (prints), \<open>CachePadded\<close> (layout). \<open>executor/work_stealing.rs\<close> and \<open>bq/lock_free_sync_q.rs\<close> are empty. The
  inbox's \<open>enqueue\<close> and \<open>drain\<close>, the thread-per-connection and the UDP backends are \<open>todo!()\<close> (where
  \<open>run\<close> reaches them, they are its panic), and the reactor's loop has no body. Of the tests, those
  that compare elapsed time, and the one that rests on a deadline being far away
  (\<open>dispose_wakes_timeout_waiters_with_resource_unavailable\<close> of \<open>array_bq.rs\<close>): in the model any
  amount of time may pass between two actions.
\<close>

end
